(* ===== verification/Prelude.thy ===== *)
theory Prelude
  imports Main "HOL-Library.Word" "HOL-Library.Monad_Syntax"
    "HOL-Library.Char_ord" "HOL-Library.List_Lexorder"
begin

text \<open>
  What every component of the network file system shares: the reading of the C
  machine (results that may be undefined, bounds-checked arrays, \<open>strcpy\<close> into a
  buffer of a known size, \<open>char\<close> promoted to \<open>unsigned int\<close>) and the generic
  lemmas on lists, options and maps the component theories use.

  A C computation of type \<open>'a\<close> is an \<open>'a option\<close>: \<open>Some\<close> of its result, or
  \<open>None\<close> when the run has no defined result (a NULL or dangling pointer is
  dereferenced, an array is indexed out of its bounds, a buffer is overrun, a
  loop does not return). A \<open>None\<close> of the C code itself (a NULL pointer that is
  returned and tested) is an inner option.
\<close>

named_theorems c_mem \<open>unfolding of the bounds-checked memory operations\<close>

type_synonym 'a c_run = "'a option"

subsection \<open>Arrays and strings\<close>

text \<open>
  Reading and writing \<open>a[i]\<close> for an array of a fixed length. The index is an
  \<open>int\<close>, as in the code, so that a negative index is out of bounds too.
\<close>

definition arr_get :: "'a list \<Rightarrow> int \<Rightarrow> 'a c_run" where
  "arr_get xs i = (if 0 \<le> i \<and> i < int (length xs) then Some (xs ! nat i) else None)"

definition arr_set :: "'a list \<Rightarrow> int \<Rightarrow> 'a \<Rightarrow> 'a list c_run" where
  "arr_set xs i v = (if 0 \<le> i \<and> i < int (length xs) then Some (xs[nat i := v]) else None)"

text \<open>
  \<open>strcpy\<close> (and \<open>strcat\<close>, on the string it leaves) into a \<open>char\<close> array of \<open>n\<close>
  bytes: the copy needs room for the terminating zero.
\<close>

definition c_strcpy :: "nat \<Rightarrow> string \<Rightarrow> string c_run" where
  "c_strcpy n s = (if length s < n then Some s else None)"

text \<open>
  A plain \<open>char\<close> promoted to \<open>int\<close> and converted to \<open>unsigned int\<close>: \<open>char\<close> is
  signed on the compiler the Makefile names (gcc on x86), so a byte from 128 on
  is sign-extended.
\<close>

definition char_to_unsigned :: "char \<Rightarrow> 32 word" where
  "char_to_unsigned c = (signed_take_bit 7 (word_of_nat (of_char c)) :: 32 word)"

lemma arr_get_in [simp]: "0 \<le> i \<Longrightarrow> i < int (length xs) \<Longrightarrow> arr_get xs i = Some (xs ! nat i)"
  by (simp add: arr_get_def)

lemma arr_set_in [simp]:
  "0 \<le> i \<Longrightarrow> i < int (length xs) \<Longrightarrow> arr_set xs i v = Some (xs[nat i := v])"
  by (simp add: arr_set_def)

lemma arr_set_length: "arr_set xs i v = Some ys \<Longrightarrow> length ys = length xs"
  by (auto simp: arr_set_def split: if_splits)

lemma arr_get_Some_iff:
  "arr_get xs i = Some v \<longleftrightarrow> 0 \<le> i \<and> i < int (length xs) \<and> v = xs ! nat i"
  by (auto simp: arr_get_def)

lemma arr_set_Some_iff:
  "arr_set xs i v = Some ys \<longleftrightarrow> 0 \<le> i \<and> i < int (length xs) \<and> ys = xs[nat i := v]"
  by (auto simp: arr_set_def)

lemma c_strcpy_fits [simp]: "length s < n \<Longrightarrow> c_strcpy n s = Some s"
  by (simp add: c_strcpy_def)

lemma c_strcpy_Some_iff: "c_strcpy n s = Some t \<longleftrightarrow> length s < n \<and> t = s"
  by (auto simp: c_strcpy_def)

lemmas [c_mem] = arr_get_Some_iff arr_set_Some_iff c_strcpy_Some_iff

subsection \<open>Lists\<close>

text \<open>The first element of a list as a pointer, with the pointer that follows the list.\<close>

fun first_ptr :: "'a list \<Rightarrow> 'a option \<Rightarrow> 'a option" where
  "first_ptr [] q = q"
| "first_ptr (x # xs) q = Some x"

fun last_ptr :: "'a option \<Rightarrow> 'a list \<Rightarrow> 'a option" where
  "last_ptr p [] = p"
| "last_ptr p (x # xs) = last_ptr (Some x) xs"

lemma last_ptr_append [simp]: "last_ptr p (xs @ ys) = last_ptr (last_ptr p xs) ys"
  by (induction xs arbitrary: p) auto

lemma first_ptr_append [simp]: "first_ptr (xs @ ys) q = first_ptr xs (first_ptr ys q)"
  by (cases xs) auto

lemma first_ptr_hd: "xs \<noteq> [] \<Longrightarrow> first_ptr xs q = Some (hd xs)"
  by (cases xs) auto

lemma last_ptr_last: "xs \<noteq> [] \<Longrightarrow> last_ptr p xs = Some (last xs)"
  by (induction xs arbitrary: p) auto

lemma first_ptr_None_iff [simp]: "first_ptr xs None = None \<longleftrightarrow> xs = []"
  by (cases xs) auto

lemma last_ptr_None_iff [simp]: "last_ptr None xs = None \<longleftrightarrow> xs = []"
  by (cases xs rule: rev_cases) auto

lemma split_at_member:
  assumes "x \<in> set xs"
  obtains ys zs where "xs = ys @ x # zs" and "x \<notin> set ys"
  using split_list_first [OF assms] by blast

subsection \<open>Counted loops\<close>

text \<open>
  A \<open>for\<close> loop over a list of indices whose body takes and returns the state; it
  stops with no result as soon as the body has none.
\<close>

fun c_for :: "('i \<Rightarrow> 's \<Rightarrow> 's c_run) \<Rightarrow> 'i list \<Rightarrow> 's \<Rightarrow> 's c_run" where
  "c_for body [] s = Some s"
| "c_for body (i # is) s = do { s' \<leftarrow> body i s; c_for body is s' }"

lemma c_for_append: "c_for f (xs @ ys) s = do { s' \<leftarrow> c_for f xs s; c_for f ys s' }"
  by (induction xs arbitrary: s) (auto split: Option.bind_splits)

text \<open>The rule for such a loop: an invariant of the body, in terms of the indices done.\<close>

lemma c_for_invariant:
  assumes "I [] s"
    and "\<And>done i rest s. xs = done @ i # rest \<Longrightarrow> I done s \<Longrightarrow> \<exists>s'. f i s = Some s' \<and> I (done @ [i]) s'"
  shows "\<exists>s'. c_for f xs s = Some s' \<and> I xs s'"
proof -
  have "\<exists>s'. c_for f ds s = Some s' \<and> I ds s'" if "xs = ds @ es" for ds es
    using that
  proof (induction ds arbitrary: es rule: rev_induct)
    case Nil
    then show ?case using assms(1) by simp
  next
    case (snoc d ds)
    then obtain s' where "c_for f ds s = Some s'" "I ds s'" by fastforce
    with snoc.prems assms(2) [of ds d es s'] show ?case by (auto simp: c_for_append)
  qed
  from this [of xs "[]"] show ?thesis by simp
qed

end
