(* ===== verification/Common.thy ===== *)
theory Common
  imports Prelude
begin

text \<open>
  \<open>src/common.h\<close> and the \<open>StorageServerInfo\<close> of \<open>src/trie.h\<close>: the sizes, the
  operations, the error codes and the one message type that clients, the naming
  server and the storage servers exchange.

  A \<open>char\<close> array that the code uses as a C string is a \<open>string\<close>, the bytes before
  its terminating zero. The \<open>data\<close> array also carries file contents, which may hold
  zero bytes: it is the list of its bytes up to the last one that was stored, and the
  bytes beyond that list are zero (every message is cleared by \<open>memset\<close> before it is
  filled). The C integers of a message are only stored, compared and passed on, so
  they are \<open>int\<close> with no arithmetic that could leave their 32 bits.
\<close>

definition MAX_PATH_LEN :: nat where "MAX_PATH_LEN = 1024"
definition MAX_DATA_SIZE :: nat where "MAX_DATA_SIZE = 8192"
definition MAX_ACCESSIBLE_PATHS :: nat where "MAX_ACCESSIBLE_PATHS = 10"
definition MAX_SS :: nat where "MAX_SS = 100"

text \<open>\<open>INET_ADDRSTRLEN\<close> of \<open>arpa/inet.h\<close>.\<close>

definition INET_ADDRSTRLEN :: nat where "INET_ADDRSTRLEN = 16"

datatype OperationType =
    REGISTER_SS
  | LIST_PATHS
  | READ_FILE
  | WRITE_FILE
  | CREATE_FILE
  | DELETE_FILE
  | GET_FILE_INFO
  | COPY_FILE
  | ACK
  | NACK
  | STOP

datatype FileType = FILE_TYPE_FILE | FILE_TYPE_DIR | FILE_TYPE_UNKNOWN

datatype WriteMode = WRITE_MODE_SYNC | WRITE_MODE_ASYNC

definition SUCCESS :: int where "SUCCESS = 0"
definition FILE_NOT_FOUND :: int where "FILE_NOT_FOUND = 1"
definition FILE_IN_USE :: int where "FILE_IN_USE = 2"
definition PERMISSION_DENIED :: int where "PERMISSION_DENIED = 3"
definition INVALID_PATH :: int where "INVALID_PATH = 4"
definition SS_UNAVAILABLE :: int where "SS_UNAVAILABLE = 5"
definition NETWORK_ERROR :: int where "NETWORK_ERROR = 6"
definition FILE_EXISTS :: int where "FILE_EXISTS = 7"
definition INVALID_OPERATION :: int where "INVALID_OPERATION = 8"
definition ASYNC_WRITE_FAILED :: int where "ASYNC_WRITE_FAILED = 9"

lemmas error_code_defs = SUCCESS_def FILE_NOT_FOUND_def FILE_IN_USE_def PERMISSION_DENIED_def
  INVALID_PATH_def SS_UNAVAILABLE_def NETWORK_ERROR_def FILE_EXISTS_def INVALID_OPERATION_def
  ASYNC_WRITE_FAILED_def

lemmas size_defs = MAX_PATH_LEN_def MAX_DATA_SIZE_def MAX_ACCESSIBLE_PATHS_def MAX_SS_def
  INET_ADDRSTRLEN_def

record Message =
  msg_operation :: OperationType
  msg_path :: string
  msg_path2 :: string
  msg_data :: string
  msg_data_size :: int
  msg_error_code :: int
  msg_write_mode :: WriteMode
  msg_file_type :: FileType
  msg_ss_ip :: string
  msg_ss_nm_port :: int
  msg_ss_client_port :: int
  msg_dest_ss_ip :: string
  msg_dest_ss_client_port :: int
  msg_accessible_paths :: "string list"
  msg_num_accessible_paths :: int

text \<open>A message after \<open>memset(&msg, 0, sizeof(Message))\<close>: the first enumerators, empty strings, zeros.\<close>

definition zero_message :: Message where
  "zero_message = \<lparr>msg_operation = REGISTER_SS, msg_path = [], msg_path2 = [], msg_data = [], msg_data_size = 0,
     msg_error_code = 0, msg_write_mode = WRITE_MODE_SYNC, msg_file_type = FILE_TYPE_FILE, msg_ss_ip = [],
     msg_ss_nm_port = 0, msg_ss_client_port = 0, msg_dest_ss_ip = [], msg_dest_ss_client_port = 0,
     msg_accessible_paths = replicate MAX_ACCESSIBLE_PATHS [], msg_num_accessible_paths = 0\<rparr>"

text \<open>
  What the type \<open>Message\<close> itself guarantees of a value whose arrays are terminated:
  every string fits its array.
\<close>

definition wf_message :: "Message \<Rightarrow> bool" where
  "wf_message m \<longleftrightarrow>
     length (msg_path m) < MAX_PATH_LEN \<and> length (msg_path2 m) < MAX_PATH_LEN \<and>
     length (msg_data m) \<le> MAX_DATA_SIZE \<and>
     length (msg_ss_ip m) < INET_ADDRSTRLEN \<and> length (msg_dest_ss_ip m) < INET_ADDRSTRLEN \<and>
     length (msg_accessible_paths m) = MAX_ACCESSIBLE_PATHS \<and>
     (\<forall>p \<in> set (msg_accessible_paths m). length p < MAX_PATH_LEN)"

record StorageServerInfo =
  ssi_ip :: string
  ssi_nm_port :: int
  ssi_client_port :: int
  ssi_accessible_paths :: "string list"
  ssi_num_accessible_paths :: int

text \<open>A slot of the static array of servers before it is filled: static storage is zeroed.\<close>

definition zero_ss_info :: StorageServerInfo where
  "zero_ss_info = \<lparr>ssi_ip = [], ssi_nm_port = 0, ssi_client_port = 0,
     ssi_accessible_paths = replicate MAX_ACCESSIBLE_PATHS [], ssi_num_accessible_paths = 0\<rparr>"

lemma wf_zero_message: "wf_message zero_message"
  by (simp add: wf_message_def zero_message_def size_defs)

text \<open>
  The numbers C gives the enumerators, which order them: \<open>OperationType\<close> is a linear
  order of the library by them.
\<close>

fun op_code :: "OperationType \<Rightarrow> nat" where
  "op_code REGISTER_SS = 0"
| "op_code LIST_PATHS = 1"
| "op_code READ_FILE = 2"
| "op_code WRITE_FILE = 3"
| "op_code CREATE_FILE = 4"
| "op_code DELETE_FILE = 5"
| "op_code GET_FILE_INFO = 6"
| "op_code COPY_FILE = 7"
| "op_code ACK = 8"
| "op_code NACK = 9"
| "op_code STOP = 10"

lemma op_code_inj: "op_code a = op_code b \<Longrightarrow> a = b"
  by (cases a; cases b) simp_all

instantiation OperationType :: linorder
begin

definition less_eq_OperationType :: "OperationType \<Rightarrow> OperationType \<Rightarrow> bool" where
  "less_eq_OperationType a b \<longleftrightarrow> op_code a \<le> op_code b"

definition less_OperationType :: "OperationType \<Rightarrow> OperationType \<Rightarrow> bool" where
  "less_OperationType a b \<longleftrightarrow> op_code a < op_code b"

instance
  by standard (auto simp: less_eq_OperationType_def less_OperationType_def dest: op_code_inj)

end

end
