(* ===== verification/Net.thy ===== *)
theory Net
  imports Common
begin

text \<open>
  \<open>src/utils.c\<close>: the wrappers of the socket calls. The operating system's answers
  (\<open>socket\<close>, \<open>bind\<close>, \<open>listen\<close>, \<open>accept\<close>, \<open>inet_pton\<close>, \<open>connect\<close>, \<open>send\<close>, \<open>recv\<close>) are
  arguments; the wrappers turn them into the codes the servers test. \<open>log_message\<close> and
  \<open>perror\<close> only print and are left out.
\<close>

definition create_socket :: "int \<Rightarrow> int" where
  "create_socket sockfd = sockfd"

text \<open>A port travels as \<open>htons(port)\<close>: the 16 low bits of the \<open>int\<close>, in network order.\<close>

definition htons :: "int \<Rightarrow> 16 word" where
  "htons port = word_of_int port"

text \<open>\<open>bind_call\<close> and \<open>connect_call\<close> are the system's answers for a port, \<open>pton\<close> for an address.\<close>

definition bind_socket :: "(16 word \<Rightarrow> int) \<Rightarrow> int \<Rightarrow> int" where
  "bind_socket bind_call port = (if bind_call (htons port) < 0 then -1 else 0)"

definition listen_socket :: "int \<Rightarrow> int" where
  "listen_socket listen_result = (if listen_result < 0 then -1 else 0)"

definition accept_connection :: "int \<Rightarrow> int" where
  "accept_connection client_sockfd = client_sockfd"

definition connect_to_server :: "(string \<Rightarrow> int) \<Rightarrow> (string \<Rightarrow> 16 word \<Rightarrow> int) \<Rightarrow> string \<Rightarrow> int \<Rightarrow> int" where
  "connect_to_server pton connect_call ip port =
     (if pton ip \<le> 0 then -1 else if connect_call ip (htons port) < 0 then -1 else 0)"

definition send_message :: "int \<Rightarrow> int" where
  "send_message send_result = (if send_result < 0 then -1 else 0)"

text \<open>
  \<open>recv\<close> returns the number of bytes and leaves them at the start of the buffer: its
  model is that number and the message in the buffer afterwards.
\<close>

definition receive_message :: "int \<times> Message \<Rightarrow> int \<times> Message" where
  "receive_message r = (let (bytes_received, msg) = r in
     if bytes_received < 0 then (-1, msg)
     else if bytes_received = 0 then (1, msg)
     else (0, msg))"

text \<open>
  The world outside one request that opens a connection to another server: what the
  socket calls answer, given the address, the port and the message that was sent.
\<close>

record peer =
  peer_socket :: int
  peer_pton :: "string \<Rightarrow> int"
  peer_connect :: "string \<Rightarrow> 16 word \<Rightarrow> int"
  peer_send :: "string \<Rightarrow> 16 word \<Rightarrow> Message \<Rightarrow> int"
  peer_recv :: "string \<Rightarrow> 16 word \<Rightarrow> Message \<Rightarrow> int \<times> Message"

text \<open>
  The two halves of such a request, which the servers write out at each place with the
  same error codes: opening the connection, and exchanging the messages over it.
\<close>

definition open_peer :: "peer \<Rightarrow> string \<Rightarrow> int \<Rightarrow> int option" where
  "open_peer w ip port =
     (if create_socket (peer_socket w) < 0 then Some NETWORK_ERROR
      else if connect_to_server (peer_pton w) (peer_connect w) ip port < 0 then Some SS_UNAVAILABLE
      else None)"

definition exchange :: "peer \<Rightarrow> string \<Rightarrow> int \<Rightarrow> Message \<Rightarrow> int + Message" where
  "exchange w ip port req =
     (if send_message (peer_send w ip (htons port) req) < 0 then Inl NETWORK_ERROR
      else (case receive_message (peer_recv w ip (htons port) req) of
              (code, reply) \<Rightarrow> if code \<noteq> 0 then Inl NETWORK_ERROR else Inr reply))"

text \<open>
  Whether the request gets to the peer: the connection opens and the message is sent. The
  reply may still be lost.
\<close>

definition delivers :: "peer \<Rightarrow> string \<Rightarrow> int \<Rightarrow> Message \<Rightarrow> bool" where
  "delivers w ip port req \<longleftrightarrow> open_peer w ip port = None \<and> send_message (peer_send w ip (htons port) req) = 0"

text \<open>
  A request to a peer that answers \<open>reply\<close>, over a connection that may fail at any point:
  \<open>handled\<close> is whether the peer's handler ran, for which the request must have been
  delivered; a reply that arrives is the handler's, and a handled request may still get none.
\<close>

definition served :: "peer \<Rightarrow> string \<Rightarrow> int \<Rightarrow> Message \<Rightarrow> bool \<Rightarrow> Message \<Rightarrow> bool" where
  "served w ip port req handled reply \<longleftrightarrow> (handled \<longrightarrow> delivers w ip port req) \<and>
     (\<forall>r. open_peer w ip port = None \<longrightarrow> exchange w ip port req = Inr r \<longrightarrow> handled \<and> r = reply)"

text \<open>A peer that can be reached and whose reply arrives.\<close>

definition reaches :: "peer \<Rightarrow> string \<Rightarrow> int \<Rightarrow> Message \<Rightarrow> Message \<Rightarrow> bool" where
  "reaches w ip port req reply \<longleftrightarrow> open_peer w ip port = None \<and> exchange w ip port req = Inr reply"

text \<open>A peer that answers every request by the function \<open>f\<close>.\<close>

definition answering :: "(string \<Rightarrow> 16 word \<Rightarrow> Message \<Rightarrow> Message) \<Rightarrow> peer" where
  "answering f = \<lparr>peer_socket = 3, peer_pton = (\<lambda>_. 1), peer_connect = (\<lambda>_ _. 0),
     peer_send = (\<lambda>_ _ _. 1), peer_recv = (\<lambda>ip port m. (1, f ip port m))\<rparr>"

lemma answering_reaches: "reaches (answering f) ip port req reply \<longleftrightarrow> reply = f ip (htons port) req"
  by (auto simp: reaches_def answering_def open_peer_def exchange_def create_socket_def
      connect_to_server_def send_message_def receive_message_def)

lemma answering_served: "served (answering f) ip port req True (f ip (htons port) req)"
  by (simp add: served_def delivers_def answering_def open_peer_def exchange_def create_socket_def
      connect_to_server_def send_message_def receive_message_def)

definition is_success :: "Message \<Rightarrow> bool" where
  "is_success m \<longleftrightarrow> msg_operation m = ACK \<and> msg_error_code m = SUCCESS"

definition ack_message :: Message where
  "ack_message = zero_message\<lparr>msg_operation := ACK, msg_error_code := SUCCESS\<rparr>"

definition nack_message :: "int \<Rightarrow> Message" where
  "nack_message e = zero_message\<lparr>msg_operation := NACK, msg_error_code := e\<rparr>"

lemma is_success_ack [simp]: "is_success ack_message"
  by (simp add: is_success_def ack_message_def)

lemma is_success_nack [simp]: "\<not> is_success (nack_message e)"
  by (simp add: is_success_def nack_message_def)

lemma open_peer_code: "open_peer w ip port = Some e \<Longrightarrow> e = NETWORK_ERROR \<or> e = SS_UNAVAILABLE"
  by (auto simp: open_peer_def split: if_splits)

lemma exchange_code: "exchange w ip port req = Inl e \<Longrightarrow> e = NETWORK_ERROR"
  by (auto simp: exchange_def split: if_splits prod.splits)

end
