(* ===== verification/Trie.thy ===== *)
theory Trie
  imports Common "HOL-Library.Sublist"
begin

text \<open>
  \<open>src/trie.c\<close>: the index of the naming server from paths to storage servers. A node
  has an array of 256 child pointers, indexed by \<open>(unsigned char)path[i]\<close>, and a pointer
  to the server of the path that ends there. The nodes form a tree that only this
  module changes, so a node is a value: its children are a function from the index,
  and \<open>'v\<close> is the type of the server pointers. The per-node read-write locks are
  taken and released inside each operation and leave no trace in the result.
\<close>

definition MAX_CHILDREN :: nat where "MAX_CHILDREN = 256"

datatype 'v TrieNode =
  TrieNode (children: "nat \<Rightarrow> 'v TrieNode option") (ss_info: "'v option")

subsection \<open>Operations\<close>

text \<open>\<open>create_trie_node\<close> returns NULL when \<open>malloc\<close> does; its argument is that outcome.\<close>

definition create_trie_node :: "bool \<Rightarrow> 'v TrieNode option" where
  "create_trie_node malloc_ok =
     (if malloc_ok then Some (TrieNode (\<lambda>_. None) None) else None)"

text \<open>
  \<open>trie_insert\<close>: \<open>mal i\<close> is the outcome of the \<open>malloc\<close> in iteration \<open>i\<close> of the loop,
  if it makes one. The code stores the new node without testing it and locks it, so a
  failed allocation has no defined result.
\<close>

fun trie_insert_from :: "(nat \<Rightarrow> bool) \<Rightarrow> nat \<Rightarrow> 'v TrieNode \<Rightarrow> string \<Rightarrow> 'v \<Rightarrow> 'v TrieNode c_run" where
  "trie_insert_from mal i (TrieNode ch info) [] v = Some (TrieNode ch (Some v))"
| "trie_insert_from mal i (TrieNode ch info) (c # cs) v = do {
     let index = of_char c;
     child \<leftarrow> (case ch index of None \<Rightarrow> create_trie_node (mal i) | Some t \<Rightarrow> Some t);
     child' \<leftarrow> trie_insert_from mal (Suc i) child cs v;
     Some (TrieNode (ch(index := Some child')) info)
   }"

definition trie_insert :: "(nat \<Rightarrow> bool) \<Rightarrow> 'v TrieNode \<Rightarrow> string \<Rightarrow> 'v \<Rightarrow> 'v TrieNode c_run" where
  "trie_insert mal root p v = trie_insert_from mal 0 root p v"

fun trie_search :: "'v TrieNode \<Rightarrow> string \<Rightarrow> 'v option" where
  "trie_search (TrieNode ch info) [] = info"
| "trie_search (TrieNode ch info) (c # cs) =
     (case ch (of_char c) of None \<Rightarrow> None | Some t \<Rightarrow> trie_search t cs)"

text \<open>
  \<open>free_trie\<close> frees the children in the order of their index and then the node. Its
  model is the list of the nodes it passes to \<open>free\<close>, in that order, each named by
  the path that leads to it.
\<close>

definition prefix_children :: "(nat \<Rightarrow> string list option) \<Rightarrow> string list" where
  "prefix_children g =
     concat (map (\<lambda>i. case g i of None \<Rightarrow> [] | Some ps \<Rightarrow> map ((#) (char_of i)) ps) [0..<MAX_CHILDREN])"

primrec free_trie :: "'v TrieNode \<Rightarrow> string list" where
  "free_trie (TrieNode ch info) =
     prefix_children (map_option free_trie \<circ> ch) @ [[]]"

text \<open>
  \<open>_trie_collect_paths_recursive\<close>: \<open>pre\<close> is \<open>current_path[0..level)\<close>, \<open>paths\<close> the first
  \<open>*count\<close> entries of the result array. A write to \<open>current_path[level]\<close> is in bounds
  while \<open>level < MAX_PATH_LEN\<close>.
\<close>

primrec trie_collect_paths_recursive :: "'v TrieNode \<Rightarrow> string \<Rightarrow> string list \<Rightarrow> string list c_run" where
  "trie_collect_paths_recursive (TrieNode ch info) = (\<lambda>pre paths. do {
     paths1 \<leftarrow> (if info \<noteq> None \<and> length paths < MAX_ACCESSIBLE_PATHS
                then do { s \<leftarrow> c_strcpy MAX_PATH_LEN pre; Some (paths @ [s]) }
                else Some paths);
     c_for (\<lambda>i ps. case (map_option trie_collect_paths_recursive \<circ> ch) i of
              None \<Rightarrow> Some ps
            | Some rec \<Rightarrow>
                (if length pre < MAX_PATH_LEN then rec (pre @ [char_of i]) ps else None))
       [0..<MAX_CHILDREN] paths1
   })"

definition trie_collect_paths :: "'v TrieNode \<Rightarrow> string list c_run" where
  "trie_collect_paths root = trie_collect_paths_recursive root [] []"

fun trie_delete :: "'v TrieNode \<Rightarrow> string \<Rightarrow> 'v TrieNode" where
  "trie_delete (TrieNode ch info) [] = TrieNode ch None"
| "trie_delete (TrieNode ch info) (c # cs) =
     (case ch (of_char c) of
        None \<Rightarrow> TrieNode ch info
      | Some t \<Rightarrow> TrieNode (ch(of_char c := Some (trie_delete t cs))) info)"

subsection \<open>The trie as a map from paths\<close>

lemma trie_search_case:
  "trie_search t p = (case p of [] \<Rightarrow> ss_info t
     | c # cs \<Rightarrow> (case children t (of_char c) of None \<Rightarrow> None | Some u \<Rightarrow> trie_search u cs))"
  by (cases t; cases p) auto

lemma trie_search_create: "create_trie_node b = Some t \<Longrightarrow> trie_search t p = None"
  by (cases p) (auto simp: create_trie_node_def split: if_splits)

lemma trie_insert_from_search:
  "trie_insert_from mal i t p v = Some t' \<Longrightarrow> trie_search t' q = (if q = p then Some v else trie_search t q)"
proof (induction mal i t p v arbitrary: t' q rule: trie_insert_from.induct)
  case (1 mal i ch info v)
  then show ?case by (cases q) auto
next
  case (2 mal i ch info c cs v)
  from "2.prems" obtain child child' where
    child: "(case ch (of_char c) of None \<Rightarrow> create_trie_node (mal i) | Some t \<Rightarrow> Some t) = Some child" and
    rec: "trie_insert_from mal (Suc i) child cs v = Some child'" and
    t': "t' = TrieNode (ch(of_char c := Some child')) info"
    by (auto simp: Let_def split: Option.bind_splits)
  have IH: "trie_search child' q = (if q = cs then Some v else trie_search child q)" for q
    using "2.IH" child rec by (simp add: Let_def)
  have "trie_search child q = (case ch (of_char c) of None \<Rightarrow> None | Some u \<Rightarrow> trie_search u q)" for q
    using child by (auto simp: trie_search_create split: option.splits)
  with IH t' show ?case by (cases q) (auto split: option.splits)
qed

lemma trie_insert_search:
  "trie_insert mal t p v = Some t' \<Longrightarrow> trie_search t' = (trie_search t)(p \<mapsto> v)"
  by (rule ext) (simp add: trie_insert_def trie_insert_from_search)

lemma trie_insert_from_total:
  "(\<And>j. mal j) \<Longrightarrow> \<exists>t'. trie_insert_from mal i t p v = Some t'"
proof (induction p arbitrary: t i)
  case Nil
  then show ?case by (cases t) auto
next
  case (Cons c cs)
  obtain ch info where t: "t = TrieNode ch info" by (cases t)
  obtain child where
    "(case ch (of_char c) of None \<Rightarrow> create_trie_node (mal i) | Some t \<Rightarrow> Some t) = Some child"
    by (cases "ch (of_char c)") (auto simp: create_trie_node_def Cons.prems)
  with Cons.IH [OF Cons.prems, of "Suc i" child] t show ?case by auto
qed

lemma trie_insert_total: "(\<And>j. mal j) \<Longrightarrow> \<exists>t'. trie_insert mal t p v = Some t'"
  by (simp add: trie_insert_def trie_insert_from_total)

lemma trie_delete_search: "trie_search (trie_delete t p) = (trie_search t)(p := None)"
proof (rule ext)
  show "trie_search (trie_delete t p) q = ((trie_search t)(p := None)) q" for q
    by (induction t p arbitrary: q rule: trie_delete.induct)
      (auto simp: trie_search_case split: option.splits list.splits)
qed


subsection \<open>Enumerating the trie\<close>

text \<open>
  The node a path leads to, and the stored paths in the order the recursive collector
  meets them: a path before its extensions, siblings by unsigned byte.
\<close>

fun trie_node_at :: "'v TrieNode \<Rightarrow> string \<Rightarrow> 'v TrieNode option" where
  "trie_node_at t [] = Some t"
| "trie_node_at (TrieNode ch info) (c # cs) =
     (case ch (of_char c) of None \<Rightarrow> None | Some t \<Rightarrow> trie_node_at t cs)"

primrec trie_paths :: "'v TrieNode \<Rightarrow> string list" where
  "trie_paths (TrieNode ch info) =
     (if info = None then [] else [[]]) @ prefix_children (map_option trie_paths \<circ> ch)"

lemma prefix_children_mem:
  "q \<in> set (prefix_children g) \<longleftrightarrow> (\<exists>c cs ps. q = c # cs \<and> g (of_char c) = Some ps \<and> cs \<in> set ps)"
proof
  assume "q \<in> set (prefix_children g)"
  then obtain i ps cs where "i < 256" "g i = Some ps" "cs \<in> set ps" "q = char_of i # cs"
    unfolding prefix_children_def MAX_CHILDREN_def
    by (auto split: option.splits) metis
  then show "\<exists>c cs ps. q = c # cs \<and> g (of_char c) = Some ps \<and> cs \<in> set ps"
    by (intro exI [of _ "char_of i"]) auto
next
  assume "\<exists>c cs ps. q = c # cs \<and> g (of_char c) = Some ps \<and> cs \<in> set ps"
  then obtain c cs ps where *: "q = c # cs" "g (of_char c) = Some ps" "cs \<in> set ps"
    by blast
  have "of_char c \<in> set [0..<MAX_CHILDREN]"
    by (simp add: MAX_CHILDREN_def)
  with * show "q \<in> set (prefix_children g)"
    by (force simp: prefix_children_def)
qed

lemma char_of_less: "i < j \<Longrightarrow> j < 256 \<Longrightarrow> char_of i < (char_of (j :: nat) :: char)"
  by (simp add: less_char_def)

lemma distinct_iff_sorted_wrt: "distinct xs \<longleftrightarrow> sorted_wrt (\<noteq>) xs"
  by (induction xs) auto

text \<open>
  One order argument for the three enumerations: a relation that each child's list
  satisfies, that a common first byte keeps and that any two different first bytes give.
\<close>

lemma prefix_children_sorted_wrt:
  assumes "\<And>i ps. g i = Some ps \<Longrightarrow> sorted_wrt R ps"
    and "\<And>c p q. R p q \<Longrightarrow> R (c # p) (c # q)"
    and "\<And>c d p q. c < d \<Longrightarrow> R (c # p) (d # q)"
  shows "sorted_wrt R (prefix_children g)"
proof -
  let ?l = "\<lambda>i. case g i of None \<Rightarrow> [] | Some ps \<Rightarrow> map ((#) (char_of i)) ps"
  have "sorted_wrt R (concat (map ?l [0..<n]))" if "n \<le> 256" for n
    using that
  proof (induction n)
    case 0
    then show ?case by simp
  next
    case (Suc n)
    have "sorted_wrt R (?l n)"
      using assms(1) [of n]
      by (auto simp: sorted_wrt_map intro: sorted_wrt_mono_rel assms(2) split: option.splits)
    moreover have "R x y" if "x \<in> set (concat (map ?l [0..<n]))" "y \<in> set (?l n)" for x y
      using that Suc.prems by (fastforce split: option.splits intro: char_of_less assms(3))
    ultimately show ?case using Suc by (simp add: sorted_wrt_append)
  qed
  from this [of 256] show ?thesis by (simp add: prefix_children_def MAX_CHILDREN_def)
qed

lemma prefix_children_distinct:
  assumes "\<And>i ps. g i = Some ps \<Longrightarrow> distinct ps"
  shows "distinct (prefix_children g)"
proof -
  have "sorted_wrt (\<noteq>) (prefix_children g)"
    using assms by (intro prefix_children_sorted_wrt) (auto simp: distinct_iff_sorted_wrt)
  then show ?thesis by (simp add: distinct_iff_sorted_wrt)
qed

text \<open>Induction over a trie, with the hypothesis for the children that exist.\<close>

lemma trie_induct [case_names Node]:
  assumes "\<And>ch info. (\<And>i u. ch i = Some u \<Longrightarrow> P u) \<Longrightarrow> P (TrieNode ch info)"
  shows "P t"
proof (induction t)
  case (TrieNode ch info)
  have "P u" if "ch i = Some u" for i u
    using TrieNode.IH [of "Some u" u] that by (metis option.set_intros rangeI)
  then show ?case by (rule assms)
qed

lemma trie_paths_set: "set (trie_paths t) = {p. trie_search t p \<noteq> None}"
proof -
  have "p \<in> set (trie_paths t) \<longleftrightarrow> trie_search t p \<noteq> None" for p
  proof (induction t arbitrary: p rule: trie_induct)
    case (Node ch info)
    show ?case
      by (cases p) (auto simp: prefix_children_mem Node.IH split: option.splits)
  qed
  then show ?thesis by blast
qed

lemma trie_paths_sorted: "sorted_wrt (<) (trie_paths t)"
proof (induction t rule: trie_induct)
  case (Node ch info)
  have "sorted_wrt (<) (prefix_children (map_option trie_paths \<circ> ch))"
    using Node.IH by (intro prefix_children_sorted_wrt) auto
  then show ?case by (auto simp: sorted_wrt_append prefix_children_mem)
qed

lemma free_trie_set: "set (free_trie t) = {p. trie_node_at t p \<noteq> None}"
proof -
  have "p \<in> set (free_trie t) \<longleftrightarrow> trie_node_at t p \<noteq> None" for p
  proof (induction t arbitrary: p rule: trie_induct)
    case (Node ch info)
    show ?case
      by (cases p) (auto simp: prefix_children_mem Node.IH split: option.splits)
  qed
  then show ?thesis by blast
qed

lemma free_trie_postorder: "sorted_wrt (\<lambda>p q. \<not> strict_prefix p q) (free_trie t)"
proof (induction t rule: trie_induct)
  case (Node ch info)
  have "sorted_wrt (\<lambda>p q. \<not> strict_prefix p q) (prefix_children (map_option free_trie \<circ> ch))"
    using Node.IH by (intro prefix_children_sorted_wrt) auto
  then show ?case by (auto simp: sorted_wrt_append)
qed

lemma free_trie_distinct: "distinct (free_trie t)"
proof (induction t rule: trie_induct)
  case (Node ch info)
  have "distinct (prefix_children (map_option free_trie \<circ> ch))"
    using Node.IH by (intro prefix_children_distinct) auto
  then show ?case by (auto simp: prefix_children_mem)
qed


subsection \<open>Collecting paths\<close>

text \<open>
  Every node is at a depth that leaves room in the 1024 bytes of \<open>current_path\<close>; the
  paths that reach the trie come from arrays of that size.
\<close>

definition trie_fits :: "nat \<Rightarrow> 'v TrieNode \<Rightarrow> bool" where
  "trie_fits k t \<longleftrightarrow> (\<forall>p \<in> set (free_trie t). k + length p < MAX_PATH_LEN)"

lemma trie_fits_child:
  "trie_fits k (TrieNode ch info) \<Longrightarrow> ch i = Some u \<Longrightarrow> i < 256 \<Longrightarrow> trie_fits (Suc k) u"
  unfolding trie_fits_def free_trie_set
proof (intro ballI)
  fix p assume *: "\<forall>p \<in> {p. trie_node_at (TrieNode ch info) p \<noteq> None}. k + length p < MAX_PATH_LEN"
    "ch i = Some u" "i < 256" "p \<in> {p. trie_node_at u p \<noteq> None}"
  then have "trie_node_at (TrieNode ch info) (char_of i # p) \<noteq> None" by simp
  with *(1) have "k + length (char_of i # p) < MAX_PATH_LEN" by blast
  then show "Suc k + length p < MAX_PATH_LEN" by simp
qed

lemma trie_fits_root: "trie_fits k t \<Longrightarrow> k < MAX_PATH_LEN"
  unfolding trie_fits_def free_trie_set by (drule bspec [of _ _ "[]"]) auto

lemma take_append_take: "take n (take n xs @ ys) = take n (xs @ ys)"
  by (simp add: min_def)

lemma collect_recursive_take:
  "trie_fits (length pre) t \<Longrightarrow> length ps \<le> MAX_ACCESSIBLE_PATHS \<Longrightarrow>
     trie_collect_paths_recursive t pre ps =
       Some (take MAX_ACCESSIBLE_PATHS (ps @ map ((@) pre) (trie_paths t)))"
proof (induction t arbitrary: pre ps rule: trie_induct)
  case (Node ch info)
  let ?t = "TrieNode ch info" and ?M = MAX_ACCESSIBLE_PATHS
  let ?g = "map_option trie_paths \<circ> ch"
  let ?l = "\<lambda>i. case ?g i of None \<Rightarrow> [] | Some qs \<Rightarrow> map ((#) (char_of i)) qs"
  let ?own = "if info = None then [] else [[]]"
  let ?body = "\<lambda>i ps. case (map_option trie_collect_paths_recursive \<circ> ch) i of
      None \<Rightarrow> Some ps
    | Some rec \<Rightarrow> (if length pre < MAX_PATH_LEN then rec (pre @ [char_of i]) ps else None)"
  let ?I = "\<lambda>done s. s = take ?M (ps @ map ((@) pre) (?own @ concat (map ?l done)))"
  have pre: "length pre < MAX_PATH_LEN" using Node.prems(1) by (rule trie_fits_root)
  have "\<exists>s'. c_for ?body [0..<MAX_CHILDREN] (take ?M (ps @ map ((@) pre) ?own)) = Some s'
      \<and> ?I [0..<MAX_CHILDREN] s'"
  proof (rule c_for_invariant)
    show "?I [] (take ?M (ps @ map ((@) pre) ?own))" by simp
  next
    fix don i rest s
    assume split: "[0..<MAX_CHILDREN] = don @ i # rest" and I: "?I don s"
    have i: "i < 256" using split [THEN arg_cong, of set] by (auto simp: MAX_CHILDREN_def)
    show "\<exists>s'. ?body i s = Some s' \<and> ?I (don @ [i]) s'"
    proof (cases "ch i")
      case None
      with I show ?thesis by simp
    next
      case (Some u)
      let ?new = "map ((@) (pre @ [char_of i])) (trie_paths u)"
      let ?old = "ps @ map ((@) pre) (?own @ concat (map ?l don))"
      have "trie_collect_paths_recursive u (pre @ [char_of i]) s = Some (take ?M (s @ ?new))"
        by (rule Node.IH [OF Some]) (use trie_fits_child [OF Node.prems(1) Some i] I in simp_all)
      moreover have "take ?M (s @ ?new) = take ?M (?old @ ?new)"
        unfolding I by (rule take_append_take)
      moreover have "?old @ ?new = ps @ map ((@) pre) (?own @ concat (map ?l (don @ [i])))"
        using Some by simp
      ultimately have "trie_collect_paths_recursive u (pre @ [char_of i]) s =
          Some (take ?M (ps @ map ((@) pre) (?own @ concat (map ?l (don @ [i])))))"
        by (simp only:)
      then have "?body i s = Some (take ?M (ps @ map ((@) pre) (?own @ concat (map ?l (don @ [i])))))"
        using Some pre by simp
      then show ?thesis by blast
    qed
  qed
  moreover have "(if info \<noteq> None \<and> length ps < ?M
      then do { s \<leftarrow> c_strcpy MAX_PATH_LEN pre; Some (ps @ [s]) } else Some ps)
      = Some (take ?M (ps @ map ((@) pre) ?own))"
    using pre Node.prems(2) by (auto simp: c_strcpy_def)
  ultimately show ?case by (auto simp: prefix_children_def)
qed

lemma trie_collect_paths_take:
  "trie_fits 0 t \<Longrightarrow> trie_collect_paths t = Some (take MAX_ACCESSIBLE_PATHS (trie_paths t))"
  using collect_recursive_take [of "[]" t "[]"] by (simp add: trie_collect_paths_def map_idI)

subsection \<open>Where nodes are, and when allocation matters\<close>

lemma trie_node_at_case:
  "trie_node_at t p = (case p of [] \<Rightarrow> Some t
     | c # cs \<Rightarrow> (case children t (of_char c) of None \<Rightarrow> None | Some u \<Rightarrow> trie_node_at u cs))"
  by (cases t; cases p) auto

lemma trie_node_at_create:
  "create_trie_node b = Some t \<Longrightarrow> trie_node_at t p = (if p = [] then Some t else None)"
  by (cases p) (auto simp: create_trie_node_def split: if_splits)

lemma trie_insert_from_None_iff:
  "trie_insert_from mal i t p v = None \<longleftrightarrow>
     (\<exists>j < length p. \<not> mal (i + j) \<and> trie_node_at t (take (Suc j) p) = None)"
proof (induction mal i t p v rule: trie_insert_from.induct)
  case (1 mal i ch info v)
  then show ?case by simp
next
  case (2 mal i ch info c cs v)
  let ?child = "case ch (of_char c) of None \<Rightarrow> create_trie_node (mal i) | Some t \<Rightarrow> Some t"
  have shift: "(\<exists>j < length (c # cs). P j) \<longleftrightarrow> P 0 \<or> (\<exists>j < length cs. P (Suc j))" for P
    using Ex_less_Suc2 [of "length cs" P] by simp
  show ?case
  proof (cases ?child)
    case None
    then show ?thesis unfolding shift by (auto simp: create_trie_node_def split: option.splits if_splits)
  next
    case (Some u)
    have IH: "trie_insert_from mal (Suc i) u cs v = None \<longleftrightarrow>
        (\<exists>j < length cs. \<not> mal (Suc i + j) \<and> trie_node_at u (take (Suc j) cs) = None)"
      using "2.IH" Some by simp
    have "ch (of_char c) = None \<Longrightarrow> mal i"
      using Some by (auto simp: create_trie_node_def split: if_splits)
    moreover have "trie_node_at (TrieNode ch info) (c # take (Suc j) cs) = None \<longleftrightarrow>
        trie_node_at u (take (Suc j) cs) = None" if "j < length cs" for j
      using Some that by (cases cs) (auto simp: trie_node_at_create split: option.splits)
    ultimately show ?thesis
      unfolding shift using Some IH by (auto split: option.splits Option.bind_splits)
  qed
qed

lemma trie_insert_from_nodes:
  "trie_insert_from mal i t p v = Some t' \<Longrightarrow>
     trie_node_at t' q \<noteq> None \<longleftrightarrow> trie_node_at t q \<noteq> None \<or> (\<exists>n. q = take n p)"
proof (induction mal i t p v arbitrary: t' q rule: trie_insert_from.induct)
  case (1 mal i ch info v)
  then show ?case by (cases q) auto
next
  case (2 mal i ch info c cs v)
  from "2.prems" obtain child child' where
    child: "(case ch (of_char c) of None \<Rightarrow> create_trie_node (mal i) | Some t \<Rightarrow> Some t) = Some child" and
    rec: "trie_insert_from mal (Suc i) child cs v = Some child'" and
    t': "t' = TrieNode (ch(of_char c := Some child')) info"
    by (auto simp: Let_def split: Option.bind_splits)
  have IH: "trie_node_at child' q \<noteq> None \<longleftrightarrow> trie_node_at child q \<noteq> None \<or> (\<exists>n. q = take n cs)" for q
    using "2.IH" child rec by (simp add: Let_def)
  have old: "trie_node_at child q \<noteq> None \<longleftrightarrow>
      q = [] \<or> (case ch (of_char c) of None \<Rightarrow> False | Some u \<Rightarrow> trie_node_at u q \<noteq> None)" for q
    using child by (cases q) (auto simp: trie_node_at_create split: option.splits)
  have take_Cons: "(\<exists>n. d # q' = take n (c # cs)) \<longleftrightarrow> d = c \<and> (\<exists>n. q' = take n cs)" for d q'
    by (metis list.inject list.distinct(1) take_Suc_Cons take_eq_Nil2 not0_implies_Suc)
  show ?case
  proof (cases q)
    case Nil
    then show ?thesis by (auto intro: exI [of _ 0])
  next
    case (Cons d q')
    have "\<exists>n. [] = take n cs" by (rule exI [of _ 0]) simp
    then show ?thesis
      using IH [of q'] old [of q'] Cons t' by (auto simp: take_Cons split: option.splits)
  qed
qed

lemma trie_search_node: "trie_search t p \<noteq> None \<Longrightarrow> trie_node_at t p \<noteq> None"
  by (induction t p rule: trie_search.induct) (auto split: option.splits)

lemma trie_insert_fits:
  assumes "trie_insert mal t p v = Some t'" and "trie_fits 0 t" and "length p < MAX_PATH_LEN"
  shows "trie_fits 0 t'"
proof -
  have "length q < MAX_PATH_LEN" if "trie_node_at t' q \<noteq> None" for q
  proof -
    from that assms(1) have "trie_node_at t q \<noteq> None \<or> (\<exists>n. q = take n p)"
      using trie_insert_from_nodes [of mal 0 t p v t' q] by (simp add: trie_insert_def)
    then show ?thesis using assms(2,3) by (auto simp: trie_fits_def free_trie_set)
  qed
  then show ?thesis by (simp add: trie_fits_def free_trie_set)
qed

lemma trie_delete_nodes: "trie_node_at (trie_delete t p) q \<noteq> None \<longleftrightarrow> trie_node_at t q \<noteq> None"
  by (induction t p arbitrary: q rule: trie_delete.induct)
    (auto simp: trie_node_at_case split: option.splits list.splits)

lemma trie_delete_fits: "trie_fits k (trie_delete t p) \<longleftrightarrow> trie_fits k t"
  using trie_delete_nodes [of t p] by (simp add: trie_fits_def free_trie_set)


subsection \<open>The interface the naming server uses\<close>

text \<open>
  An index from paths: what a lookup returns after an insertion (when the insertion
  has a result) and after a removal.
\<close>

locale path_index =
  fixes lookup :: "'t \<Rightarrow> string \<Rightarrow> 'v option"
    and insert :: "'t \<Rightarrow> string \<Rightarrow> 'v \<Rightarrow> 't c_run"
    and remove :: "'t \<Rightarrow> string \<Rightarrow> 't"
  assumes lookup_insert: "insert t p v = Some t' \<Longrightarrow> lookup t' = (lookup t)(p \<mapsto> v)"
    and lookup_remove: "lookup (remove t p) = (lookup t)(p := None)"
begin

lemma lookup_insert_all:
  "c_for (\<lambda>p t. insert t p v) ps t = Some t' \<Longrightarrow>
     lookup t' = (\<lambda>q. if q \<in> set ps then Some v else lookup t q)"
proof (induction ps arbitrary: t)
  case Nil
  then show ?case by simp
next
  case (Cons p ps)
  then obtain t1 where "insert t p v = Some t1" "c_for (\<lambda>p t. insert t p v) ps t1 = Some t'"
    by (auto split: Option.bind_splits)
  with Cons.IH lookup_insert show ?case by fastforce
qed

lemma remove_insert:
  "insert t p v = Some t' \<Longrightarrow> lookup t p = None \<Longrightarrow> lookup (remove t' p) = lookup t"
  by (auto simp: lookup_insert lookup_remove)

end

interpretation trie_index: path_index trie_search "trie_insert mal" trie_delete for mal
  by unfold_locales (auto simp: trie_insert_search trie_delete_search)

subsection \<open>Properties\<close>

text \<open>
  Property C34: inserting a path has a result exactly when no allocation of a missing node
  fails, and then the trie maps that path to the given server and every other path as before.
\<close>

theorem trie_insert_correct:
  "case trie_insert mal t p v of
     None \<Rightarrow> \<exists>j < length p. \<not> mal j \<and> trie_node_at t (take (Suc j) p) = None
   | Some t' \<Rightarrow> trie_search t' = (trie_search t)(p \<mapsto> v) \<and>
       \<not> (\<exists>j < length p. \<not> mal j \<and> trie_node_at t (take (Suc j) p) = None)"
  using trie_insert_from_None_iff [of mal 0 t p v]
  by (auto simp: trie_insert_search trie_insert_def split: option.splits)

text \<open>
  Property C35: deleting a path unmaps that path and no other, and removes no node.
\<close>

theorem trie_delete_correct:
  "trie_search (trie_delete t p) = (trie_search t)(p := None) \<and>
   (\<forall>q. (trie_node_at (trie_delete t p) q \<noteq> None) = (trie_node_at t q \<noteq> None))"
  using trie_delete_nodes [of t p] by (simp add: trie_delete_search)

text \<open>
  Property C36: when the nodes are less than 1024 levels deep, the collector returns, without
  overrunning its buffers, the first ten of the stored paths, each once, in the
  lexicographic order of their unsigned bytes.
\<close>

theorem trie_collect_correct:
  assumes "trie_fits 0 t"
  shows "\<exists>all. trie_collect_paths t = Some (take 10 all) \<and>
    set all = {p. trie_search t p \<noteq> None} \<and> sorted_wrt (<) all \<and> distinct all"
proof -
  have "distinct (trie_paths t)"
    using trie_paths_sorted [of t] by (simp add: strict_sorted_iff)
  with trie_collect_paths_take [OF assms] trie_paths_set [of t] trie_paths_sorted [of t]
  show ?thesis by (auto simp: MAX_ACCESSIBLE_PATHS_def)
qed

theorem trie_collect_correct_witness:
  "let t = TrieNode ((\<lambda>_. None)(97 := Some (TrieNode ((\<lambda>_. None)(98 :=
         Some (TrieNode (\<lambda>_. None) (Some (1::nat))))) (Some 0)))) None
   in trie_fits 0 t \<and> (\<exists>all. trie_collect_paths t = Some (take 10 all) \<and>
        set all = {p. trie_search t p \<noteq> None} \<and> sorted_wrt (<) all \<and> distinct all)"
proof -
  have "trie_fits 0 (TrieNode ((\<lambda>_. None)(97 := Some (TrieNode ((\<lambda>_. None)(98 :=
         Some (TrieNode (\<lambda>_. None) (Some (1::nat))))) (Some 0)))) None)"
    by code_simp
  from this trie_collect_correct [OF this] show ?thesis unfolding Let_def by (rule conjI)
qed

text \<open>
  Property C38: freeing the trie passes every node of it to \<open>free\<close>, none twice, and a node
  only after the nodes below it.
\<close>

theorem free_trie_correct:
  "set (free_trie t) = {p. trie_node_at t p \<noteq> None} \<and> distinct (free_trie t) \<and>
   sorted_wrt (\<lambda>p q. \<not> strict_prefix p q) (free_trie t)"
  by (simp add: free_trie_set free_trie_distinct free_trie_postorder)

end
