(* ===== verification/Lru_Cache.thy ===== *)
theory Lru_Cache
  imports Common
begin

text \<open>
  \<open>src/lru_cache.c\<close>: the cache of the naming server from paths to copies of server
  records. The nodes are allocated by \<open>malloc\<close> and doubly linked from the most to the
  least recently used; \<open>map\<close> is an array of 100 node pointers indexed by the hash of a
  path, and a lookup starts at the node its slot points to and follows the \<open>next\<close>
  pointers of the one list.

  The nodes live in an explicit store from addresses to nodes. An address that was
  freed is not in the store any more and is never handed out again, so each use of a
  dangling pointer shows as a computation with no result.
\<close>

definition LRU_CACHE_SIZE :: nat where "LRU_CACHE_SIZE = 100"

type_synonym addr = nat

record LRUCacheNode =
  node_path :: string
  node_info :: StorageServerInfo
  node_prev :: "addr option"
  node_next :: "addr option"

type_synonym lru_heap = "addr \<rightharpoonup> LRUCacheNode"

record LRUCache =
  cache_head :: "addr option"
  cache_tail :: "addr option"
  cache_map :: "addr option list"
  cache_count :: int
  cache_heap :: lru_heap
  cache_fresh :: addr

subsection \<open>Pointers\<close>

text \<open>\<open>a->next = v\<close>, \<open>a->prev = v\<close> and \<open>memcpy(&a->ss_info, v)\<close>.\<close>

definition set_next :: "LRUCache \<Rightarrow> addr \<Rightarrow> addr option \<Rightarrow> LRUCache c_run" where
  "set_next c a v = do {
     n \<leftarrow> cache_heap c a;
     Some (c\<lparr>cache_heap := (cache_heap c)(a \<mapsto> n\<lparr>node_next := v\<rparr>)\<rparr>)
   }"

definition set_prev :: "LRUCache \<Rightarrow> addr \<Rightarrow> addr option \<Rightarrow> LRUCache c_run" where
  "set_prev c a v = do {
     n \<leftarrow> cache_heap c a;
     Some (c\<lparr>cache_heap := (cache_heap c)(a \<mapsto> n\<lparr>node_prev := v\<rparr>)\<rparr>)
   }"

definition set_info :: "LRUCache \<Rightarrow> addr \<Rightarrow> StorageServerInfo \<Rightarrow> LRUCache c_run" where
  "set_info c a v = do {
     n \<leftarrow> cache_heap c a;
     Some (c\<lparr>cache_heap := (cache_heap c)(a \<mapsto> n\<lparr>node_info := v\<rparr>)\<rparr>)
   }"

text \<open>\<open>if (p) p->next = v;\<close> and \<open>if (p) p->prev = v;\<close>\<close>

definition set_next_if :: "LRUCache \<Rightarrow> addr option \<Rightarrow> addr option \<Rightarrow> LRUCache c_run" where
  "set_next_if c p v = (case p of None \<Rightarrow> Some c | Some a \<Rightarrow> set_next c a v)"

definition set_prev_if :: "LRUCache \<Rightarrow> addr option \<Rightarrow> addr option \<Rightarrow> LRUCache c_run" where
  "set_prev_if c p v = (case p of None \<Rightarrow> Some c | Some a \<Rightarrow> set_prev c a v)"

definition free_node :: "LRUCache \<Rightarrow> addr \<Rightarrow> LRUCache c_run" where
  "free_node c a = (case cache_heap c a of
     None \<Rightarrow> None | Some _ \<Rightarrow> Some (c\<lparr>cache_heap := (cache_heap c)(a := None)\<rparr>))"

subsection \<open>Operations\<close>

definition hash_path :: "string \<Rightarrow> nat" where
  "hash_path p = unat (foldl (\<lambda>hash ch. hash * 31 + char_to_unsigned ch) 0 p) mod LRU_CACHE_SIZE"

definition lru_init :: LRUCache where
  "lru_init = \<lparr>cache_head = None, cache_tail = None,
     cache_map = replicate LRU_CACHE_SIZE None, cache_count = 0,
     cache_heap = (\<lambda>_. None), cache_fresh = 0\<rparr>"

definition move_to_front :: "LRUCache \<Rightarrow> addr \<Rightarrow> LRUCache c_run" where
  "move_to_front c a =
     (if cache_head c = Some a then Some c
      else do {
        c \<leftarrow> (if cache_tail c = Some a then do {
                 n \<leftarrow> cache_heap c a;
                 let c = c\<lparr>cache_tail := node_prev n\<rparr>;
                 set_next_if c (cache_tail c) None
               } else Some c);
        n \<leftarrow> cache_heap c a;
        c \<leftarrow> set_next_if c (node_prev n) (node_next n);
        n \<leftarrow> cache_heap c a;
        c \<leftarrow> set_prev_if c (node_next n) (node_prev n);
        c \<leftarrow> set_prev c a None;
        c \<leftarrow> set_next c a (cache_head c);
        c \<leftarrow> set_prev_if c (cache_head c) (Some a);
        let c = c\<lparr>cache_head := Some a\<rparr>;
        Some (if cache_tail c = None then c\<lparr>cache_tail := Some a\<rparr> else c)
      })"

text \<open>
  The scan shared by \<open>lru_get\<close> and \<open>lru_put\<close>: from the node of the slot along the
  \<open>next\<close> pointers to the first node with the path.
\<close>

partial_function (option) lru_scan :: "lru_heap \<Rightarrow> string \<Rightarrow> addr option \<Rightarrow> addr option c_run" where
  "lru_scan h p node = (case node of
     None \<Rightarrow> Some None
   | Some a \<Rightarrow> do {
       n \<leftarrow> h a;
       if node_path n \<noteq> p then lru_scan h p (node_next n) else Some (Some a)
     })"

text \<open>\<open>lru_get\<close> returns \<open>&node->ss_info\<close> or NULL; the model returns what it points to.\<close>

definition lru_get :: "LRUCache \<Rightarrow> string \<Rightarrow> (LRUCache \<times> StorageServerInfo option) c_run" where
  "lru_get c p = do {
     slot \<leftarrow> arr_get (cache_map c) (int (hash_path p));
     node \<leftarrow> lru_scan (cache_heap c) p slot;
     (case node of
        None \<Rightarrow> Some (c, None)
      | Some a \<Rightarrow> do {
          c \<leftarrow> move_to_front c a;
          n \<leftarrow> cache_heap c a;
          Some (c, Some (node_info n))
        })
   }"

text \<open>\<open>lru_put\<close> on a full cache: the least recently used node, if there is one, is freed.\<close>

definition lru_evict :: "LRUCache \<Rightarrow> LRUCache c_run" where
  "lru_evict c =
     (if cache_count c = int LRU_CACHE_SIZE then
        (case cache_tail c of
           None \<Rightarrow> Some c
         | Some temp \<Rightarrow> do {
             n \<leftarrow> cache_heap c temp;
             let tail_index = int (hash_path (node_path n));
             tail_slot \<leftarrow> arr_get (cache_map c) tail_index;
             map' \<leftarrow> (if tail_slot = Some temp then arr_set (cache_map c) tail_index None
                      else Some (cache_map c));
             let c = c\<lparr>cache_map := map', cache_tail := node_prev n\<rparr>;
             c \<leftarrow> set_next_if c (cache_tail c) None;
             c \<leftarrow> free_node c temp;
             Some (c\<lparr>cache_count := cache_count c - 1\<rparr>)
           })
      else Some c)"

text \<open>\<open>lru_put\<close> on a path that the scan did not find: a new node at the front.\<close>

definition lru_new_node :: "LRUCache \<Rightarrow> string \<Rightarrow> StorageServerInfo \<Rightarrow> LRUCache c_run" where
  "lru_new_node c p info = do {
     s \<leftarrow> c_strcpy MAX_PATH_LEN p;
     let a = cache_fresh c;
     let c = c\<lparr>cache_fresh := Suc a, cache_heap := (cache_heap c)(a \<mapsto>
       \<lparr>node_path = s, node_info = info, node_prev = None, node_next = cache_head c\<rparr>)\<rparr>;
     c \<leftarrow> set_prev_if c (cache_head c) (Some a);
     let c = c\<lparr>cache_head := Some a\<rparr>;
     let c = (if cache_tail c = None then c\<lparr>cache_tail := Some a\<rparr> else c);
     map' \<leftarrow> arr_set (cache_map c) (int (hash_path p)) (Some a);
     Some (c\<lparr>cache_count := cache_count c + 1, cache_map := map'\<rparr>)
   }"

text \<open>\<open>lru_put\<close>; the first argument is the outcome of its \<open>malloc\<close>.\<close>

definition lru_put :: "bool \<Rightarrow> LRUCache \<Rightarrow> string \<Rightarrow> StorageServerInfo \<Rightarrow> LRUCache c_run" where
  "lru_put malloc_ok c p info = do {
     slot \<leftarrow> arr_get (cache_map c) (int (hash_path p));
     node \<leftarrow> lru_scan (cache_heap c) p slot;
     (case node of
        Some a \<Rightarrow> do { c \<leftarrow> set_info c a info; move_to_front c a }
      | None \<Rightarrow> do {
          c \<leftarrow> lru_evict c;
          if \<not> malloc_ok then Some c else lru_new_node c p info
        })
   }"

text \<open>The scan of \<open>lru_remove\<close>, which also keeps the node before.\<close>

partial_function (option) lru_scan_prev ::
  "lru_heap \<Rightarrow> string \<Rightarrow> addr option \<Rightarrow> addr option \<Rightarrow> (addr option \<times> addr option) c_run" where
  "lru_scan_prev h p node prev_node = (case node of
     None \<Rightarrow> Some (prev_node, None)
   | Some a \<Rightarrow> do {
       n \<leftarrow> h a;
       if node_path n \<noteq> p then lru_scan_prev h p (node_next n) (Some a) else Some (prev_node, Some a)
     })"

definition lru_remove :: "LRUCache \<Rightarrow> string \<Rightarrow> LRUCache c_run" where
  "lru_remove c p = do {
     let index = int (hash_path p);
     slot \<leftarrow> arr_get (cache_map c) index;
     (prev_node, node) \<leftarrow> lru_scan_prev (cache_heap c) p slot None;
     (case node of
        None \<Rightarrow> Some c
      | Some a \<Rightarrow> do {
          n \<leftarrow> cache_heap c a;
          c \<leftarrow> (case prev_node of
                 Some q \<Rightarrow> set_next c q (node_next n)
               | None \<Rightarrow> do {
                   map' \<leftarrow> arr_set (cache_map c) index (node_next n);
                   Some (c\<lparr>cache_map := map'\<rparr>)
                 });
          n \<leftarrow> cache_heap c a;
          c \<leftarrow> set_next_if c (node_prev n) (node_next n);
          n \<leftarrow> cache_heap c a;
          c \<leftarrow> set_prev_if c (node_next n) (node_prev n);
          n \<leftarrow> cache_heap c a;
          let c = (if cache_head c = Some a then c\<lparr>cache_head := node_next n\<rparr> else c);
          let c = (if cache_tail c = Some a then c\<lparr>cache_tail := node_prev n\<rparr> else c);
          c \<leftarrow> free_node c a;
          Some (c\<lparr>cache_count := cache_count c - 1\<rparr>)
        })
   }"

partial_function (option) lru_free_all :: "lru_heap \<Rightarrow> addr option \<Rightarrow> lru_heap c_run" where
  "lru_free_all h current = (case current of
     None \<Rightarrow> Some h
   | Some a \<Rightarrow> do { n \<leftarrow> h a; lru_free_all (h(a := None)) (node_next n) })"

definition lru_destroy :: "LRUCache \<Rightarrow> LRUCache c_run" where
  "lru_destroy c = do {
     h \<leftarrow> lru_free_all (cache_heap c) (cache_head c);
     Some (c\<lparr>cache_heap := h, cache_head := None, cache_tail := None, cache_count := 0,
             cache_map := replicate LRU_CACHE_SIZE None\<rparr>)
   }"

declare lru_scan.simps [code] lru_scan_prev.simps [code] lru_free_all.simps [code]

end
