(* ===== verification/Lru_Refine.thy ===== *)
theory Lru_Refine
  imports Lru_Cache
begin

text \<open>
  What the pointer code of \<open>Lru_Cache\<close> does to the list it represents: the list
  segments of the heap, the representation predicate, the effect of every operation
  on it, and the refinement of an ideal least-recently-used cache.
\<close>

subsection \<open>List segments\<close>

text \<open>
  The nodes \<open>xs\<close>, in this order, are linked both ways; the node before the first is
  \<open>p\<close> and the one after the last is \<open>q\<close>.
\<close>

fun dseg :: "lru_heap \<Rightarrow> addr option \<Rightarrow> addr list \<Rightarrow> addr option \<Rightarrow> bool" where
  "dseg h p [] q = True"
| "dseg h p (a # as) q = (\<exists>n. h a = Some n \<and> node_prev n = p \<and> node_next n = first_ptr as q
     \<and> dseg h (Some a) as q)"

lemma dseg_append:
  "dseg h p (xs @ ys) q \<longleftrightarrow> dseg h p xs (first_ptr ys q) \<and> dseg h (last_ptr p xs) ys q"
  by (induction xs arbitrary: p) auto

lemma dseg_cong: "(\<And>a. a \<in> set xs \<Longrightarrow> h' a = h a) \<Longrightarrow> dseg h' p xs q = dseg h p xs q"
  by (induction xs arbitrary: p) auto

lemma dseg_upd [simp]: "a \<notin> set xs \<Longrightarrow> dseg (h(a := v)) p xs q = dseg h p xs q"
  by (rule dseg_cong) auto

lemma dseg_alloc: "dseg h p xs q \<Longrightarrow> a \<in> set xs \<Longrightarrow> \<exists>n. h a = Some n"
  by (induction xs arbitrary: p) auto

text \<open>The path and the server record of a node, which relinking does not change.\<close>

definition node_data :: "lru_heap \<Rightarrow> addr \<Rightarrow> (string \<times> StorageServerInfo) option" where
  "node_data h a = map_option (\<lambda>n. (node_path n, node_info n)) (h a)"

lemma node_data_upd:
  "node_data (h(a \<mapsto> n)) = (node_data h)(a \<mapsto> (node_path n, node_info n))"
  by (auto simp: node_data_def)

lemma node_data_relink:
  "h a = Some n \<Longrightarrow> node_path n' = node_path n \<Longrightarrow> node_info n' = node_info n \<Longrightarrow>
     node_data (h(a \<mapsto> n')) = node_data h"
  by (auto simp: node_data_def)

lemma node_data_dom: "node_data h' = node_data h \<Longrightarrow> dom h' = dom h"
proof -
  assume eq: "node_data h' = node_data h"
  have "h' a = None \<longleftrightarrow> h a = None" for a
    using fun_cong [OF eq, of a] by (auto simp: node_data_def)
  then show "dom h' = dom h" by (auto simp: dom_def)
qed

text \<open>
  Storing into the last node's \<open>next\<close> or the first node's \<open>prev\<close> changes that end of
  the segment and nothing outside it. The caches \<open>c\<close> and \<open>c'\<close> differ in the heap only.
\<close>

definition relinked :: "LRUCache \<Rightarrow> LRUCache \<Rightarrow> addr set \<Rightarrow> bool" where
  "relinked c c' A \<longleftrightarrow> (\<exists>h. c' = c\<lparr>cache_heap := h\<rparr>) \<and>
     node_data (cache_heap c') = node_data (cache_heap c) \<and>
     (\<forall>a. a \<notin> A \<longrightarrow> cache_heap c' a = cache_heap c a)"

lemma relinked_refl: "relinked c c A"
  unfolding relinked_def by (intro conjI exI [of _ "cache_heap c"]) auto

lemma relinked_trans: "relinked c d A \<Longrightarrow> relinked d e B \<Longrightarrow> relinked c e (A \<union> B)"
  unfolding relinked_def by (intro conjI) auto

lemma relinked_mono: "relinked c d A \<Longrightarrow> A \<subseteq> B \<Longrightarrow> relinked c d B"
  unfolding relinked_def by auto

lemma relinked_fields:
  "relinked c c' A \<Longrightarrow> cache_head c' = cache_head c \<and> cache_tail c' = cache_tail c \<and>
     cache_map c' = cache_map c \<and> cache_count c' = cache_count c \<and> cache_fresh c' = cache_fresh c"
  unfolding relinked_def by auto

lemma set_next_run:
  "cache_heap c a = Some n \<Longrightarrow> \<exists>c'. set_next c a v = Some c' \<and> relinked c c' {a} \<and>
     cache_heap c' a = Some (n\<lparr>node_next := v\<rparr>)"
  by (auto simp: set_next_def relinked_def node_data_relink)

lemma set_prev_run:
  "cache_heap c a = Some n \<Longrightarrow> \<exists>c'. set_prev c a v = Some c' \<and> relinked c c' {a} \<and>
     cache_heap c' a = Some (n\<lparr>node_prev := v\<rparr>)"
  by (auto simp: set_prev_def relinked_def node_data_relink)

lemma set_next_if_last:
  assumes "dseg (cache_heap c) p xs q" and "distinct xs"
  shows "\<exists>c'. set_next_if c (last_ptr None xs) v = Some c' \<and> relinked c c' (set xs) \<and>
    dseg (cache_heap c') p xs v"
proof (cases xs rule: rev_cases)
  case Nil
  then show ?thesis by (simp add: set_next_if_def relinked_refl)
next
  case (snoc ys y)
  with assms obtain n where n: "cache_heap c y = Some n" "node_prev n = last_ptr p ys"
    and ys: "dseg (cache_heap c) p ys (Some y)" by (auto simp: dseg_append)
  then obtain c' where c': "set_next c y v = Some c'" "relinked c c' {y}"
    "cache_heap c' y = Some (n\<lparr>node_next := v\<rparr>)" using set_next_run by blast
  have "dseg (cache_heap c') p ys (Some y) = dseg (cache_heap c) p ys (Some y)"
    using c' snoc assms(2) by (intro dseg_cong) (auto simp: relinked_def)
  then have "dseg (cache_heap c') p xs v" using snoc ys n c' by (simp add: dseg_append)
  then show ?thesis
    using c' snoc by (auto simp: set_next_if_def intro: relinked_mono)
qed

lemma set_prev_if_first:
  assumes "dseg (cache_heap c) p xs q" and "distinct xs"
  shows "\<exists>c'. set_prev_if c (first_ptr xs None) v = Some c' \<and> relinked c c' (set xs) \<and>
    dseg (cache_heap c') v xs q"
proof (cases xs)
  case Nil
  then show ?thesis by (simp add: set_prev_if_def relinked_refl)
next
  case (Cons y ys)
  with assms obtain n where n: "cache_heap c y = Some n" "node_next n = first_ptr ys q"
    and ys: "dseg (cache_heap c) (Some y) ys q" by auto
  then obtain c' where c': "set_prev c y v = Some c'" "relinked c c' {y}"
    "cache_heap c' y = Some (n\<lparr>node_prev := v\<rparr>)" using set_prev_run by blast
  have "dseg (cache_heap c') (Some y) ys q = dseg (cache_heap c) (Some y) ys q"
    using c' Cons assms(2) by (intro dseg_cong) (auto simp: relinked_def)
  then have "dseg (cache_heap c') v xs q" using Cons ys n c' by simp
  then show ?thesis
    using c' Cons by (auto simp: set_prev_if_def intro: relinked_mono)
qed

lemma relinked_dseg:
  "relinked c c' A \<Longrightarrow> set xs \<inter> A = {} \<Longrightarrow> dseg (cache_heap c') p xs q = dseg (cache_heap c) p xs q"
  by (rule dseg_cong) (auto simp: relinked_def)

text \<open>
  Taking a node out: \<open>node->prev->next = node->next; node->next->prev = node->prev;\<close>
  joins the segments before and after it and leaves the node as it was.
\<close>

lemma unlink_run:
  assumes "dseg (cache_heap c) None ys q" and "dseg (cache_heap c) (Some a) zs None"
    and "cache_heap c a = Some n" and "node_prev n = last_ptr None ys" and "node_next n = first_ptr zs None"
    and "distinct (ys @ a # zs)"
  shows "\<exists>c1 c2. set_next_if c (node_prev n) (node_next n) = Some c1 \<and> cache_heap c1 a = Some n \<and>
    set_prev_if c1 (node_next n) (node_prev n) = Some c2 \<and> cache_heap c2 a = Some n \<and>
    relinked c c2 (set ys \<union> set zs) \<and> dseg (cache_heap c2) None (ys @ zs) None"
proof -
  obtain c1 where c1: "set_next_if c (node_prev n) (node_next n) = Some c1" "relinked c c1 (set ys)"
    "dseg (cache_heap c1) None ys (first_ptr zs None)"
    using set_next_if_last [OF assms(1)] assms by auto
  have zs: "dseg (cache_heap c1) (Some a) zs None"
    using relinked_dseg [OF c1(2)] assms by auto
  then obtain c2 where c2: "set_prev_if c1 (node_next n) (node_prev n) = Some c2"
    "relinked c1 c2 (set zs)" "dseg (cache_heap c2) (last_ptr None ys) zs None"
    using set_prev_if_first [OF zs] assms by auto
  have "dseg (cache_heap c2) None ys (first_ptr zs None)"
    using relinked_dseg [OF c2(2)] c1(3) assms(6) by auto
  moreover have "cache_heap c1 a = Some n" "cache_heap c2 a = Some n"
    using assms c1(2) c2(2) by (auto simp: relinked_def)
  ultimately show ?thesis
    using c1 c2 relinked_trans [OF c1(2) c2(2)] by (auto simp: dseg_append)
qed

subsection \<open>The representation of a list by a cache\<close>

text \<open>
  \<open>lru_rep c xs\<close>: the cache holds the nodes \<open>xs\<close>, most recently used first, linked both
  ways between \<open>head\<close> and \<open>tail\<close>; \<open>count\<close> is their number and nothing else is allocated.
\<close>

definition lru_rep :: "LRUCache \<Rightarrow> addr list \<Rightarrow> bool" where
  "lru_rep c xs \<longleftrightarrow> distinct xs \<and> dseg (cache_heap c) None xs None \<and>
     cache_head c = first_ptr xs None \<and> cache_tail c = last_ptr None xs \<and>
     cache_count c = int (length xs) \<and> dom (cache_heap c) = set xs \<and>
     (\<forall>a \<in> set xs. a < cache_fresh c) \<and> length (cache_map c) = LRU_CACHE_SIZE"

lemma lru_rep_init: "lru_rep lru_init []"
  by (simp add: lru_rep_def lru_init_def)

lemma lru_rep_node:
  assumes "lru_rep c (ys @ a # zs)"
  obtains n where "cache_heap c a = Some n" "node_prev n = last_ptr None ys" "node_next n = first_ptr zs None"
    "dseg (cache_heap c) None ys (Some a)" "dseg (cache_heap c) (Some a) zs None"
    "distinct (ys @ a # zs)"
  using assms by (auto simp: lru_rep_def dseg_append)

lemma last_ptr_not_None: "xs \<noteq> [] \<Longrightarrow> last_ptr p xs = last_ptr q xs"
  by (simp add: last_ptr_last)

text \<open>The first statement of \<open>move_to_front\<close> after its early return: a last node leaves the tail.\<close>

lemma drop_tail_run:
  assumes "lru_rep c (ys @ a # zs)" and "cache_heap c a = Some n"
  shows "\<exists>c0 q. (if cache_tail c = Some a then do {
                 n \<leftarrow> cache_heap c a;
                 let c = c\<lparr>cache_tail := node_prev n\<rparr>;
                 set_next_if c (cache_tail c) None
               } else Some c) = Some c0 \<and>
    relinked (c\<lparr>cache_tail := if zs = [] then last_ptr None ys else cache_tail c\<rparr>) c0 (set ys) \<and>
    dseg (cache_heap c0) None ys q"
proof -
  obtain n' where n': "cache_heap c a = Some n'" "node_prev n' = last_ptr None ys"
    "dseg (cache_heap c) None ys (Some a)" "distinct (ys @ a # zs)"
    using lru_rep_node [OF assms(1)] by metis
  have tail: "cache_tail c = last_ptr (Some a) zs" using assms(1) by (simp add: lru_rep_def)
  show ?thesis
  proof (cases zs)
    case Nil
    let ?c = "c\<lparr>cache_tail := last_ptr None ys\<rparr>"
    have "dseg (cache_heap ?c) None ys (Some a)" using n' by simp
    then obtain c0 where "set_next_if ?c (last_ptr None ys) None = Some c0"
      "relinked ?c c0 (set ys)" "dseg (cache_heap c0) None ys None"
      using set_next_if_last n'(4) by (metis distinct_append)
    then show ?thesis using Nil tail n' assms(2) by (intro exI [of _ c0] exI [of _ None]) simp
  next
    case (Cons z zs')
    then have "last_ptr (Some a) zs = Some (last zs)" by (simp add: last_ptr_last)
    moreover have "last zs \<noteq> a" using n'(4) Cons by (metis distinct.simps(2) distinct_append last_in_set list.distinct(1))
    ultimately have "cache_tail c \<noteq> Some a" using tail by simp
    moreover have "c\<lparr>cache_tail := if zs = [] then last_ptr None ys else cache_tail c\<rparr> = c"
      using Cons by simp
    ultimately show ?thesis using n'(3) relinked_refl by (metis (no_types, lifting))
  qed
qed

lemma move_to_front_run:
  assumes rep: "lru_rep c (ys @ a # zs)"
  shows "\<exists>c'. move_to_front c a = Some c' \<and> lru_rep c' (a # ys @ zs) \<and>
    node_data (cache_heap c') = node_data (cache_heap c) \<and>
    cache_map c' = cache_map c \<and> cache_fresh c' = cache_fresh c"
proof (cases "ys = []")
  case True
  with rep show ?thesis by (simp add: move_to_front_def lru_rep_def)
next
  case ys: False
  obtain n where n: "cache_heap c a = Some n" "node_prev n = last_ptr None ys"
    "node_next n = first_ptr zs None" "dseg (cache_heap c) (Some a) zs None" "distinct (ys @ a # zs)"
    using lru_rep_node [OF rep] by metis
  let ?tail = "if zs = [] then last_ptr None ys else cache_tail c"
  obtain c0 q where c0: "(if cache_tail c = Some a then do {
                 n \<leftarrow> cache_heap c a;
                 let c = c\<lparr>cache_tail := node_prev n\<rparr>;
                 set_next_if c (cache_tail c) None
               } else Some c) = Some c0"
    "relinked (c\<lparr>cache_tail := ?tail\<rparr>) c0 (set ys)" "dseg (cache_heap c0) None ys q"
    using drop_tail_run [OF rep n(1)] by blast
  have n0: "cache_heap c0 a = Some n" "dseg (cache_heap c0) (Some a) zs None"
    using n c0(2) relinked_dseg [OF c0(2), of zs] by (auto simp: relinked_def)
  from unlink_run [OF c0(3) n0(2) n0(1) n(2,3,5)] obtain c1 c2 where
    c12: "set_next_if c0 (node_prev n) (node_next n) = Some c1" "cache_heap c1 a = Some n"
      "set_prev_if c1 (node_next n) (node_prev n) = Some c2" "cache_heap c2 a = Some n"
    and r2: "relinked c0 c2 (set ys \<union> set zs)" and d2: "dseg (cache_heap c2) None (ys @ zs) None"
    by blast
  obtain c3 where c3: "set_prev c2 a None = Some c3" "relinked c2 c3 {a}"
    "cache_heap c3 a = Some (n\<lparr>node_prev := None\<rparr>)" using set_prev_run [OF c12(4)] by blast
  let ?head = "first_ptr (ys @ zs) None"
  obtain c4 where c4: "set_next c3 a ?head = Some c4" "relinked c3 c4 {a}"
    "cache_heap c4 a = Some (n\<lparr>node_prev := None, node_next := ?head\<rparr>)"
    using set_next_run [OF c3(3)] by auto
  have r4: "relinked c2 c4 {a}" using relinked_trans [OF c3(2) c4(2)] by simp
  have d4: "dseg (cache_heap c4) None (ys @ zs) None" using relinked_dseg [OF r4] d2 n(5) by auto
  have dist: "distinct (ys @ zs)" using n(5) by simp
  from set_prev_if_first [OF d4 dist] obtain c5 where c5: "set_prev_if c4 ?head (Some a) = Some c5"
    "relinked c4 c5 (set (ys @ zs))" "dseg (cache_heap c5) (Some a) (ys @ zs) None"
    by blast
  have r5: "relinked (c\<lparr>cache_tail := ?tail\<rparr>) c5 UNIV"
    using relinked_trans [OF relinked_trans [OF relinked_trans [OF c0(2) r2] r4] c5(2)]
    by (rule relinked_mono) simp
  note f = relinked_fields [OF r5]
  have head: "cache_head c = ?head" "?head \<noteq> Some a"
    using rep ys n(5) by (auto simp: lru_rep_def neq_Nil_conv)
  have heads: "cache_head c3 = ?head" "cache_head c4 = ?head"
    using relinked_fields [OF c0(2)] relinked_fields [OF r2] relinked_fields [OF c3(2)]
      relinked_fields [OF c4(2)] head by auto
  have tail: "?tail = last_ptr None (a # ys @ zs)" "?tail \<noteq> None"
    using rep ys by (auto simp: lru_rep_def last_ptr_last)
  have a5: "cache_heap c5 a = Some (n\<lparr>node_prev := None, node_next := ?head\<rparr>)"
    using c5(2) c4(3) n(5) by (auto simp: relinked_def)
  let ?c' = "c5\<lparr>cache_head := Some a\<rparr>"
  have "cache_tail c5 = ?tail" using f by simp
  with tail(2) have "cache_tail c5 \<noteq> None" by (simp only:) simp
  then have "move_to_front c a = Some ?c'"
    unfolding move_to_front_def c0(1)
    using head n0(1) c12 c3(1) c4(1) c5(1) heads by (simp add: n(2,3) Let_def)
  moreover have "dom (cache_heap c5) = set (ys @ a # zs)"
    using rep node_data_dom [of "cache_heap c5" "cache_heap c"] r5
    by (simp add: relinked_def lru_rep_def)
  then have "lru_rep ?c' (a # ys @ zs)"
    using rep \<open>cache_tail c5 = ?tail\<close> tail(1) f a5 c5(3) n(5) by (simp add: lru_rep_def)
  ultimately show ?thesis using r5 f by (auto simp: relinked_def)
qed

subsection \<open>Scanning from a slot\<close>

definition path_of :: "lru_heap \<Rightarrow> addr \<Rightarrow> string option" where
  "path_of h a = map_option node_path (h a)"

lemma path_of_data: "path_of h a = map_option fst (node_data h a)"
  by (simp add: path_of_def node_data_def option.map_comp comp_def)

lemma lru_scan_run:
  "dseg h q xs None \<Longrightarrow> lru_scan h p (first_ptr xs None) = Some (find (\<lambda>a. path_of h a = Some p) xs)"
proof (induction xs arbitrary: q)
  case Nil
  then show ?case by (simp add: lru_scan.simps)
next
  case (Cons a xs)
  then show ?case by (subst lru_scan.simps) (auto simp: path_of_def)
qed

lemma lru_scan_prev_run:
  "dseg h q xs None \<Longrightarrow> lru_scan_prev h p (first_ptr xs None) r =
     Some (case find (\<lambda>a. path_of h a = Some p) xs of
             None \<Rightarrow> (last_ptr r xs, None)
           | Some a \<Rightarrow> (last_ptr r (takeWhile (\<lambda>b. path_of h b \<noteq> Some p) xs), Some a))"
proof (induction xs arbitrary: q r)
  case Nil
  then show ?case by (simp add: lru_scan_prev.simps)
next
  case (Cons a xs)
  then obtain n where "h a = Some n" "node_next n = first_ptr xs None" "dseg h (Some a) xs None"
    by auto
  with Cons.IH [OF this(3), of "Some a"] show ?case
    by (subst lru_scan_prev.simps) (auto simp: path_of_def split: option.splits)
qed

text \<open>
  No slot dangles: each points to a node of the list. A scan then sees the part of the
  list from that node on.
\<close>

definition lru_live :: "LRUCache \<Rightarrow> addr list \<Rightarrow> bool" where
  "lru_live c xs \<longleftrightarrow> (\<forall>i < LRU_CACHE_SIZE. \<forall>a. cache_map c ! i = Some a \<longrightarrow> a \<in> set xs)"

definition slot_list :: "LRUCache \<Rightarrow> addr list \<Rightarrow> nat \<Rightarrow> addr list" where
  "slot_list c xs i = (case cache_map c ! i of None \<Rightarrow> [] | Some b \<Rightarrow> dropWhile (\<lambda>a. a \<noteq> b) xs)"

definition lru_hit :: "LRUCache \<Rightarrow> addr list \<Rightarrow> string \<Rightarrow> addr option" where
  "lru_hit c xs p = find (\<lambda>a. path_of (cache_heap c) a = Some p) (slot_list c xs (hash_path p))"

lemma hash_path_less: "hash_path p < LRU_CACHE_SIZE"
  by (simp add: hash_path_def LRU_CACHE_SIZE_def)

lemma dropWhile_split: "b \<in> set xs \<Longrightarrow> \<exists>ys zs. xs = ys @ b # zs \<and> dropWhile (\<lambda>a. a \<noteq> b) xs = b # zs"
proof -
  assume "b \<in> set xs"
  then obtain ys zs where "xs = ys @ b # zs" "b \<notin> set ys" by (rule split_at_member)
  moreover from this have "dropWhile (\<lambda>a. a \<noteq> b) (ys @ b # zs) = b # zs"
    by (subst dropWhile_append2) auto
  ultimately show ?thesis by blast
qed

lemma slot_split:
  assumes "lru_rep c xs" and "lru_live c xs"
  obtains ys zs where "xs = ys @ zs" and "slot_list c xs (hash_path p) = zs"
    and "arr_get (cache_map c) (int (hash_path p)) = Some (first_ptr zs None)"
    and "dseg (cache_heap c) (last_ptr None ys) zs None"
proof (cases "cache_map c ! hash_path p")
  case None
  then have "slot_list c xs (hash_path p) = []" by (simp add: slot_list_def)
  with None assms hash_path_less [of p] show thesis
    by (intro that [of xs "[]"]) (auto simp: lru_rep_def)
next
  case (Some b)
  with assms hash_path_less [of p] have "b \<in> set xs" by (auto simp: lru_live_def)
  then obtain ys zs where s: "xs = ys @ b # zs" "dropWhile (\<lambda>a. a \<noteq> b) xs = b # zs"
    using dropWhile_split by metis
  with assms have "dseg (cache_heap c) (last_ptr None ys) (b # zs) None"
    unfolding lru_rep_def dseg_append [symmetric] using dseg_append by metis
  with Some s assms hash_path_less [of p] show thesis
    by (intro that [of ys "b # zs"]) (auto simp: slot_list_def lru_rep_def)
qed

lemma lru_scan_slot:
  assumes "lru_rep c xs" and "lru_live c xs"
  shows "\<exists>slot. arr_get (cache_map c) (int (hash_path p)) = Some slot \<and>
    lru_scan (cache_heap c) p slot = Some (lru_hit c xs p)"
proof -
  obtain ys zs where "slot_list c xs (hash_path p) = zs"
    "arr_get (cache_map c) (int (hash_path p)) = Some (first_ptr zs None)"
    "dseg (cache_heap c) (last_ptr None ys) zs None"
    using slot_split [OF assms] by metis
  then show ?thesis using lru_scan_run by (auto simp: lru_hit_def)
qed

lemma slot_list_subset: "set (slot_list c xs i) \<subseteq> set xs"
  by (auto simp: slot_list_def split: option.splits dest: set_dropWhileD)

lemma lru_hit_Some:
  assumes "lru_hit c xs p = Some a"
  shows "a \<in> set xs" and "path_of (cache_heap c) a = Some p"
  using assms slot_list_subset [of c xs "hash_path p"]
  by (auto simp: lru_hit_def find_Some_iff)

subsection \<open>What each operation does to the list\<close>

lemma remove1_split: "distinct (ys @ a # zs) \<Longrightarrow> remove1 a (ys @ a # zs) = ys @ zs"
  by (simp add: remove1_append)

lemma lru_get_hit:
  assumes "lru_rep c xs" and "lru_live c xs" and hit: "lru_hit c xs p = Some a"
  shows "\<exists>c' v. lru_get c p = Some (c', Some v) \<and> node_data (cache_heap c) a = Some (p, v) \<and>
    lru_rep c' (a # remove1 a xs) \<and> node_data (cache_heap c') = node_data (cache_heap c) \<and>
    cache_map c' = cache_map c \<and> cache_fresh c' = cache_fresh c"
proof -
  obtain ys zs where xs: "xs = ys @ a # zs" using lru_hit_Some(1) [OF hit] by (auto dest: split_list)
  with assms(1) have "distinct (ys @ a # zs)" by (simp add: lru_rep_def)
  with xs assms(1) obtain c' where c': "move_to_front c a = Some c'" "lru_rep c' (a # remove1 a xs)"
    "node_data (cache_heap c') = node_data (cache_heap c)" "cache_map c' = cache_map c"
    "cache_fresh c' = cache_fresh c" using move_to_front_run [of c ys a zs] remove1_split by metis
  then obtain n where n: "cache_heap c' a = Some n" using lru_rep_node [of c' "[]"] by (metis append_Nil)
  then have "node_data (cache_heap c) a = Some (node_path n, node_info n)"
    using fun_cong [OF c'(3), of a] by (simp add: node_data_def)
  moreover from this have "node_path n = p" using lru_hit_Some(2) [OF hit] by (simp add: path_of_data)
  ultimately show ?thesis
    using lru_scan_slot [OF assms(1,2), of p] hit c' n by (auto simp: lru_get_def)
qed

lemma lru_get_miss:
  "lru_rep c xs \<Longrightarrow> lru_live c xs \<Longrightarrow> lru_hit c xs p = None \<Longrightarrow> lru_get c p = Some (c, None)"
  using lru_scan_slot [of c xs p] by (auto simp: lru_get_def)

lemma dseg_links:
  "(\<And>a. a \<in> set xs \<Longrightarrow> map_option (\<lambda>n. (node_prev n, node_next n)) (h' a)
       = map_option (\<lambda>n. (node_prev n, node_next n)) (h a)) \<Longrightarrow> dseg h' p xs q = dseg h p xs q"
proof (induction xs arbitrary: p)
  case Nil
  then show ?case by simp
next
  case (Cons a xs)
  then have "dseg h' (Some a) xs q = dseg h (Some a) xs q" by simp
  with Cons.prems [of a] show ?case by (cases "h a"; cases "h' a") auto
qed

lemma lru_rep_set_info:
  assumes "lru_rep c xs" and "cache_heap c a = Some n" and "a \<in> set xs"
  shows "\<exists>c'. set_info c a v = Some c' \<and> lru_rep c' xs \<and>
    node_data (cache_heap c') = (node_data (cache_heap c))(a \<mapsto> (node_path n, v)) \<and>
    cache_map c' = cache_map c \<and> cache_fresh c' = cache_fresh c"
proof -
  have "dseg ((cache_heap c)(a \<mapsto> n\<lparr>node_info := v\<rparr>)) None xs None = dseg (cache_heap c) None xs None"
    using assms(2) by (intro dseg_links) auto
  then show ?thesis using assms by (auto simp: set_info_def lru_rep_def node_data_upd)
qed

lemma lru_put_hit:
  assumes "lru_rep c xs" and "lru_live c xs" and hit: "lru_hit c xs p = Some a"
  shows "\<exists>c'. lru_put m c p v = Some c' \<and> lru_rep c' (a # remove1 a xs) \<and>
    node_data (cache_heap c') = (node_data (cache_heap c))(a \<mapsto> (p, v)) \<and>
    cache_map c' = cache_map c \<and> cache_fresh c' = cache_fresh c"
proof -
  obtain ys zs where xs: "xs = ys @ a # zs" using lru_hit_Some(1) [OF hit] by (auto dest: split_list)
  obtain n where n: "cache_heap c a = Some n" "node_path n = p"
    using lru_hit_Some(2) [OF hit] by (auto simp: path_of_def)
  obtain c1 where c1: "set_info c a v = Some c1" "lru_rep c1 xs"
    "node_data (cache_heap c1) = (node_data (cache_heap c))(a \<mapsto> (p, v))"
    "cache_map c1 = cache_map c" "cache_fresh c1 = cache_fresh c"
    using lru_rep_set_info [OF assms(1) n(1), of v] lru_hit_Some(1) [OF hit] n(2) by auto
  have "distinct (ys @ a # zs)" using assms(1) xs by (simp add: lru_rep_def)
  then have "remove1 a xs = ys @ zs" unfolding xs by (rule remove1_split)
  with move_to_front_run [of c1 ys a zs] c1 xs obtain c' where
    "move_to_front c1 a = Some c'" "lru_rep c' (a # remove1 a xs)"
    "node_data (cache_heap c') = node_data (cache_heap c1)"
    "cache_map c' = cache_map c1" "cache_fresh c' = cache_fresh c1" by auto
  with c1 show ?thesis
    using lru_scan_slot [OF assms(1,2), of p] hit by (auto simp: lru_put_def)
qed

lemma lru_evict_skip: "lru_rep c xs \<Longrightarrow> length xs \<noteq> LRU_CACHE_SIZE \<Longrightarrow> lru_evict c = Some c"
  by (simp add: lru_evict_def lru_rep_def)

text \<open>The slot that \<open>lru_evict\<close> clears is the freed node's own, if it points to it.\<close>

definition clear_slot :: "addr option list \<Rightarrow> nat \<Rightarrow> addr \<Rightarrow> addr option list" where
  "clear_slot m i t = (if m ! i = Some t then m[i := None] else m)"

lemma node_data_free: "node_data (h(a := None)) = (node_data h)(a := None)"
  by (auto simp: node_data_def)

lemma lru_evict_run:
  assumes rep: "lru_rep c (ys @ [t])" and full: "length (ys @ [t]) = LRU_CACHE_SIZE"
    and q: "path_of (cache_heap c) t = Some q"
  shows "\<exists>c'. lru_evict c = Some c' \<and> lru_rep c' ys \<and>
    node_data (cache_heap c') = (node_data (cache_heap c))(t := None) \<and>
    cache_fresh c' = cache_fresh c \<and> cache_map c' = clear_slot (cache_map c) (hash_path q) t"
proof -
  obtain n where n: "cache_heap c t = Some n" "node_prev n = last_ptr None ys"
    "dseg (cache_heap c) None ys (Some t)" "distinct (ys @ [t])"
    using lru_rep_node [OF rep] by metis
  then have "node_path n = q" using q by (simp add: path_of_def)
  define c1 where "c1 = c\<lparr>cache_map := clear_slot (cache_map c) (hash_path q) t,
    cache_tail := last_ptr None ys\<rparr>"
  have "dseg (cache_heap c1) None ys (Some t)" "distinct ys" using n by (auto simp: c1_def)
  from set_next_if_last [OF this] obtain c2 where c2:
    "set_next_if c1 (last_ptr None ys) None = Some c2" "relinked c1 c2 (set ys)"
    "dseg (cache_heap c2) None ys None" by blast
  note f = relinked_fields [OF c2(2)]
  have t2: "cache_heap c2 t = Some n" using c2(2) n by (simp add: relinked_def c1_def)
  define c' where "c' = c2\<lparr>cache_heap := (cache_heap c2)(t := None), cache_count := cache_count c2 - 1\<rparr>"
  have evict: "lru_evict c = Some c'"
  proof -
    have "cache_tail c = Some t" "cache_count c = int LRU_CACHE_SIZE" "hash_path q < length (cache_map c)"
      using rep full hash_path_less [of q] by (auto simp: lru_rep_def)
    then show ?thesis
      using n(1,2) c2(1) t2 f \<open>node_path n = q\<close>
      by (auto simp: lru_evict_def Let_def clear_slot_def c1_def c'_def free_node_def)
  qed
  have "dom (cache_heap c2) = set (ys @ [t])"
    using node_data_dom [of "cache_heap c2" "cache_heap c1"] c2(2) rep
    by (simp add: relinked_def c1_def lru_rep_def)
  moreover have "first_ptr ys (Some t) = first_ptr ys None"
    using full by (cases ys) (auto simp: LRU_CACHE_SIZE_def)
  ultimately have "lru_rep c' ys"
    using rep f c2(3) n(4) by (auto simp: lru_rep_def c'_def c1_def clear_slot_def)
  with evict show ?thesis
    using f c2(2) by (auto simp: c'_def c1_def node_data_free relinked_def)
qed

lemma lru_new_node_run:
  assumes rep: "lru_rep c ys" and p: "length p < MAX_PATH_LEN"
  shows "\<exists>c'. lru_new_node c p v = Some c' \<and> lru_rep c' (cache_fresh c # ys) \<and>
    node_data (cache_heap c') = (node_data (cache_heap c))(cache_fresh c \<mapsto> (p, v)) \<and>
    cache_fresh c' = Suc (cache_fresh c) \<and>
    cache_map c' = (cache_map c)[hash_path p := Some (cache_fresh c)]"
proof -
  let ?a = "cache_fresh c"
  define n where "n = \<lparr>node_path = p, node_info = v, node_prev = None, node_next = cache_head c\<rparr>"
  define c1 where "c1 = c\<lparr>cache_fresh := Suc ?a, cache_heap := (cache_heap c)(?a \<mapsto> n)\<rparr>"
  have a: "?a \<notin> set ys" using rep by (auto simp: lru_rep_def)
  then have "dseg (cache_heap c1) None ys None" "distinct ys" using rep by (auto simp: c1_def lru_rep_def)
  from set_prev_if_first [OF this, of "Some ?a"] rep obtain c2 where c2:
    "set_prev_if c1 (cache_head c) (Some ?a) = Some c2" "relinked c1 c2 (set ys)"
    "dseg (cache_heap c2) (Some ?a) ys None" by (auto simp: lru_rep_def)
  note f = relinked_fields [OF c2(2)]
  have a2: "cache_heap c2 ?a = Some n" using c2(2) a by (simp add: relinked_def c1_def)
  define c' where "c' = c2\<lparr>cache_head := Some ?a, cache_tail := last_ptr None (?a # ys),
    cache_count := cache_count c + 1, cache_map := (cache_map c)[hash_path p := Some ?a]\<rparr>"
  have "cache_tail c = last_ptr None ys" "hash_path p < length (cache_map c)"
    using rep hash_path_less [of p] by (auto simp: lru_rep_def)
  then have "lru_new_node c p v = Some c'"
    using p c2(1) f
    by (cases "ys = []") (auto simp: lru_new_node_def Let_def n_def c1_def c'_def last_ptr_last)
  moreover have "dom (cache_heap c2) = insert ?a (set ys)"
    using node_data_dom [of "cache_heap c2" "cache_heap c1"] c2(2) rep
    by (simp add: relinked_def c1_def lru_rep_def)
  then have "lru_rep c' (?a # ys)"
    using rep f c2(3) a a2 by (auto simp: lru_rep_def c'_def c1_def n_def)
  ultimately show ?thesis
    using f c2(2) by (auto simp: c'_def c1_def n_def relinked_def node_data_upd)
qed

text \<open>
  \<open>lru_remove\<close> on a hit: the slot of the path is moved to the next node of the list when
  it pointed to the removed one; every other slot is left as it was.
\<close>

lemma takeWhile_find:
  "find P xs = Some a \<Longrightarrow> \<exists>zs. xs = takeWhile (\<lambda>x. \<not> P x) xs @ a # zs"
  by (induction xs) (auto split: if_splits)

lemma slot_hit_split:
  assumes rep: "lru_rep c xs" and live: "lru_live c xs" and hit: "lru_hit c xs p = Some a"
  obtains us ws zs where "xs = (us @ ws) @ a # zs"
    and "slot_list c xs (hash_path p) = ws @ a # zs"
    and "arr_get (cache_map c) (int (hash_path p)) = Some (first_ptr (ws @ [a]) None)"
    and "lru_scan_prev (cache_heap c) p (first_ptr (ws @ [a]) None) None = Some (last_ptr None ws, Some a)"
    and "cache_map c ! hash_path p = Some a \<longleftrightarrow> ws = []"
proof -
  obtain us ss where s: "xs = us @ ss" "slot_list c xs (hash_path p) = ss"
    "arr_get (cache_map c) (int (hash_path p)) = Some (first_ptr ss None)"
    "dseg (cache_heap c) (last_ptr None us) ss None" using slot_split [OF rep live] by metis
  let ?P = "\<lambda>a. path_of (cache_heap c) a = Some p"
  have f: "find ?P ss = Some a" using hit s(2) by (simp add: lru_hit_def)
  let ?ws = "takeWhile (\<lambda>x. \<not> ?P x) ss"
  obtain zs where zs: "ss = ?ws @ a # zs" using takeWhile_find [OF f] by blast
  have "first_ptr ss None = first_ptr (?ws @ [a]) None" by (subst zs) simp
  moreover have "cache_map c ! hash_path p = first_ptr ss None"
    using s(3) by (auto simp: arr_get_Some_iff)
  moreover have "a \<notin> set ?ws" using f by (auto simp: find_Some_iff dest: set_takeWhileD)
  then have "first_ptr (?ws @ [a]) None = Some a \<longleftrightarrow> ?ws = []" by (cases ?ws) auto
  ultimately show thesis
    using s zs lru_scan_prev_run [OF s(4), of p None] f
    by (intro that [of us ?ws zs]) auto
qed

text \<open>The part of \<open>lru_remove\<close> that takes the node out of the chain of its slot.\<close>

lemma lru_unchain_run:
  assumes "dseg (cache_heap c) None (us @ ws) (Some a)" and "distinct (us @ ws)" and "a \<notin> set (us @ ws)"
    and "cache_heap c a = Some n" and "i < length (cache_map c)"
  shows "\<exists>c1 q. (case last_ptr None ws of
       Some q \<Rightarrow> set_next c q (node_next n)
     | None \<Rightarrow> do {
         map' \<leftarrow> arr_set (cache_map c) (int i) (node_next n);
         Some (c\<lparr>cache_map := map'\<rparr>)
       }) = Some c1 \<and>
    relinked (c\<lparr>cache_map := if ws = [] then (cache_map c)[i := node_next n] else cache_map c\<rparr>) c1 (set (us @ ws)) \<and>
    dseg (cache_heap c1) None (us @ ws) q \<and> cache_heap c1 a = Some n"
proof (cases "ws = []")
  case True
  then show ?thesis using assms
    by (intro exI [of _ "c\<lparr>cache_map := (cache_map c)[i := node_next n]\<rparr>"] exI [of _ "Some a"])
      (simp add: relinked_refl)
next
  case False
  then have "last_ptr None (us @ ws) = Some (last ws)" "last_ptr None ws = Some (last ws)"
    by (simp_all add: last_ptr_last)
  moreover obtain c1 where c1: "set_next_if c (last_ptr None (us @ ws)) (node_next n) = Some c1"
    "relinked c c1 (set (us @ ws))" "dseg (cache_heap c1) None (us @ ws) (node_next n)"
    using set_next_if_last [OF assms(1,2)] by blast
  moreover have "cache_heap c1 a = Some n" using c1(2) assms(3,4) by (simp add: relinked_def)
  ultimately show ?thesis using False
    by (intro exI [of _ c1] exI [of _ "node_next n"]) (simp add: set_next_if_def)
qed

lemma lru_remove_miss:
  assumes "lru_rep c xs" and "lru_live c xs" and "lru_hit c xs p = None"
  shows "lru_remove c p = Some c"
proof -
  obtain us ss where s: "slot_list c xs (hash_path p) = ss"
    "arr_get (cache_map c) (int (hash_path p)) = Some (first_ptr ss None)"
    "dseg (cache_heap c) (last_ptr None us) ss None" using slot_split [OF assms(1,2)] by metis
  from lru_scan_prev_run [OF s(3), of p None] s assms(3) show ?thesis
    by (simp add: lru_remove_def Let_def lru_hit_def)
qed

lemma lru_remove_hit:
  assumes rep: "lru_rep c xs" and live: "lru_live c xs" and hit: "lru_hit c xs p = Some a"
  shows "\<exists>c' ys zs. xs = ys @ a # zs \<and> lru_remove c p = Some c' \<and> lru_rep c' (ys @ zs) \<and>
    node_data (cache_heap c') = (node_data (cache_heap c))(a := None) \<and>
    cache_fresh c' = cache_fresh c \<and>
    cache_map c' = (if cache_map c ! hash_path p = Some a
                    then (cache_map c)[hash_path p := first_ptr zs None] else cache_map c)"
proof -
  obtain us ws zs where s: "xs = (us @ ws) @ a # zs"
    "arr_get (cache_map c) (int (hash_path p)) = Some (first_ptr (ws @ [a]) None)"
    "lru_scan_prev (cache_heap c) p (first_ptr (ws @ [a]) None) None = Some (last_ptr None ws, Some a)"
    "cache_map c ! hash_path p = Some a \<longleftrightarrow> ws = []" using slot_hit_split [OF assms] by metis
  let ?ys = "us @ ws"
  have rep': "lru_rep c (?ys @ a # zs)" using rep s(1) by (simp only:)
  obtain n where n: "cache_heap c a = Some n" "node_prev n = last_ptr None ?ys"
    "node_next n = first_ptr zs None" "dseg (cache_heap c) None ?ys (Some a)"
    "dseg (cache_heap c) (Some a) zs None" "distinct (?ys @ a # zs)" by (rule lru_rep_node [OF rep'])
  have i: "hash_path p < length (cache_map c)" using rep hash_path_less by (simp add: lru_rep_def)
  let ?m = "if ws = [] then (cache_map c)[hash_path p := node_next n] else cache_map c"
  have "distinct ?ys" "a \<notin> set ?ys" using n(6) by auto
  from lru_unchain_run [OF n(4) this n(1) i] obtain c1 q where c1:
    "(case last_ptr None ws of Some q \<Rightarrow> set_next c q (node_next n)
      | None \<Rightarrow> do { map' \<leftarrow> arr_set (cache_map c) (int (hash_path p)) (node_next n);
                     Some (c\<lparr>cache_map := map'\<rparr>) }) = Some c1"
    "relinked (c\<lparr>cache_map := ?m\<rparr>) c1 (set ?ys)" "dseg (cache_heap c1) None ?ys q"
    "cache_heap c1 a = Some n" by blast
  have "set zs \<inter> set ?ys = {}" using n(6) by auto
  then have "dseg (cache_heap c1) (Some a) zs None" using relinked_dseg [OF c1(2)] n(5) by simp
  from unlink_run [OF c1(3) this c1(4) n(2,3,6)] obtain c2 c3 where c3:
    "set_next_if c1 (node_prev n) (node_next n) = Some c2" "cache_heap c2 a = Some n"
    "set_prev_if c2 (node_next n) (node_prev n) = Some c3" "cache_heap c3 a = Some n"
    "relinked c1 c3 (set ?ys \<union> set zs)" "dseg (cache_heap c3) None (?ys @ zs) None" by blast
  have r: "relinked (c\<lparr>cache_map := ?m\<rparr>) c3 (set ?ys \<union> set zs)"
    using relinked_mono [OF relinked_trans [OF c1(2) c3(5)]] by blast
  note f = relinked_fields [OF r]
  have ends: "cache_head c = first_ptr ?ys (Some a)" "cache_tail c = last_ptr (Some a) zs"
    using rep' by (simp_all add: lru_rep_def)
  define c' where "c' = c3\<lparr>cache_head := first_ptr (?ys @ zs) None, cache_tail := last_ptr None (?ys @ zs),
    cache_heap := (cache_heap c3)(a := None), cache_count := cache_count c - 1\<rparr>"
  have head: "(if cache_head c = Some a then node_next n else cache_head c) = first_ptr (?ys @ zs) None"
    using ends(1) n(3,6) by (cases ?ys) auto
  have tail: "(if cache_tail c = Some a then node_prev n else cache_tail c) = last_ptr None (?ys @ zs)"
    using ends(2) n(2,6) by (cases zs rule: rev_cases) auto
  have "lru_remove c p = Some c'"
    unfolding lru_remove_def Let_def c'_def head [symmetric] tail [symmetric]
    using s(2,3) n(1) c1(1,4) c3(1-4) f by (simp add: free_node_def)
  moreover have "dom (cache_heap c3) = set (?ys @ a # zs)"
    using node_data_dom [of "cache_heap c3" "cache_heap c"] r rep' by (simp add: relinked_def lru_rep_def)
  then have "lru_rep c' (?ys @ zs)"
    using rep' f c3(6) n(6) by (auto simp: lru_rep_def c'_def)
  ultimately show ?thesis
    using s(1,4) r f n(3) by (intro exI [of _ c'] exI [of _ ?ys] exI [of _ zs])
      (auto simp: c'_def relinked_def node_data_free)
qed

text \<open>\<open>lru_destroy\<close> walks the list once and frees every node.\<close>

lemma lru_free_all_run:
  "dseg h q xs None \<Longrightarrow> distinct xs \<Longrightarrow> lru_free_all h (first_ptr xs None) = Some (h |` (- set xs))"
proof (induction xs arbitrary: h q)
  case Nil
  then show ?case by (simp add: lru_free_all.simps)
next
  case (Cons a xs)
  then obtain n where n: "h a = Some n" "node_next n = first_ptr xs None" "dseg h (Some a) xs None"
    by auto
  have "dseg (h(a := None)) (Some a) xs None" using n(3) Cons.prems(2) by simp
  then have "lru_free_all (h(a := None)) (first_ptr xs None) = Some ((h(a := None)) |` (- set xs))"
    using Cons.IH Cons.prems(2) by (metis distinct.simps(2))
  also have "(h(a := None)) |` (- set xs) = h |` (- set (a # xs))"
    by (auto simp: restrict_map_def)
  finally have "lru_free_all (h(a := None)) (first_ptr xs None) = Some (h |` (- set (a # xs)))" .
  then show ?case using n
    by (subst lru_free_all.simps) (simp only: first_ptr.simps option.case Option.bind.simps)
qed

lemma lru_destroy_run:
  assumes "lru_rep c xs"
  shows "lru_destroy c = Some (lru_init\<lparr>cache_fresh := cache_fresh c\<rparr>)"
proof -
  have "lru_free_all (cache_heap c) (cache_head c) = Some (cache_heap c |` (- set xs))"
    using assms lru_free_all_run by (auto simp: lru_rep_def)
  moreover have "cache_heap c |` (- set xs) = (\<lambda>_. None)"
    using assms by (auto simp: lru_rep_def restrict_map_def domIff fun_eq_iff)
  ultimately show ?thesis by (simp add: lru_destroy_def lru_init_def)
qed

subsection \<open>What keeps the slots from dangling\<close>

text \<open>
  The last node, which an insertion into a full cache frees, is pointed to by no slot but
  its own.
\<close>

definition lru_tail_exact :: "LRUCache \<Rightarrow> bool" where
  "lru_tail_exact c \<longleftrightarrow> (\<forall>t q. cache_tail c = Some t \<longrightarrow> path_of (cache_heap c) t = Some q \<longrightarrow>
     (\<forall>i < LRU_CACHE_SIZE. cache_map c ! i = Some t \<longrightarrow> i = hash_path q))"

text \<open>
  A path that can be removed: every node that holds it (so there is at most one) is what the
  scan of its slot finds, and no other slot points to it.
\<close>

definition lru_removable :: "LRUCache \<Rightarrow> string \<Rightarrow> bool" where
  "lru_removable c p \<longleftrightarrow> (\<forall>a. path_of (cache_heap c) a = Some p \<longrightarrow>
     lru_scan (cache_heap c) p (cache_map c ! hash_path p) = Some (Some a) \<and>
     (\<forall>i < LRU_CACHE_SIZE. cache_map c ! i = Some a \<longrightarrow> i = hash_path p))"

lemma path_of_in: "lru_rep c xs \<Longrightarrow> path_of (cache_heap c) a = Some p \<Longrightarrow> a \<in> set xs"
  by (auto simp: lru_rep_def path_of_def)

lemma path_of_nodes: "lru_rep c xs \<Longrightarrow> a \<in> set xs \<Longrightarrow> \<exists>p. path_of (cache_heap c) a = Some p"
  by (fastforce simp: lru_rep_def path_of_def)

lemma lru_removable_hit:
  assumes "lru_rep c xs" and "lru_live c xs" and "lru_removable c p" and "path_of (cache_heap c) a = Some p"
  shows "lru_hit c xs p = Some a"
proof -
  have "hash_path p < length (cache_map c)" using assms(1) hash_path_less by (simp add: lru_rep_def)
  then have "arr_get (cache_map c) (int (hash_path p)) = Some (cache_map c ! hash_path p)" by simp
  with lru_scan_slot [OF assms(1,2), of p] assms(3,4) show ?thesis by (simp add: lru_removable_def)
qed

lemma lru_evict_live:
  assumes "lru_rep c xs" and "lru_live c xs" and "length xs \<le> LRU_CACHE_SIZE"
    and "length xs = LRU_CACHE_SIZE \<Longrightarrow> lru_tail_exact c"
  shows "\<exists>c' ys. lru_evict c = Some c' \<and> lru_rep c' ys \<and> lru_live c' ys \<and> length ys < LRU_CACHE_SIZE \<and>
    set ys \<subseteq> set xs \<and> (\<forall>a \<in> set ys. node_data (cache_heap c') a = node_data (cache_heap c) a)"
proof (cases "length xs = LRU_CACHE_SIZE")
  case False
  with assms lru_evict_skip [OF assms(1)] show ?thesis by (intro exI [of _ c] exI [of _ xs]) simp
next
  case True
  then obtain ys t where xs: "xs = ys @ [t]" by (cases xs rule: rev_cases) (auto simp: LRU_CACHE_SIZE_def)
  have rep: "lru_rep c (ys @ [t])" and full: "length (ys @ [t]) = LRU_CACHE_SIZE" using assms(1) True xs by simp_all
  obtain q where q: "path_of (cache_heap c) t = Some q" using path_of_nodes [OF rep, of t] by auto
  obtain c' where c': "lru_evict c = Some c'" "lru_rep c' ys"
    "node_data (cache_heap c') = (node_data (cache_heap c))(t := None)"
    "cache_map c' = clear_slot (cache_map c) (hash_path q) t" using lru_evict_run [OF rep full q] by blast
  have t: "t \<notin> set ys" "cache_tail c = Some t" using rep by (auto simp: lru_rep_def)
  have "lru_live c' ys"
    unfolding lru_live_def
  proof (intro allI impI)
    fix i b assume i: "i < LRU_CACHE_SIZE" "cache_map c' ! i = Some b"
    have "hash_path q < length (cache_map c)" using assms(1) hash_path_less by (simp add: lru_rep_def)
    then have m: "cache_map c ! i = Some b" "\<not> (i = hash_path q \<and> b = t)"
      using i(2) c'(4) by (auto simp: clear_slot_def nth_list_update split: if_splits)
    have "lru_tail_exact c" using assms(4) True by simp
    then have "b \<noteq> t" using t(2) q i(1) m unfolding lru_tail_exact_def by blast
    with m(1) show "b \<in> set ys" using assms(2) i(1) xs by (auto simp: lru_live_def)
  qed
  moreover have "\<forall>a \<in> set ys. node_data (cache_heap c') a = node_data (cache_heap c) a" using c'(3) t(1) by auto
  ultimately show ?thesis using c'(1,2) full xs by (intro exI [of _ c'] exI [of _ ys]) auto
qed

lemma lru_put_live:
  assumes "lru_rep c xs" and "lru_live c xs" and "lru_hit c xs p = None" and "length xs \<le> LRU_CACHE_SIZE"
    and "length xs = LRU_CACHE_SIZE \<Longrightarrow> lru_tail_exact c" and p: "length p < MAX_PATH_LEN"
  shows "\<exists>c' ys. lru_put m c p v = Some c' \<and> lru_rep c' ys \<and> lru_live c' ys \<and> length ys \<le> LRU_CACHE_SIZE \<and>
    (\<forall>a \<in> set ys. node_data (cache_heap c') a = Some (p, v) \<or>
       a \<in> set xs \<and> node_data (cache_heap c') a = node_data (cache_heap c) a)"
proof -
  obtain c1 ys where c1: "lru_evict c = Some c1" "lru_rep c1 ys" "lru_live c1 ys" "length ys < LRU_CACHE_SIZE"
    "set ys \<subseteq> set xs" "\<forall>a \<in> set ys. node_data (cache_heap c1) a = node_data (cache_heap c) a"
    using lru_evict_live [OF assms(1,2,4,5)] by blast
  have put: "lru_put m c p v = (if m then lru_new_node c1 p v else Some c1)"
    using lru_scan_slot [OF assms(1,2), of p] assms(3) c1(1) by (auto simp: lru_put_def)
  show ?thesis
  proof (cases m)
    case False
    with put c1 show ?thesis by (intro exI [of _ c1] exI [of _ ys]) auto
  next
    case True
    let ?a = "cache_fresh c1"
    obtain c' where c': "lru_new_node c1 p v = Some c'" "lru_rep c' (?a # ys)"
      "node_data (cache_heap c') = (node_data (cache_heap c1))(?a \<mapsto> (p, v))"
      "cache_map c' = (cache_map c1)[hash_path p := Some ?a]" using lru_new_node_run [OF c1(2) p] by blast
    have "hash_path p < length (cache_map c1)" using c1(2) hash_path_less by (simp add: lru_rep_def)
    then have "lru_live c' (?a # ys)" using c'(4) c1(3) by (auto simp: lru_live_def nth_list_update split: if_splits)
    moreover have "\<forall>a \<in> set (?a # ys). node_data (cache_heap c') a = Some (p, v) \<or>
       a \<in> set xs \<and> node_data (cache_heap c') a = node_data (cache_heap c) a" using c'(3) c1(5,6) by auto
    ultimately show ?thesis using put True c'(1,2) c1(4)
      by (intro exI [of _ c'] exI [of _ "?a # ys"]) simp
  qed
qed

lemma lru_remove_live:
  assumes "lru_rep c xs" and "lru_live c xs" and "lru_removable c p"
  shows "\<exists>c' ys. lru_remove c p = Some c' \<and> lru_rep c' ys \<and> lru_live c' ys \<and> set ys \<subseteq> set xs \<and>
    length ys \<le> length xs \<and> (\<forall>a \<in> set ys. node_data (cache_heap c') a = node_data (cache_heap c) a) \<and>
    (\<forall>a \<in> set ys. path_of (cache_heap c) a \<noteq> Some p)"
proof (cases "lru_hit c xs p")
  case None
  then have "\<forall>a \<in> set xs. path_of (cache_heap c) a \<noteq> Some p"
    using lru_removable_hit [OF assms] by fastforce
  with lru_remove_miss [OF assms(1,2) None] assms(1,2) show ?thesis by (intro exI [of _ c] exI [of _ xs]) simp
next
  case (Some a)
  obtain c' ys zs where c': "xs = ys @ a # zs" "lru_remove c p = Some c'" "lru_rep c' (ys @ zs)"
    "node_data (cache_heap c') = (node_data (cache_heap c))(a := None)"
    "cache_map c' = (if cache_map c ! hash_path p = Some a
      then (cache_map c)[hash_path p := first_ptr zs None] else cache_map c)"
    using lru_remove_hit [OF assms(1,2) Some] by blast
  have a: "path_of (cache_heap c) a = Some p" using lru_hit_Some(2) [OF Some] .
  have d: "distinct (ys @ a # zs)" using assms(1) c'(1) by (simp add: lru_rep_def)
  have "lru_live c' (ys @ zs)"
    unfolding lru_live_def
  proof (intro allI impI)
    fix i b assume i: "i < LRU_CACHE_SIZE" "cache_map c' ! i = Some b"
    have len: "hash_path p < length (cache_map c)" using assms(1) hash_path_less by (simp add: lru_rep_def)
    show "b \<in> set (ys @ zs)"
    proof (cases "cache_map c ! i = Some b")
      case True
      have "b \<noteq> a"
      proof
        assume "b = a"
        with True a i(1) assms(3) have "i = hash_path p" by (auto simp: lru_removable_def)
        with True \<open>b = a\<close> c'(5) i(2) len have "first_ptr zs None = Some a" by simp
        then show False using d by (cases zs) auto
      qed
      with True assms(2) i(1) c'(1) show ?thesis by (auto simp: lru_live_def)
    next
      case False
      with i(2) c'(5) len have "first_ptr zs None = Some b" by (auto simp: nth_list_update split: if_splits)
      then show ?thesis by (cases zs) auto
    qed
  qed
  moreover have "path_of (cache_heap c) b \<noteq> Some p" if "b \<in> set (ys @ zs)" for b
    using lru_removable_hit [OF assms, of b] Some d that by auto
  ultimately show ?thesis using c' d by (intro exI [of _ c'] exI [of _ "ys @ zs"]) auto
qed

end
