(* ===== verification/Lru_Spec.thy ===== *)
theory Lru_Spec
  imports Lru_Refine
begin

text \<open>
  The ideal least-recently-used cache of a fixed capacity, as a list of entries from the
  most to the least recently used, and the conditions under which the pointer code
  implements it: every node is what its own hash slot points to (so no two cached paths
  collide), and a node that is freed is pointed to by no other slot.
\<close>

subsection \<open>The ideal cache\<close>

definition drop_key :: "string \<Rightarrow> (string \<times> 'v) list \<Rightarrow> (string \<times> 'v) list" where
  "drop_key p es = filter (\<lambda>e. fst e \<noteq> p) es"

definition ideal_get :: "(string \<times> 'v) list \<Rightarrow> string \<Rightarrow> (string \<times> 'v) list \<times> 'v option" where
  "ideal_get es p = (case map_of es p of
     None \<Rightarrow> (es, None) | Some v \<Rightarrow> ((p, v) # drop_key p es, Some v))"

definition ideal_put :: "(string \<times> 'v) list \<Rightarrow> string \<Rightarrow> 'v \<Rightarrow> (string \<times> 'v) list" where
  "ideal_put es p v =
     (if p \<in> fst ` set es then (p, v) # drop_key p es
      else if length es = LRU_CACHE_SIZE then (p, v) # butlast es
      else (p, v) # es)"

definition ideal_remove :: "(string \<times> 'v) list \<Rightarrow> string \<Rightarrow> (string \<times> 'v) list" where
  "ideal_remove es p = drop_key p es"

lemma drop_key_split:
  "distinct (map fst (es1 @ (p, v) # es2)) \<Longrightarrow> drop_key p (es1 @ (p, v) # es2) = es1 @ es2"
proof -
  assume "distinct (map fst (es1 @ (p, v) # es2))"
  then have "p \<notin> fst ` set es1" "p \<notin> fst ` set es2" by auto
  then have "filter (\<lambda>e. fst e \<noteq> p) es1 = es1" "filter (\<lambda>e. fst e \<noteq> p) es2 = es2"
    by (force intro: filter_True)+
  then show ?thesis by (simp add: drop_key_def)
qed

lemma drop_key_absent: "p \<notin> fst ` set es \<Longrightarrow> drop_key p es = es"
  unfolding drop_key_def by (rule filter_True) force

lemma ideal_get_keys: "fst ` set (fst (ideal_get es p)) = fst ` set es"
proof (cases "map_of es p")
  case (Some v)
  then have "p \<in> fst ` set es" by (metis map_of_eq_None_iff option.distinct(1))
  with Some show ?thesis by (auto simp: ideal_get_def drop_key_def)
qed (simp add: ideal_get_def)

lemma ideal_put_keys: "fst ` set (ideal_put es p v) \<subseteq> insert p (fst ` set es)"
  by (auto simp: ideal_put_def drop_key_def dest: in_set_butlastD)

lemma drop_key_length: "p \<in> fst ` set es \<Longrightarrow> length (drop_key p es) < length es"
  unfolding drop_key_def by (erule imageE, rule length_filter_less) auto

lemma ideal_put_length: "length es \<le> LRU_CACHE_SIZE \<Longrightarrow> length (ideal_put es p v) \<le> LRU_CACHE_SIZE"
proof -
  assume len: "length es \<le> LRU_CACHE_SIZE"
  show ?thesis
  proof (cases "p \<in> fst ` set es")
    case True
    with len drop_key_length [OF True] show ?thesis by (simp add: ideal_put_def)
  next
    case False
    with len show ?thesis by (simp add: ideal_put_def LRU_CACHE_SIZE_def)
  qed
qed

subsection \<open>When a cache implements a list of entries\<close>

definition lru_own :: "LRUCache \<Rightarrow> addr list \<Rightarrow> bool" where
  "lru_own c xs \<longleftrightarrow> (\<forall>a \<in> set xs. \<forall>p. path_of (cache_heap c) a = Some p \<longrightarrow>
     cache_map c ! hash_path p = Some a)"

definition lru_sim :: "LRUCache \<Rightarrow> (string \<times> StorageServerInfo) list \<Rightarrow> bool" where
  "lru_sim c es \<longleftrightarrow> (\<exists>xs. lru_rep c xs \<and> lru_live c xs \<and> lru_own c xs \<and>
     map (node_data (cache_heap c)) xs = map Some es)"

text \<open>No slot but its own points to the node of \<open>p\<close>; and that for every path.\<close>

definition lru_exact_at :: "LRUCache \<Rightarrow> string \<Rightarrow> bool" where
  "lru_exact_at c p \<longleftrightarrow> (\<forall>i < LRU_CACHE_SIZE. \<forall>a. cache_map c ! i = Some a \<longrightarrow>
     path_of (cache_heap c) a = Some p \<longrightarrow> i = hash_path p)"

definition lru_exact :: "LRUCache \<Rightarrow> bool" where
  "lru_exact c \<longleftrightarrow> (\<forall>p. lru_exact_at c p)"

lemma lru_sim_init: "lru_sim lru_init [] \<and> lru_exact lru_init"
  using lru_rep_init
  by (auto simp: lru_sim_def lru_live_def lru_own_def lru_exact_def lru_exact_at_def lru_init_def
      intro!: exI [of _ "[]"])

lemma lru_hit_own:
  assumes "lru_own c xs" and "lru_rep c xs"
  shows "lru_hit c xs p = Some a \<longleftrightarrow> a \<in> set xs \<and> path_of (cache_heap c) a = Some p"
proof
  assume *: "a \<in> set xs \<and> path_of (cache_heap c) a = Some p"
  with assms(1) have "cache_map c ! hash_path p = Some a" by (simp add: lru_own_def)
  with * obtain zs where "slot_list c xs (hash_path p) = a # zs"
    using dropWhile_split by (fastforce simp: slot_list_def)
  with * show "lru_hit c xs p = Some a" by (simp add: lru_hit_def)
qed (auto dest: lru_hit_Some)

text \<open>
  A representation by name, with the entries split at a given node. The paths of the
  nodes are distinct, since each is found in its own slot.
\<close>

lemma own_distinct:
  assumes "lru_own c xs" and "distinct xs" and "map (node_data (cache_heap c)) xs = map Some es"
  shows "distinct (map fst es)"
proof -
  have paths: "map (path_of (cache_heap c)) xs = map Some (map fst es)"
  proof -
    have "map (map_option fst) (map (node_data (cache_heap c)) xs) = map (map_option fst) (map Some es)"
      by (simp only: assms(3))
    moreover have "path_of (cache_heap c) = (\<lambda>a. map_option fst (node_data (cache_heap c) a))"
      by (rule ext) (rule path_of_data)
    ultimately show ?thesis by (simp add: comp_def)
  qed
  have "inj_on (path_of (cache_heap c)) (set xs)"
  proof (rule inj_onI)
    fix a b assume ab: "a \<in> set xs" "b \<in> set xs" "path_of (cache_heap c) a = path_of (cache_heap c) b"
    from ab(1) paths have "path_of (cache_heap c) a \<in> set (map Some (map fst es))"
      by (metis image_eqI list.set_map)
    then obtain p where "path_of (cache_heap c) a = Some p" by auto
    with ab assms(1) show "a = b" by (metis lru_own_def option.inject)
  qed
  with assms(2) have "distinct (map Some (map fst es))" unfolding paths [symmetric]
    by (simp add: distinct_map)
  then show ?thesis by (simp only: distinct_map)
qed

lemma entries_member:
  assumes "map nd xs = map Some es"
  shows "(p, v) \<in> set es \<longleftrightarrow> (\<exists>a \<in> set xs. nd a = Some (p, v))"
proof -
  have "Some (p, v) \<in> set (map Some es) \<longleftrightarrow> Some (p, v) \<in> set (map nd xs)" by (simp only: assms)
  then show ?thesis by (force simp: image_iff)
qed

lemma entries_split:
  assumes "map nd (ys @ a # zs) = map Some es" and "nd a = Some (p, v)"
  obtains es1 es2 where "es = es1 @ (p, v) # es2" and "map nd ys = map Some es1"
    and "map nd zs = map Some es2"
proof -
  have "map Some es = map nd ys @ Some (p, v) # map nd zs" using assms by simp
  then obtain es1 es2' where "es = es1 @ es2'" "map nd ys = map Some es1"
    "map Some es2' = Some (p, v) # map nd zs" by (auto simp: map_eq_append_conv)
  then obtain es2 where "es2' = (p, v) # es2" "map Some es2 = map nd zs"
    by (auto simp: map_eq_Cons_conv)
  with \<open>es = es1 @ es2'\<close> \<open>map nd ys = map Some es1\<close> show thesis by (intro that [of es1 es2]) auto
qed

lemma sim_lookup:
  assumes "lru_own c xs" and "lru_rep c xs" and "map (node_data (cache_heap c)) xs = map Some es"
  shows "lru_hit c xs p = None \<longleftrightarrow> p \<notin> fst ` set es"
    and "map_of es p = None \<longleftrightarrow> p \<notin> fst ` set es"
proof -
  have "p \<in> fst ` set es \<longleftrightarrow> (\<exists>v. (p, v) \<in> set es)" by force
  also have "\<dots> \<longleftrightarrow> (\<exists>a \<in> set xs. path_of (cache_heap c) a = Some p)"
    unfolding entries_member [OF assms(3)] by (auto simp: path_of_data)
  also have "\<dots> \<longleftrightarrow> (\<exists>a. lru_hit c xs p = Some a)" using lru_hit_own [OF assms(1,2)] by blast
  finally show "lru_hit c xs p = None \<longleftrightarrow> p \<notin> fst ` set es" by auto
qed (simp add: map_of_eq_None_iff)

subsection \<open>The simulations\<close>

lemma lru_own_cong:
  assumes "lru_own c xs" and "cache_map c' = cache_map c"
    and "\<And>a. path_of (cache_heap c') a = path_of (cache_heap c) a" and "set ys = set xs"
  shows "lru_own c' ys"
  using assms by (simp add: lru_own_def)

lemma lru_exact_cong:
  "cache_map c' = cache_map c \<Longrightarrow> (\<And>a. path_of (cache_heap c') a = path_of (cache_heap c) a) \<Longrightarrow>
     lru_exact c' = lru_exact c"
  by (simp add: lru_exact_def lru_exact_at_def)

text \<open>A hit moves an entry to the front: the shared part of \<open>lru_get\<close> and \<open>lru_put\<close>.\<close>

lemma sim_touch:
  assumes "lru_rep c xs" "lru_live c xs" "lru_own c xs" "map (node_data (cache_heap c)) xs = map Some es"
    and "a \<in> set xs" "node_data (cache_heap c) a = Some (p, w)"
    and "lru_rep c' (a # remove1 a xs)" "cache_map c' = cache_map c"
    and "node_data (cache_heap c') = (node_data (cache_heap c))(a \<mapsto> (p, v))"
  shows "lru_sim c' ((p, v) # drop_key p es)" and "lru_exact c' = lru_exact c"
proof -
  obtain ys zs where xs: "xs = ys @ a # zs" using assms(5) by (auto dest: split_list)
  have dist: "distinct (ys @ a # zs)" using assms(1) xs by (simp add: lru_rep_def)
  then have rm: "remove1 a xs = ys @ zs" unfolding xs by (rule remove1_split)
  have paths: "path_of (cache_heap c') b = path_of (cache_heap c) b" for b
    using assms(6,9) by (simp add: path_of_data)
  obtain es1 es2 where es: "es = es1 @ (p, w) # es2" "map (node_data (cache_heap c)) ys = map Some es1"
    "map (node_data (cache_heap c)) zs = map Some es2"
    using entries_split assms(4,6) xs by metis
  have "drop_key p es = es1 @ es2"
    using own_distinct [OF assms(3) _ assms(4)] dist xs unfolding es(1) by (intro drop_key_split) simp
  then have "map (node_data (cache_heap c')) (a # remove1 a xs) = map Some ((p, v) # drop_key p es)"
    using assms(9) rm dist es(2,3) by (simp flip: es(2,3))
  moreover have "set (a # remove1 a xs) = set xs" using rm xs by auto
  then have "lru_live c' (a # remove1 a xs)" "lru_own c' (a # remove1 a xs)"
    using assms(2,8) lru_own_cong [OF assms(3) assms(8) paths] by (simp_all add: lru_live_def)
  ultimately show "lru_sim c' ((p, v) # drop_key p es)" using assms(7) by (auto simp: lru_sim_def)
  show "lru_exact c' = lru_exact c" using assms(8) paths by (rule lru_exact_cong)
qed

lemma sim_get:
  assumes "lru_sim c es"
  shows "\<exists>c'. lru_get c p = Some (c', snd (ideal_get es p)) \<and> lru_sim c' (fst (ideal_get es p)) \<and>
    lru_exact c' = lru_exact c"
proof -
  obtain xs where xs: "lru_rep c xs" "lru_live c xs" "lru_own c xs"
    "map (node_data (cache_heap c)) xs = map Some es" using assms by (auto simp: lru_sim_def)
  note look = sim_lookup [OF xs(3,1,4), of p]
  show ?thesis
  proof (cases "lru_hit c xs p")
    case None
    with look lru_get_miss [OF xs(1,2) None] assms show ?thesis by (simp add: ideal_get_def)
  next
    case (Some a)
    with lru_get_hit [OF xs(1,2)] obtain c' v where
      c': "lru_get c p = Some (c', Some v)" "node_data (cache_heap c) a = Some (p, v)"
        "lru_rep c' (a # remove1 a xs)" "node_data (cache_heap c') = node_data (cache_heap c)"
        "cache_map c' = cache_map c" by metis
    have a: "a \<in> set xs" using lru_hit_Some Some by blast
    have "(p, v) \<in> set es" using entries_member [OF xs(4)] a c'(2) by blast
    moreover have "distinct (map fst es)" using own_distinct [OF xs(3) _ xs(4)] xs(1) by (simp add: lru_rep_def)
    ultimately have "map_of es p = Some v" by simp
    moreover have "node_data (cache_heap c') = (node_data (cache_heap c))(a \<mapsto> (p, v))"
      using c'(2,4) by auto
    note sim_touch [OF xs a c'(2,3,5) this]
    ultimately show ?thesis using c'(1) by (auto simp: ideal_get_def)
  qed
qed

lemma lru_exact_live:
  "lru_rep c xs \<Longrightarrow> lru_live c xs \<Longrightarrow> lru_exact_at c q \<Longrightarrow> path_of (cache_heap c) t = Some q \<Longrightarrow>
     i < LRU_CACHE_SIZE \<Longrightarrow> cache_map c ! i = Some t \<Longrightarrow> i = hash_path q"
  by (simp add: lru_exact_at_def)

lemma sim_evict:
  assumes "lru_sim c es" and "length es = LRU_CACHE_SIZE" and "lru_exact_at c (fst (last es))"
  shows "\<exists>c'. lru_evict c = Some c' \<and> lru_sim c' (butlast es) \<and> (lru_exact c \<longrightarrow> lru_exact c')"
proof -
  obtain xs where xs: "lru_rep c xs" "lru_live c xs" "lru_own c xs"
    "map (node_data (cache_heap c)) xs = map Some es" using assms by (auto simp: lru_sim_def)
  then have len: "length xs = length es" by (metis length_map)
  then obtain ys t where ys: "xs = ys @ [t]" using assms(2)
    by (cases xs rule: rev_cases) (auto simp: LRU_CACHE_SIZE_def)
  obtain es' q v where es: "es = es' @ [(q, v)]" using assms(2)
    by (cases es rule: rev_cases) (auto simp: LRU_CACHE_SIZE_def)
  have nd: "map (node_data (cache_heap c)) ys = map Some es'" "node_data (cache_heap c) t = Some (q, v)"
    using xs(4) ys es by auto
  have t: "path_of (cache_heap c) t = Some q" using nd(2) by (simp add: path_of_data)
  have full: "length (ys @ [t]) = LRU_CACHE_SIZE" using assms(2) len ys by simp
  from lru_evict_run [OF _ full t] xs(1) ys obtain c' where
    c': "lru_evict c = Some c'" "lru_rep c' ys"
      "node_data (cache_heap c') = (node_data (cache_heap c))(t := None)"
      "cache_map c' = clear_slot (cache_map c) (hash_path q) t" by blast
  have tys: "t \<notin> set ys" using xs(1) ys by (simp add: lru_rep_def)
  have paths: "path_of (cache_heap c') a = (if a = t then None else path_of (cache_heap c) a)" for a
    using c'(3) by (simp add: path_of_data)
  have slot: "cache_map c ! hash_path q = Some t" using xs(3) t ys by (simp add: lru_own_def)
  have hq: "hash_path q < length (cache_map c)" using xs(1) hash_path_less by (simp add: lru_rep_def)
  have map': "cache_map c' ! i = (if i = hash_path q then None else cache_map c ! i)"
    if "i < LRU_CACHE_SIZE" for i
    using c'(4) slot hq by (auto simp: clear_slot_def nth_list_update)
  have "lru_exact_at c q" using assms(3) es by simp
  then have "lru_live c' ys"
    using xs(2) map' ys t by (auto simp: lru_live_def lru_exact_at_def)
  moreover have "lru_own c' ys"
    unfolding lru_own_def
  proof (intro ballI allI impI)
    fix a r assume a: "a \<in> set ys" "path_of (cache_heap c') a = Some r"
    with paths tys xs(3) ys have "cache_map c ! hash_path r = Some a" by (auto simp: lru_own_def split: if_splits)
    with slot a(1) tys have "hash_path r \<noteq> hash_path q" by auto
    with map' [OF hash_path_less] \<open>cache_map c ! hash_path r = Some a\<close>
    show "cache_map c' ! hash_path r = Some a" by simp
  qed
  moreover have "map (node_data (cache_heap c')) ys = map Some (butlast es)"
    using nd(1) c'(3) tys es by (metis butlast_snoc map_fun_upd)
  moreover have "lru_exact c \<longrightarrow> lru_exact c'"
    using map' paths by (auto simp: lru_exact_def lru_exact_at_def)
  ultimately show ?thesis using c'(1,2) by (auto simp: lru_sim_def)
qed

lemma sim_new_node:
  assumes "lru_sim c es" and "\<forall>q \<in> fst ` set es. hash_path q \<noteq> hash_path p"
    and "length p < MAX_PATH_LEN"
  shows "\<exists>c'. lru_new_node c p v = Some c' \<and> lru_sim c' ((p, v) # es) \<and> (lru_exact c \<longrightarrow> lru_exact c')"
proof -
  obtain xs where xs: "lru_rep c xs" "lru_live c xs" "lru_own c xs"
    "map (node_data (cache_heap c)) xs = map Some es" using assms by (auto simp: lru_sim_def)
  let ?a = "cache_fresh c"
  obtain c' where c': "lru_new_node c p v = Some c'" "lru_rep c' (?a # xs)"
    "node_data (cache_heap c') = (node_data (cache_heap c))(?a \<mapsto> (p, v))"
    "cache_map c' = (cache_map c)[hash_path p := Some ?a]"
    using lru_new_node_run [OF xs(1) assms(3)] by blast
  have a: "?a \<notin> set xs" using xs(1) by (auto simp: lru_rep_def)
  have len: "length (cache_map c) = LRU_CACHE_SIZE" using xs(1) by (simp add: lru_rep_def)
  have paths: "path_of (cache_heap c') b = (if b = ?a then Some p else path_of (cache_heap c) b)" for b
    using c'(3) by (simp add: path_of_data)
  have map': "cache_map c' ! i = (if i = hash_path p then Some ?a else cache_map c ! i)"
    if "i < LRU_CACHE_SIZE" for i
    using c'(4) len that by (auto simp: nth_list_update)
  have live: "lru_live c' (?a # xs)" using xs(2) map' by (auto simp: lru_live_def)
  have own: "lru_own c' (?a # xs)"
    unfolding lru_own_def
  proof (intro ballI allI impI)
    fix b r assume b: "b \<in> set (?a # xs)" "path_of (cache_heap c') b = Some r"
    show "cache_map c' ! hash_path r = Some b"
    proof (cases "b = ?a")
      case True
      with b paths map' hash_path_less show ?thesis by auto
    next
      case False
      with b paths have b': "b \<in> set xs" "path_of (cache_heap c) b = Some r" by auto
      then obtain w where "node_data (cache_heap c) b = Some (r, w)" by (auto simp: path_of_data)
      with b'(1) have "(r, w) \<in> set es" using entries_member [OF xs(4), of r w] by blast
      then have "r \<in> fst ` set es" by (metis fst_conv image_eqI)
      with assms(2) have "hash_path r \<noteq> hash_path p" by blast
      with b' xs(3) map' hash_path_less show ?thesis by (simp add: lru_own_def)
    qed
  qed
  have "map (node_data (cache_heap c')) (?a # xs) = map Some ((p, v) # es)"
    using xs(4) c'(3) a by simp
  moreover have "lru_exact c \<longrightarrow> lru_exact c'"
  proof (intro impI, unfold lru_exact_def lru_exact_at_def, intro allI impI)
    fix q i b
    assume *: "\<forall>p. \<forall>i<LRU_CACHE_SIZE. \<forall>a. cache_map c ! i = Some a \<longrightarrow>
        path_of (cache_heap c) a = Some p \<longrightarrow> i = hash_path p"
      "i < LRU_CACHE_SIZE" "cache_map c' ! i = Some b" "path_of (cache_heap c') b = Some q"
    show "i = hash_path q"
    proof (cases "i = hash_path p")
      case True
      with * map' paths show ?thesis by auto
    next
      case False
      with *(2,3) map' have m: "cache_map c ! i = Some b" by simp
      with xs(2) *(2) a have "b \<noteq> ?a" by (auto simp: lru_live_def)
      with m * paths show ?thesis by simp
    qed
  qed
  ultimately show ?thesis using c'(1,2) live own by (auto simp: lru_sim_def)
qed

lemma sim_put_hit:
  assumes "lru_sim c es" and "p \<in> fst ` set es"
  shows "\<exists>c'. lru_put m c p v = Some c' \<and> lru_sim c' ((p, v) # drop_key p es) \<and> lru_exact c' = lru_exact c"
proof -
  obtain xs where xs: "lru_rep c xs" "lru_live c xs" "lru_own c xs"
    "map (node_data (cache_heap c)) xs = map Some es" using assms by (auto simp: lru_sim_def)
  from sim_lookup [OF xs(3,1,4), of p] assms(2) obtain a where hit: "lru_hit c xs p = Some a" by auto
  with lru_put_hit [OF xs(1,2)] obtain c' where c': "lru_put m c p v = Some c'"
    "lru_rep c' (a # remove1 a xs)" "cache_map c' = cache_map c"
    "node_data (cache_heap c') = (node_data (cache_heap c))(a \<mapsto> (p, v))" by metis
  have a: "a \<in> set xs" "path_of (cache_heap c) a = Some p" using lru_hit_Some hit by blast+
  then obtain w where "node_data (cache_heap c) a = Some (p, w)" by (auto simp: path_of_data)
  note sim_touch [OF xs a(1) this c'(2-4)]
  with c'(1) show ?thesis by auto
qed

lemma sim_put_miss:
  assumes "lru_sim c es" and "p \<notin> fst ` set es"
  shows "lru_put m c p v = do { c \<leftarrow> lru_evict c; if \<not> m then Some c else lru_new_node c p v }"
proof -
  obtain xs where xs: "lru_rep c xs" "lru_live c xs" "lru_own c xs"
    "map (node_data (cache_heap c)) xs = map Some es" using assms by (auto simp: lru_sim_def)
  from sim_lookup [OF xs(3,1,4), of p] assms(2) lru_scan_slot [OF xs(1,2), of p]
  show ?thesis by (auto simp: lru_put_def)
qed

lemma sim_evict_if:
  assumes "lru_sim c es" and "length es = LRU_CACHE_SIZE \<Longrightarrow> lru_exact_at c (fst (last es))"
  shows "\<exists>c'. lru_evict c = Some c' \<and> (lru_exact c \<longrightarrow> lru_exact c') \<and>
    lru_sim c' (if length es = LRU_CACHE_SIZE then butlast es else es)"
proof (cases "length es = LRU_CACHE_SIZE")
  case True
  with sim_evict assms show ?thesis by auto
next
  case False
  from assms(1) obtain xs where "lru_rep c xs" "map (node_data (cache_heap c)) xs = map Some es"
    by (auto simp: lru_sim_def)
  with False lru_evict_skip [of c xs] have "lru_evict c = Some c" by (metis length_map)
  with False assms(1) show ?thesis by auto
qed

lemma sim_put:
  assumes "lru_sim c es" and "\<forall>q \<in> fst ` set es. hash_path q = hash_path p \<longrightarrow> q = p"
    and "length p < MAX_PATH_LEN"
    and "length es = LRU_CACHE_SIZE \<Longrightarrow> p \<notin> fst ` set es \<Longrightarrow> lru_exact_at c (fst (last es))"
  shows "\<exists>c'. lru_put True c p v = Some c' \<and> lru_sim c' (ideal_put es p v) \<and> (lru_exact c \<longrightarrow> lru_exact c')"
proof (cases "p \<in> fst ` set es")
  case True
  with sim_put_hit [OF assms(1) True, of True v] show ?thesis by (auto simp: ideal_put_def)
next
  case False
  let ?es = "if length es = LRU_CACHE_SIZE then butlast es else es"
  obtain c1 where c1: "lru_evict c = Some c1" "lru_exact c \<longrightarrow> lru_exact c1" "lru_sim c1 ?es"
    using sim_evict_if [OF assms(1)] assms(4) False by blast
  have "\<forall>q \<in> fst ` set ?es. hash_path q \<noteq> hash_path p"
    using assms(2) False by (auto dest: in_set_butlastD)
  from sim_new_node [OF c1(3) this assms(3), of v] c1 False show ?thesis
    by (auto simp: sim_put_miss [OF assms(1) False] ideal_put_def)
qed

lemma sim_put_no_memory:
  assumes "lru_sim c es" and "p \<notin> fst ` set es"
    and "length es = LRU_CACHE_SIZE \<Longrightarrow> lru_exact_at c (fst (last es))"
  shows "\<exists>c'. lru_put False c p v = Some c' \<and>
    lru_sim c' (if length es = LRU_CACHE_SIZE then butlast es else es)"
  using sim_evict_if [OF assms(1,3)] by (auto simp: sim_put_miss [OF assms(1,2)])

lemma sim_remove:
  assumes "lru_sim c es" and exact: "lru_exact_at c p"
  shows "\<exists>c'. lru_remove c p = Some c' \<and> lru_sim c' (ideal_remove es p)"
proof -
  obtain xs where xs: "lru_rep c xs" "lru_live c xs" "lru_own c xs"
    "map (node_data (cache_heap c)) xs = map Some es" using assms by (auto simp: lru_sim_def)
  note look = sim_lookup [OF xs(3,1,4), of p]
  show ?thesis
  proof (cases "lru_hit c xs p")
    case None
    with look lru_remove_miss [OF xs(1,2) None] assms(1) show ?thesis
      by (simp add: ideal_remove_def drop_key_absent)
  next
    case (Some a)
    from lru_remove_hit [OF xs(1,2) Some] obtain c' ys zs where c': "xs = ys @ a # zs"
      "lru_remove c p = Some c'" "lru_rep c' (ys @ zs)"
      "node_data (cache_heap c') = (node_data (cache_heap c))(a := None)"
      "cache_map c' = (if cache_map c ! hash_path p = Some a
        then (cache_map c)[hash_path p := first_ptr zs None] else cache_map c)" by blast
    have a: "path_of (cache_heap c) a = Some p" using lru_hit_Some Some by blast
    then obtain v where v: "node_data (cache_heap c) a = Some (p, v)" by (auto simp: path_of_data)
    obtain es1 es2 where es: "es = es1 @ (p, v) # es2" "map (node_data (cache_heap c)) ys = map Some es1"
      "map (node_data (cache_heap c)) zs = map Some es2"
      using entries_split xs(4) v c'(1) by metis
    have dist: "distinct (ys @ a # zs)" using xs(1) c'(1) by (simp add: lru_rep_def)
    have keys: "distinct (map fst es)" using own_distinct [OF xs(3) _ xs(4)] dist c'(1) by simp
    then have "ideal_remove es p = es1 @ es2" unfolding ideal_remove_def es(1) by (rule drop_key_split)
    moreover have "map (node_data (cache_heap c')) (ys @ zs) = map Some (es1 @ es2)"
      using dist es(2,3) c'(4) by (simp flip: es(2,3))
    moreover have slot: "cache_map c ! hash_path p = Some a" using xs(3) a c'(1) by (simp add: lru_own_def)
    have hp: "hash_path p < length (cache_map c)" "length (cache_map c) = LRU_CACHE_SIZE"
      using xs(1) hash_path_less by (simp_all add: lru_rep_def)
    have map': "cache_map c' ! i = (if i = hash_path p then first_ptr zs None else cache_map c ! i)"
      if "i < LRU_CACHE_SIZE" for i
      using c'(5) slot hp that by (auto simp: nth_list_update)
    have paths: "path_of (cache_heap c') b = (if b = a then None else path_of (cache_heap c) b)" for b
      using c'(4) by (simp add: path_of_data)
    have "lru_live c' (ys @ zs)"
      unfolding lru_live_def
    proof (intro allI impI)
      fix i b assume i: "i < LRU_CACHE_SIZE" "cache_map c' ! i = Some b"
      show "b \<in> set (ys @ zs)"
      proof (cases "i = hash_path p")
        case True
        with i map' show ?thesis by (cases zs) auto
      next
        case False
        with i map' have m: "cache_map c ! i = Some b" by simp
        with False exact i(1) a have "b \<noteq> a" by (auto simp: lru_exact_at_def)
        with m i(1) xs(2) c'(1) show ?thesis by (auto simp: lru_live_def)
      qed
    qed
    moreover have "lru_own c' (ys @ zs)"
      unfolding lru_own_def
    proof (intro ballI allI impI)
      fix b r assume b: "b \<in> set (ys @ zs)" "path_of (cache_heap c') b = Some r"
      with paths dist xs(3) c'(1) have m: "cache_map c ! hash_path r = Some b"
        by (auto simp: lru_own_def split: if_splits)
      with slot b(1) dist have "hash_path r \<noteq> hash_path p" by auto
      with m map' [OF hash_path_less] show "cache_map c' ! hash_path r = Some b" by simp
    qed
    ultimately show ?thesis using c'(2,3) by (auto simp: lru_sim_def)
  qed
qed

subsection \<open>The interface of a cache, and runs of operations\<close>

datatype 'v cache_op = Get string | Put string 'v

fun op_path :: "'v cache_op \<Rightarrow> string" where
  "op_path (Get p) = p"
| "op_path (Put p v) = p"

text \<open>A run of operations on an implementation, and on the ideal cache; the answers of the lookups.\<close>

fun cache_run :: "('c \<Rightarrow> string \<Rightarrow> ('c \<times> 'v option) c_run) \<Rightarrow> ('c \<Rightarrow> string \<Rightarrow> 'v \<Rightarrow> 'c c_run) \<Rightarrow>
    'c \<Rightarrow> 'v cache_op list \<Rightarrow> ('c \<times> 'v option list) c_run" where
  "cache_run get put c [] = Some (c, [])"
| "cache_run get put c (Get p # ops) = do {
     (c, r) \<leftarrow> get c p;
     (c, rs) \<leftarrow> cache_run get put c ops;
     Some (c, r # rs)
   }"
| "cache_run get put c (Put p v # ops) = do { c \<leftarrow> put c p v; cache_run get put c ops }"

fun ideal_run :: "(string \<times> 'v) list \<Rightarrow> 'v cache_op list \<Rightarrow> (string \<times> 'v) list \<times> 'v option list" where
  "ideal_run es [] = (es, [])"
| "ideal_run es (Get p # ops) =
     (let (es, r) = ideal_get es p; (es, rs) = ideal_run es ops in (es, r # rs))"
| "ideal_run es (Put p v # ops) = ideal_run (ideal_put es p v) ops"

text \<open>
  What a client of the cache may rely on: a simulation of the ideal cache by \<open>get\<close>, and
  by \<open>put\<close> for paths that are compatible with the cached ones.
\<close>

locale lru_interface =
  fixes sim :: "'c \<Rightarrow> (string \<times> 'v) list \<Rightarrow> bool"
    and get :: "'c \<Rightarrow> string \<Rightarrow> ('c \<times> 'v option) c_run"
    and put :: "'c \<Rightarrow> string \<Rightarrow> 'v \<Rightarrow> 'c c_run"
    and compat :: "string set \<Rightarrow> string \<Rightarrow> bool"
  assumes get_sim: "sim c es \<Longrightarrow>
      \<exists>c'. get c p = Some (c', snd (ideal_get es p)) \<and> sim c' (fst (ideal_get es p))"
    and put_sim: "sim c es \<Longrightarrow> compat (fst ` set es) p \<Longrightarrow>
      \<exists>c'. put c p v = Some c' \<and> sim c' (ideal_put es p v)"
begin

lemma run_sim:
  assumes "sim c es" and "fst ` set es \<subseteq> U" and "op_path ` set ops \<subseteq> U"
    and "\<And>K p. K \<subseteq> U \<Longrightarrow> p \<in> U \<Longrightarrow> compat K p"
  shows "\<exists>c'. cache_run get put c ops = Some (c', snd (ideal_run es ops)) \<and> sim c' (fst (ideal_run es ops))"
  using assms(1-3)
proof (induction ops arbitrary: c es)
  case Nil
  then show ?case by simp
next
  case (Cons x ops)
  show ?case
  proof (cases x)
    case (Get p)
    obtain c1 where c1: "get c p = Some (c1, snd (ideal_get es p))" "sim c1 (fst (ideal_get es p))"
      using get_sim [OF Cons.prems(1)] by blast
    have "\<exists>c'. cache_run get put c1 ops = Some (c', snd (ideal_run (fst (ideal_get es p)) ops))
        \<and> sim c' (fst (ideal_run (fst (ideal_get es p)) ops))"
      using Cons.prems by (intro Cons.IH c1(2)) (simp_all add: ideal_get_keys)
    with c1(1) Get show ?thesis by (auto simp: split_beta Let_def)
  next
    case (Put p v)
    have U: "p \<in> U" "fst ` set es \<subseteq> U" using Cons.prems Put by auto
    obtain c1 where c1: "put c p v = Some c1" "sim c1 (ideal_put es p v)"
      using put_sim [OF Cons.prems(1) assms(4)] U by blast
    have "fst ` set (ideal_put es p v) \<subseteq> U" using ideal_put_keys [of es p v] U by blast
    then have "\<exists>c'. cache_run get put c1 ops = Some (c', snd (ideal_run (ideal_put es p v) ops))
        \<and> sim c' (fst (ideal_run (ideal_put es p v) ops))"
      using Cons.prems by (intro Cons.IH c1(2)) simp_all
    with c1(1) Put show ?thesis by simp
  qed
qed

end

definition no_collision :: "string set \<Rightarrow> string \<Rightarrow> bool" where
  "no_collision K p \<longleftrightarrow> length p < MAX_PATH_LEN \<and> (\<forall>q \<in> K. hash_path q = hash_path p \<longrightarrow> q = p)"

interpretation lru: lru_interface "\<lambda>c es. lru_sim c es \<and> lru_exact c" lru_get "lru_put True" no_collision
proof unfold_locales
  show "lru_sim c es \<and> lru_exact c \<Longrightarrow> \<exists>c'. lru_get c p = Some (c', snd (ideal_get es p)) \<and>
      lru_sim c' (fst (ideal_get es p)) \<and> lru_exact c'" for c es p
    using sim_get [of c es p] by auto
  show "lru_sim c es \<and> lru_exact c \<Longrightarrow> no_collision (fst ` set es) p \<Longrightarrow>
      \<exists>c'. lru_put True c p v = Some c' \<and> lru_sim c' (ideal_put es p v) \<and> lru_exact c'" for c es p v
    using sim_put [of c es p v] by (auto simp: no_collision_def lru_exact_def)
qed

text \<open>The list a cache implements never outgrows the capacity.\<close>

lemma ideal_run_length:
  "length es \<le> LRU_CACHE_SIZE \<Longrightarrow> length (fst (ideal_run es ops)) \<le> LRU_CACHE_SIZE"
proof (induction es ops rule: ideal_run.induct)
  case (2 es p ops)
  have "length (fst (ideal_get es p)) \<le> LRU_CACHE_SIZE"
  proof (cases "map_of es p")
    case (Some v)
    then have "p \<in> fst ` set es" by (metis map_of_eq_None_iff option.distinct(1))
    from drop_key_length [OF this] Some "2.prems" show ?thesis by (simp add: ideal_get_def)
  qed (use "2.prems" in \<open>simp add: ideal_get_def\<close>)
  with "2.IH" show ?case by (cases "ideal_get es p") (simp add: split_beta Let_def)
qed (auto intro: ideal_put_length)

end
