(* ===== verification/Lru_Props.thy ===== *)
theory Lru_Props
  imports Lru_Spec
begin

text \<open>
  The properties of the cache of \<open>src/lru_cache.c\<close>: the refinement of the ideal cache, the
  totality of the operations on an intact cache, and the two ways in which the slots of
  the hash array stop agreeing with the list.
\<close>

subsection \<open>Properties\<close>

text \<open>A cache with one entry, for the witnesses.\<close>

lemma one_entry:
  "\<exists>c. lru_put True lru_init ''a'' zero_ss_info = Some c \<and> lru_sim c [(''a'', zero_ss_info)] \<and> lru_exact c"
  using sim_put [of lru_init "[]" "''a''" zero_ss_info] lru_sim_init
  by (simp add: ideal_put_def LRU_CACHE_SIZE_def MAX_PATH_LEN_def)

lemma one_entry_rep:
  "\<exists>c xs a. lru_put True lru_init ''a'' zero_ss_info = Some c \<and> lru_rep c xs \<and> lru_live c xs \<and>
     length xs = 1 \<and> lru_hit c xs ''a'' = Some a"
proof -
  obtain c xs where c: "lru_put True lru_init ''a'' zero_ss_info = Some c" "lru_rep c xs" "lru_live c xs"
    "lru_own c xs" "map (node_data (cache_heap c)) xs = map Some [(''a'', zero_ss_info)]"
    using one_entry by (auto simp: lru_sim_def)
  then have "length xs = 1" by (metis length_map length_Cons list.size(3) One_nat_def)
  moreover have "lru_hit c xs ''a'' \<noteq> None" using sim_lookup(1) [OF c(4,2,5)] by simp
  ultimately show ?thesis using c by blast
qed

text \<open>
  Property C15: on paths that do not collide in the hash, any sequence of lookups and
  insertions from the empty cache has a result, gives the answers of the ideal
  least-recently-used cache of 100 entries, and leaves a cache that implements its list.
\<close>

theorem lru_refines_ideal:
  assumes "inj_on hash_path U" and "op_path ` set ops \<subseteq> U" and "\<forall>p \<in> U. length p < MAX_PATH_LEN"
  shows "\<exists>c'. cache_run lru_get (lru_put True) lru_init ops = Some (c', snd (ideal_run [] ops)) \<and>
    lru_sim c' (fst (ideal_run [] ops)) \<and> length (fst (ideal_run [] ops)) \<le> 100"
proof -
  have "no_collision K p" if "K \<subseteq> U" "p \<in> U" for K p
    using that assms(1,3) by (auto simp: no_collision_def dest: inj_onD)
  from lru.run_sim [OF lru_sim_init _ assms(2) this] ideal_run_length [of "[]" ops]
  show ?thesis by (auto simp: LRU_CACHE_SIZE_def)
qed

theorem lru_refines_ideal_witness:
  "\<exists>c'. cache_run lru_get (lru_put True) lru_init
     [Put ''a'' zero_ss_info, Get ''b'', Get ''a''] = Some (c', [None, Some zero_ss_info])"
proof -
  let ?ops = "[Put ''a'' zero_ss_info, Get ''b'', Get ''a'']"
  have "inj_on hash_path {''a'', ''b''}"
  proof -
    have "hash_path ''a'' = 97" "hash_path ''b'' = 98" by code_simp+
    then show ?thesis by (auto simp: inj_on_def)
  qed
  moreover have "op_path ` set ?ops \<subseteq> {''a'', ''b''}" by simp
  moreover have "\<forall>p \<in> {''a'', ''b''}. length p < MAX_PATH_LEN" by (simp add: MAX_PATH_LEN_def)
  ultimately have "\<exists>c'. cache_run lru_get (lru_put True) lru_init ?ops = Some (c', snd (ideal_run [] ?ops)) \<and>
      lru_sim c' (fst (ideal_run [] ?ops)) \<and> length (fst (ideal_run [] ?ops)) \<le> 100"
    by (rule lru_refines_ideal)
  moreover have "snd (ideal_run [] ?ops) = [None, Some zero_ss_info]"
    by (simp add: ideal_put_def ideal_get_def drop_key_def LRU_CACHE_SIZE_def)
  ultimately show ?thesis by auto
qed

text \<open>
  Property C32: on a cache whose list is intact and whose slots do not dangle, a lookup has
  a result whatever the collisions; it keeps the list intact with the same nodes, and a
  node it returns holds the path and is now the most recently used one.
\<close>

theorem lru_get_intact:
  assumes "lru_rep c xs" and "lru_live c xs"
  shows "\<exists>c' r ys. lru_get c p = Some (c', r) \<and> lru_rep c' ys \<and> lru_live c' ys \<and> set ys = set xs \<and>
    (\<forall>v. r = Some v \<longrightarrow> node_data (cache_heap c') (hd ys) = Some (p, v)) \<and>
    node_data (cache_heap c') = node_data (cache_heap c)"
proof (cases "lru_hit c xs p")
  case None
  with lru_get_miss [OF assms] assms show ?thesis by blast
next
  case (Some a)
  with lru_get_hit [OF assms] obtain c' v where c': "lru_get c p = Some (c', Some v)"
    "node_data (cache_heap c) a = Some (p, v)" "lru_rep c' (a # remove1 a xs)"
    "node_data (cache_heap c') = node_data (cache_heap c)" "cache_map c' = cache_map c" by blast
  have "distinct xs" using assms(1) by (simp add: lru_rep_def)
  then have "set (a # remove1 a xs) = set xs" using lru_hit_Some(1) [OF Some] by auto
  moreover from this have "lru_live c' (a # remove1 a xs)" using assms(2) c'(5) by (simp add: lru_live_def)
  ultimately show ?thesis using c'
    by (intro exI [of _ c'] exI [of _ "Some v"] exI [of _ "a # remove1 a xs"]) simp
qed

theorem lru_get_intact_witness:
  "\<exists>c c' r. lru_put True lru_init ''a'' zero_ss_info = Some c \<and> lru_get c ''a'' = Some (c', r)"
proof -
  obtain c xs where c: "lru_put True lru_init ''a'' zero_ss_info = Some c" "lru_rep c xs" "lru_live c xs"
    using one_entry_rep by blast
  from lru_get_intact [OF c(2,3)] c(1) show ?thesis by blast
qed

lemma lru_evict_some:
  assumes "lru_rep c xs" and "length xs \<le> 100"
  shows "\<exists>c1 ys. lru_evict c = Some c1 \<and> lru_rep c1 ys \<and> length ys < 100"
proof (cases "length xs = 100")
  case True
  then obtain ys t where ys: "xs = ys @ [t]" by (cases xs rule: rev_cases) auto
  with assms(1) obtain q where "path_of (cache_heap c) t = Some q"
    by (metis lru_rep_node path_of_def option.simps(9))
  moreover have "lru_rep c (ys @ [t])" "length (ys @ [t]) = LRU_CACHE_SIZE"
    using ys assms(1) True by (simp_all add: LRU_CACHE_SIZE_def)
  ultimately obtain c1 where "lru_evict c = Some c1" "lru_rep c1 ys" using lru_evict_run by blast
  with ys True show ?thesis by auto
next
  case False
  with assms lru_evict_skip [OF assms(1)] show ?thesis by (auto simp: LRU_CACHE_SIZE_def)
qed

text \<open>
  Property C33: an insertion into an intact cache with at most 100 nodes has a result,
  whatever the collisions and the outcome of \<open>malloc\<close>; it leaves an intact list of at most
  100 nodes, and when memory was available its first node holds the given entry.
\<close>

theorem lru_put_intact:
  assumes "lru_rep c xs" and "lru_live c xs" and "length xs \<le> 100" and "length p < MAX_PATH_LEN"
  shows "\<exists>c' ys. lru_put m c p v = Some c' \<and> lru_rep c' ys \<and> length ys \<le> 100 \<and>
    (m \<longrightarrow> ys \<noteq> [] \<and> node_data (cache_heap c') (hd ys) = Some (p, v))"
proof (cases "lru_hit c xs p")
  case (Some a)
  with lru_put_hit [OF assms(1,2), of p a m v] obtain c' where "lru_put m c p v = Some c'"
    "lru_rep c' (a # remove1 a xs)" "node_data (cache_heap c') = (node_data (cache_heap c))(a \<mapsto> (p, v))"
    by blast
  moreover have "a \<in> set xs" using Some by (rule lru_hit_Some)
  then have "length (a # remove1 a xs) \<le> 100" using assms(3) by (simp add: length_remove1)
  ultimately show ?thesis by (intro exI [of _ c'] exI [of _ "a # remove1 a xs"]) simp
next
  case None
  obtain c1 ys where c1: "lru_evict c = Some c1" "lru_rep c1 ys" "length ys < 100"
    using lru_evict_some [OF assms(1,3)] by blast
  have put: "lru_put m c p v = (if m then lru_new_node c1 p v else Some c1)"
    using lru_scan_slot [OF assms(1,2), of p] None c1(1) by (auto simp: lru_put_def)
  show ?thesis
  proof (cases m)
    case False
    with put c1 show ?thesis by auto
  next
    case True
    from lru_new_node_run [OF c1(2) assms(4), of v] obtain c' where "lru_new_node c1 p v = Some c'"
      "lru_rep c' (cache_fresh c1 # ys)"
      "node_data (cache_heap c') = (node_data (cache_heap c1))(cache_fresh c1 \<mapsto> (p, v))" by blast
    with put True c1(3) show ?thesis by (intro exI [of _ c'] exI [of _ "cache_fresh c1 # ys"]) simp
  qed
qed

theorem lru_put_intact_witness:
  "\<exists>c. lru_put True lru_init ''a'' zero_ss_info = Some c \<and>
     (\<exists>c' ys. lru_put False c ''b'' zero_ss_info = Some c' \<and> lru_rep c' ys \<and> length ys \<le> 100)"
proof -
  obtain c xs where c: "lru_put True lru_init ''a'' zero_ss_info = Some c" "lru_rep c xs" "lru_live c xs"
    "length xs = 1" using one_entry_rep by blast
  then have "length xs \<le> 100" "length ''b'' < MAX_PATH_LEN" by (simp_all add: MAX_PATH_LEN_def)
  from lru_put_intact [OF c(2,3) this, of False zero_ss_info] c(1) show ?thesis by blast
qed

text \<open>
  Property C16: removing a path from a cache in which only its own slot points to its node
  has a result and implements the removal from the ideal list.
\<close>

theorem lru_remove_refines:
  assumes "lru_sim c es" and "lru_exact_at c p"
  shows "\<exists>c'. lru_remove c p = Some c' \<and> lru_sim c' (filter (\<lambda>e. fst e \<noteq> p) es)"
  using sim_remove [OF assms] by (simp add: ideal_remove_def drop_key_def)

theorem lru_remove_refines_witness:
  "\<exists>c. lru_put True lru_init ''a'' zero_ss_info = Some c \<and> lru_sim c [(''a'', zero_ss_info)] \<and>
     (\<exists>c'. lru_remove c ''a'' = Some c' \<and> lru_sim c' [])"
proof -
  obtain c where c: "lru_put True lru_init ''a'' zero_ss_info = Some c"
    "lru_sim c [(''a'', zero_ss_info)]" "lru_exact_at c ''a''"
    using one_entry by (auto simp: lru_exact_def)
  from lru_remove_refines [OF c(2,3)] c show ?thesis by auto
qed

text \<open>
  Property C30: after the removal of a cached path from an intact cache, no slot dangles
  exactly when no slot but the path's own pointed to the freed node.
\<close>

theorem lru_remove_dangling:
  assumes "lru_rep c xs" and "lru_live c xs" and "lru_hit c xs p = Some a"
  shows "\<exists>c' ys. lru_remove c p = Some c' \<and> lru_rep c' ys \<and> set ys = set xs - {a} \<and>
    (lru_live c' ys \<longleftrightarrow> (\<forall>i < LRU_CACHE_SIZE. cache_map c ! i = Some a \<longrightarrow> i = hash_path p))"
proof -
  obtain c' ys zs where c': "xs = ys @ a # zs" "lru_remove c p = Some c'" "lru_rep c' (ys @ zs)"
    "cache_map c' = (if cache_map c ! hash_path p = Some a
      then (cache_map c)[hash_path p := first_ptr zs None] else cache_map c)"
    using lru_remove_hit [OF assms] by blast
  have d: "distinct (ys @ a # zs)" using assms(1) c'(1) by (simp add: lru_rep_def)
  have len: "length (cache_map c) = LRU_CACHE_SIZE" using assms(1) by (simp add: lru_rep_def)
  have map': "cache_map c' ! i = (if i = hash_path p \<and> cache_map c ! i = Some a then first_ptr zs None
      else cache_map c ! i)" if "i < LRU_CACHE_SIZE" for i
    using c'(4) len that hash_path_less [of p] by (auto simp: nth_list_update)
  have "lru_live c' (ys @ zs) \<longleftrightarrow> (\<forall>i < LRU_CACHE_SIZE. cache_map c ! i = Some a \<longrightarrow> i = hash_path p)"
  proof
    assume live': "lru_live c' (ys @ zs)"
    show "\<forall>i < LRU_CACHE_SIZE. cache_map c ! i = Some a \<longrightarrow> i = hash_path p"
    proof (intro allI impI)
      fix i assume i: "i < LRU_CACHE_SIZE" "cache_map c ! i = Some a"
      show "i = hash_path p"
      proof (rule ccontr)
        assume "i \<noteq> hash_path p"
        with i map' have "cache_map c' ! i = Some a" by simp
        with i(1) live' d show False by (auto simp: lru_live_def)
      qed
    qed
  next
    assume own: "\<forall>i < LRU_CACHE_SIZE. cache_map c ! i = Some a \<longrightarrow> i = hash_path p"
    show "lru_live c' (ys @ zs)"
      unfolding lru_live_def
    proof (intro allI impI)
      fix i b assume i: "i < LRU_CACHE_SIZE" "cache_map c' ! i = Some b"
      show "b \<in> set (ys @ zs)"
      proof (cases "i = hash_path p \<and> cache_map c ! i = Some a")
        case True
        with i map' show ?thesis by (cases zs) auto
      next
        case False
        with i map' have m: "cache_map c ! i = Some b" by simp
        with False own i(1) have "b \<noteq> a" by blast
        with m i(1) assms(2) c'(1) show ?thesis by (auto simp: lru_live_def)
      qed
    qed
  qed
  moreover have "set (ys @ zs) = set xs - {a}" using d c'(1) by auto
  ultimately show ?thesis using c'(2,3) by blast
qed

theorem lru_remove_dangling_witness:
  "\<exists>c c'. lru_put True lru_init ''a'' zero_ss_info = Some c \<and> lru_remove c ''a'' = Some c'"
proof -
  obtain c xs a where c: "lru_put True lru_init ''a'' zero_ss_info = Some c" "lru_rep c xs" "lru_live c xs"
    "lru_hit c xs ''a'' = Some a" using one_entry_rep by blast
  from lru_remove_dangling [OF c(2,3,4)] c(1) show ?thesis by blast
qed

subsection \<open>Exact slots\<close>

text \<open>The slots stay exact as long as nothing is removed.\<close>

lemma lru_exact_tail: "lru_exact c \<Longrightarrow> lru_tail_exact c"
  by (simp add: lru_exact_def lru_exact_at_def lru_tail_exact_def)

lemma lru_exact_mono:
  assumes "lru_exact c"
    and "\<And>i a q. i < LRU_CACHE_SIZE \<Longrightarrow> cache_map c' ! i = Some a \<Longrightarrow> path_of (cache_heap c') a = Some q \<Longrightarrow>
      i = hash_path q \<or> cache_map c ! i = Some a \<and> path_of (cache_heap c) a = Some q"
  shows "lru_exact c'"
  unfolding lru_exact_def lru_exact_at_def
proof (intro allI impI)
  fix q i a assume "i < LRU_CACHE_SIZE" "cache_map c' ! i = Some a" "path_of (cache_heap c') a = Some q"
  with assms(2) [OF this] assms(1) show "i = hash_path q" by (auto simp: lru_exact_def lru_exact_at_def)
qed

lemma lru_evict_exact:
  assumes rep: "lru_rep c xs" and ex: "lru_exact c" and run: "lru_evict c = Some c'"
  shows "lru_exact c'"
proof (cases "length xs = LRU_CACHE_SIZE")
  case False
  with lru_evict_skip [OF rep] run ex show ?thesis by simp
next
  case True
  then obtain ys t where xs: "xs = ys @ [t]" by (cases xs rule: rev_cases) (auto simp: LRU_CACHE_SIZE_def)
  have rep': "lru_rep c (ys @ [t])" and full: "length (ys @ [t]) = LRU_CACHE_SIZE" using rep True xs by simp_all
  obtain q where q: "path_of (cache_heap c) t = Some q" using path_of_nodes [OF rep', of t] by auto
  from lru_evict_run [OF rep' full q] run have c':
    "node_data (cache_heap c') = (node_data (cache_heap c))(t := None)"
    "cache_map c' = clear_slot (cache_map c) (hash_path q) t" by auto
  have h: "hash_path q < length (cache_map c)" using rep hash_path_less by (simp add: lru_rep_def)
  have slot: "cache_map c ! i = Some a" if "cache_map c' ! i = Some a" for i a
    using that c'(2) h by (cases "i = hash_path q") (auto simp: clear_slot_def split: if_splits)
  have path: "path_of (cache_heap c) a = Some r" if "path_of (cache_heap c') a = Some r" for a r
    using that c'(1) by (auto simp: path_of_data split: if_splits)
  show ?thesis by (rule lru_exact_mono [OF ex]) (simp add: slot path)
qed

lemma lru_put_exact:
  assumes rep: "lru_rep c xs" and live: "lru_live c xs" and miss: "lru_hit c xs p = None" and n: "length xs \<le> LRU_CACHE_SIZE"
    and ex: "lru_exact c" and p: "length p < MAX_PATH_LEN" and run: "lru_put m c p v = Some c'"
  shows "lru_exact c'"
proof -
  obtain c1 ys where c1: "lru_evict c = Some c1" "lru_rep c1 ys" "lru_live c1 ys"
    using lru_evict_live [OF rep live n] lru_exact_tail [OF ex] by blast
  have ex1: "lru_exact c1" by (rule lru_evict_exact [OF rep ex c1(1)])
  have put: "lru_put m c p v = (if m then lru_new_node c1 p v else Some c1)"
    using lru_scan_slot [OF rep live, of p] miss c1(1) by (auto simp: lru_put_def)
  show ?thesis
  proof (cases m)
    case False
    with put run ex1 show ?thesis by simp
  next
    case True
    with put run lru_new_node_run [OF c1(2) p, of v] have c': "lru_rep c' (cache_fresh c1 # ys)"
      "node_data (cache_heap c') = (node_data (cache_heap c1))(cache_fresh c1 \<mapsto> (p, v))"
      "cache_map c' = (cache_map c1)[hash_path p := Some (cache_fresh c1)]" by auto
    have h: "hash_path p < length (cache_map c1)" using c1(2) hash_path_less by (simp add: lru_rep_def)
    show ?thesis
    proof (rule lru_exact_mono [OF ex1])
      fix i a q assume i: "i < LRU_CACHE_SIZE" "cache_map c' ! i = Some a" "path_of (cache_heap c') a = Some q"
      show "i = hash_path q \<or> cache_map c1 ! i = Some a \<and> path_of (cache_heap c1) a = Some q"
      proof (cases "i = hash_path p")
        case True
        with i c'(2,3) h show ?thesis by (auto simp: path_of_data)
      next
        case False
        with i(2) c'(3) have m: "cache_map c1 ! i = Some a" by simp
        with c1(3) i(1) have "a \<in> set ys" by (auto simp: lru_live_def)
        then have "a \<noteq> cache_fresh c1" using c'(1) by (auto simp: lru_rep_def)
        with m i(3) c'(2) show ?thesis by (simp add: path_of_data)
      qed
    qed
  qed
qed

lemma lru_get_exact:
  assumes "lru_rep c xs" and "lru_live c xs" and "lru_get c p = Some (c', r)"
  shows "lru_exact c' = lru_exact c"
proof (cases "lru_hit c xs p")
  case None
  with lru_get_miss [OF assms(1,2) None] assms(3) show ?thesis by simp
next
  case (Some a)
  from lru_get_hit [OF assms(1,2) Some] assms(3) have "node_data (cache_heap c') = node_data (cache_heap c)"
    "cache_map c' = cache_map c" by auto
  then show ?thesis by (intro lru_exact_cong) (simp_all add: path_of_data)
qed

subsection \<open>Slots that no longer agree with the list\<close>

text \<open>
  The cache uses a freed node. After the removal of a path its slot points to the next node
  of the list; the removal of that node's path leaves this pointer behind, and a lookup of
  the first path then has no result.
\<close>

lemma lru_get_freed:
  assumes "length (cache_map c) = LRU_CACHE_SIZE" and "cache_map c ! hash_path p = Some b" and "cache_heap c b = None"
  shows "lru_get c p = None"
  using assms hash_path_less [of p] by (simp add: lru_get_def lru_scan.simps)

lemma lru_use_after_free:
  assumes sim: "lru_sim c (es1 @ (p, vp) # (q, vq) # es2)" and exact: "lru_exact_at c p"
    and "lru_remove c p = Some c1" and "lru_remove c1 q = Some c2"
  shows "lru_get c2 p = None"
proof -
  obtain xs where xs: "lru_rep c xs" "lru_live c xs" "lru_own c xs"
    "map (node_data (cache_heap c)) xs = map Some (es1 @ (p, vp) # (q, vq) # es2)"
    using sim by (auto simp: lru_sim_def)
  then obtain us a b zs where us: "xs = us @ a # b # zs" "node_data (cache_heap c) a = Some (p, vp)"
    "node_data (cache_heap c) b = Some (q, vq)" by (auto simp: map_eq_append_conv map_eq_Cons_conv)
  have d: "distinct (us @ a # b # zs)" using xs(1) us(1) by (simp add: lru_rep_def)
  have paths: "path_of (cache_heap c) a = Some p" "path_of (cache_heap c) b = Some q"
    using us(2,3) by (simp_all add: path_of_data)
  then have slots: "cache_map c ! hash_path p = Some a" "cache_map c ! hash_path q = Some b"
    using xs(3) us(1) by (simp_all add: lru_own_def)
  then have h: "hash_path p \<noteq> hash_path q" using d by auto
  have "lru_hit c xs p = Some a" using lru_hit_own [OF xs(3,1), of p a] us(1) paths by simp
  from lru_remove_hit [OF xs(1,2) this] assms(3) obtain ys ws where c1: "xs = ys @ a # ws"
    "node_data (cache_heap c1) = (node_data (cache_heap c))(a := None)"
    "cache_map c1 = (cache_map c)[hash_path p := first_ptr ws None]" using slots(1) by auto
  have "ws = b # zs" using c1(1) us(1) d by (auto simp: append_eq_append_conv2 append_eq_Cons_conv Cons_eq_append_conv)
  have len: "length (cache_map c) = LRU_CACHE_SIZE" using xs(1) by (simp add: lru_rep_def)
  have m1: "cache_map c1 ! hash_path p = Some b" "cache_map c1 ! hash_path q = Some b"
    using c1(3) \<open>ws = b # zs\<close> len hash_path_less h slots(2) by simp_all
  have "lru_sim c1 (ideal_remove (es1 @ (p, vp) # (q, vq) # es2) p)"
    using sim_remove [OF sim exact] assms(3) by simp
  then obtain xs1 where xs1: "lru_rep c1 xs1" "lru_live c1 xs1" "lru_own c1 xs1" by (auto simp: lru_sim_def)
  have b1: "path_of (cache_heap c1) b = Some q" using c1(2) us(3) d by (auto simp: path_of_data)
  then have "lru_hit c1 xs1 q = Some b" using lru_hit_own [OF xs1(3,1)] path_of_in [OF xs1(1)] by blast
  from lru_remove_hit [OF xs1(1,2) this] assms(4) obtain ts where c2:
    "node_data (cache_heap c2) = (node_data (cache_heap c1))(b := None)"
    "cache_map c2 = (cache_map c1)[hash_path q := first_ptr ts None]" using m1(2) by auto
  have "node_data (cache_heap c2) b = None" using c2(1) by simp
  then have "cache_heap c2 b = None" by (simp add: node_data_def)
  moreover have "cache_map c2 ! hash_path p = Some b" using c2(2) m1(1) h by simp
  moreover have "length (cache_map c2) = LRU_CACHE_SIZE" using c2(2) c1(3) len by simp
  ultimately show ?thesis by (intro lru_get_freed)
qed

text \<open>
  A node that the slot of its own path does not point to: the first lookup moves it to the
  front, from where the slot's node no longer leads to it.
\<close>

lemma lru_hidden_node:
  assumes rep: "lru_rep c xs" and live: "lru_live c xs" and hit: "lru_hit c xs p = Some a"
    and b: "cache_map c ! hash_path p = Some b" "b \<noteq> a"
    and only: "\<And>x. path_of (cache_heap c) x = Some p \<Longrightarrow> x = a"
  shows "\<exists>c' v. lru_get c p = Some (c', Some v) \<and> node_data (cache_heap c') a = Some (p, v) \<and>
    lru_rep c' (a # remove1 a xs) \<and> lru_live c' (a # remove1 a xs) \<and> lru_hit c' (a # remove1 a xs) p = None"
proof -
  obtain c' v where c': "lru_get c p = Some (c', Some v)" "node_data (cache_heap c) a = Some (p, v)"
    "lru_rep c' (a # remove1 a xs)" "node_data (cache_heap c') = node_data (cache_heap c)" "cache_map c' = cache_map c"
    using lru_get_hit [OF rep live hit] by blast
  let ?ys = "a # remove1 a xs"
  have ys: "set ?ys = set xs" using lru_hit_Some(1) [OF hit] rep by (auto simp: lru_rep_def)
  have "lru_live c' ?ys" using live c'(5) ys by (simp add: lru_live_def)
  moreover have "a \<notin> set (slot_list c' ?ys (hash_path p))"
  proof -
    have "distinct (remove1 a xs)" "a \<notin> set (remove1 a xs)" using c'(3) by (auto simp: lru_rep_def)
    then show ?thesis using b c'(5) by (auto simp: slot_list_def dest: set_dropWhileD)
  qed
  then have "lru_hit c' ?ys p = None"
    using only c'(4) by (auto simp: lru_hit_def find_None_iff path_of_data)
  ultimately show ?thesis using c' by auto
qed

lemma lru_put_new:
  assumes "lru_rep c xs" and "lru_live c xs" and "lru_hit c xs p = None" and "length xs < 100"
    and "length p < MAX_PATH_LEN"
  shows "\<exists>c' n. lru_put True c p v = Some c' \<and> n \<notin> set xs \<and> lru_rep c' (n # xs) \<and> lru_live c' (n # xs) \<and>
    node_data (cache_heap c') = (node_data (cache_heap c))(n \<mapsto> (p, v)) \<and>
    cache_map c' = (cache_map c)[hash_path p := Some n] \<and> lru_hit c' (n # xs) p = Some n"
proof -
  have evict: "lru_evict c = Some c" using assms(1,4) by (intro lru_evict_skip) (auto simp: LRU_CACHE_SIZE_def)
  obtain c' where c': "lru_new_node c p v = Some c'" "lru_rep c' (cache_fresh c # xs)"
    "node_data (cache_heap c') = (node_data (cache_heap c))(cache_fresh c \<mapsto> (p, v))"
    "cache_map c' = (cache_map c)[hash_path p := Some (cache_fresh c)]"
    using lru_new_node_run [OF assms(1,5)] by blast
  have "lru_put True c p v = Some c'"
    using lru_scan_slot [OF assms(1,2), of p] assms(3) evict c'(1) by (auto simp: lru_put_def)
  moreover have h: "hash_path p < length (cache_map c)" using assms(1) hash_path_less by (simp add: lru_rep_def)
  then have "lru_live c' (cache_fresh c # xs)" using assms(2) c'(4)
    by (auto simp: lru_live_def nth_list_update split: if_splits)
  moreover have "lru_hit c' (cache_fresh c # xs) p = Some (cache_fresh c)"
    using c'(3,4) h by (simp add: lru_hit_def slot_list_def path_of_data)
  moreover have "cache_fresh c \<notin> set xs" using assms(1) by (auto simp: lru_rep_def)
  ultimately show ?thesis using c' by blast
qed

text \<open>
  The older of two nodes of a path: the newer one, in front of it and found from the slot,
  is removed, the slot then points to the older one, and the next lookup returns its value.
\<close>

lemma lru_older_node:
  assumes rep: "lru_rep c (n # a # xs)" and live: "lru_live c (n # a # xs)"
    and n: "node_data (cache_heap c) n = Some (p, w)" and a: "node_data (cache_heap c) a = Some (p, v)"
    and slot: "cache_map c ! hash_path p = Some n"
    and own: "\<forall>i < LRU_CACHE_SIZE. cache_map c ! i = Some n \<longrightarrow> i = hash_path p"
  shows "\<exists>c1 c2. lru_remove c p = Some c1 \<and> lru_get c1 p = Some (c2, Some v)"
proof -
  have d: "distinct (n # a # xs)" using rep by (simp add: lru_rep_def)
  have hit: "lru_hit c (n # a # xs) p = Some n" using slot n by (simp add: lru_hit_def slot_list_def path_of_data)
  from lru_remove_hit [OF rep live hit] obtain c1 ys zs where c1: "n # a # xs = ys @ n # zs"
    "lru_remove c p = Some c1" "lru_rep c1 (ys @ zs)"
    "node_data (cache_heap c1) = (node_data (cache_heap c))(n := None)"
    "cache_map c1 = (cache_map c)[hash_path p := first_ptr zs None]" using slot by auto
  have z: "ys = []" "zs = a # xs" using c1(1) d by (auto simp: Cons_eq_append_conv)
  have h: "hash_path p < length (cache_map c)" "length (cache_map c) = LRU_CACHE_SIZE"
    using rep hash_path_less by (simp_all add: lru_rep_def)
  have "lru_live c1 (a # xs)"
    unfolding lru_live_def
  proof (intro allI impI)
    fix i b assume i: "i < LRU_CACHE_SIZE" "cache_map c1 ! i = Some b"
    show "b \<in> set (a # xs)"
    proof (cases "i = hash_path p")
      case True
      with i(2) c1(5) z h show ?thesis by simp
    next
      case False
      with i(2) c1(5) have "cache_map c ! i = Some b" by simp
      with own live i(1) False show ?thesis by (auto simp: lru_live_def)
    qed
  qed
  moreover have "lru_hit c1 (a # xs) p = Some a"
    using c1(4,5) z h a d by (simp add: lru_hit_def slot_list_def path_of_data)
  ultimately obtain c2 v' where "lru_get c1 p = Some (c2, Some v')" "node_data (cache_heap c1) a = Some (p, v')"
    using lru_get_hit [of c1 "a # xs" p a] c1(3) z by auto
  with c1(2,4) a d show ?thesis by auto
qed

text \<open>
  Property C31: two paths with the same hash break the cache. Let \<open>p\<close> and then \<open>q\<close>, of the
  same hash, be inserted into an intact cache that has room and holds neither. The first
  lookup of \<open>p\<close> answers and moves its node before the one its slot points to, so that the
  second misses it; the insertion that follows the miss makes a second node, and after
  \<open>lru_remove\<close> of \<open>p\<close> the first one answers with the old value.
\<close>

theorem lru_stale_after_remove:
  assumes rep: "lru_rep c xs" and live: "lru_live c xs" and room: "length xs \<le> 97"
    and new: "{p, q} \<inter> {r. \<exists>a. path_of (cache_heap c) a = Some r} = {}"
    and coll: "hash_path p = hash_path q" "p \<noteq> q" and len: "length p < 1024" "length q < 1024"
  shows "\<exists>c'. do {
     c \<leftarrow> lru_put True c p v; c \<leftarrow> lru_put True c q u;
     (c, r1) \<leftarrow> lru_get c p;
     (c, r2) \<leftarrow> lru_get c p;
     c \<leftarrow> lru_put True c p w;
     c \<leftarrow> lru_remove c p;
     (c, r3) \<leftarrow> lru_get c p;
     Some (c, [r1, r2, r3]) } = Some (c', [Some v, None, Some v])"
proof -
  have none: "path_of (cache_heap c) a \<noteq> Some p" "path_of (cache_heap c) a \<noteq> Some q" for a using new by auto
  have len': "length p < MAX_PATH_LEN" "length q < MAX_PATH_LEN" using len by (simp_all add: MAX_PATH_LEN_def)
  have "lru_hit c xs p = None" using none by (simp add: lru_hit_def find_None_iff)
  from lru_put_new [OF rep live this _ len'(1), of v] room obtain c1 a where c1: "lru_put True c p v = Some c1"
    "a \<notin> set xs" "lru_rep c1 (a # xs)" "lru_live c1 (a # xs)"
    "node_data (cache_heap c1) = (node_data (cache_heap c))(a \<mapsto> (p, v))"
    "cache_map c1 = (cache_map c)[hash_path p := Some a]" by auto
  have p1: "path_of (cache_heap c1) x = (if x = a then Some p else path_of (cache_heap c) x)" for x
    using c1(5) by (simp add: path_of_data)
  have "lru_hit c1 (a # xs) q = None" using none p1 coll(2) by (auto simp: lru_hit_def find_None_iff)
  from lru_put_new [OF c1(3,4) this _ len'(2), of u] room obtain c2 b where c2: "lru_put True c1 q u = Some c2"
    "b \<notin> set (a # xs)" "lru_rep c2 (b # a # xs)" "lru_live c2 (b # a # xs)"
    "node_data (cache_heap c2) = (node_data (cache_heap c1))(b \<mapsto> (q, u))"
    "cache_map c2 = (cache_map c1)[hash_path q := Some b]" by auto
  have p2: "path_of (cache_heap c2) x = (if x = b then Some q else path_of (cache_heap c1) x)" for x
    using c2(5) by (simp add: path_of_data)
  have hl: "hash_path p < length (cache_map c1)" using c1(3) hash_path_less by (simp add: lru_rep_def)
  have slot2: "cache_map c2 ! hash_path p = Some b" using c2(6) coll(1) hl by simp
  then have hit2: "lru_hit c2 (b # a # xs) p = Some a"
    using p2 p1 coll(2) c2(2) by (auto simp: lru_hit_def slot_list_def)
  have only: "x = a" if "path_of (cache_heap c2) x = Some p" for x
    using that p2 p1 none coll(2) by (auto split: if_splits)
  have rm: "a # remove1 a (b # a # xs) = a # b # xs" using c2(2) by auto
  from lru_hidden_node [OF c2(3,4) hit2 slot2 _ only, unfolded rm] c2(2) obtain c3 v' where
    c3: "lru_get c2 p = Some (c3, Some v')" "node_data (cache_heap c3) a = Some (p, v')"
    "lru_rep c3 (a # b # xs)" "lru_live c3 (a # b # xs)" "lru_hit c3 (a # b # xs) p = None" by auto
  note miss = lru_get_miss [OF c3(3-5)]
  from lru_put_new [OF c3(3-5) _ len'(1), of w] room obtain c4 n where c4: "lru_put True c3 p w = Some c4"
    "n \<notin> set (a # b # xs)" "lru_rep c4 (n # a # b # xs)" "lru_live c4 (n # a # b # xs)"
    "node_data (cache_heap c4) = (node_data (cache_heap c3))(n \<mapsto> (p, w))"
    "cache_map c4 = (cache_map c3)[hash_path p := Some n]" by auto
  have h4: "hash_path p < length (cache_map c3)" using c3(3) hash_path_less by (simp add: lru_rep_def)
  have "node_data (cache_heap c4) n = Some (p, w)" "node_data (cache_heap c4) a = Some (p, v')"
    "cache_map c4 ! hash_path p = Some n" using c4(2,5,6) c3(2) h4 by auto
  moreover have "\<forall>i < LRU_CACHE_SIZE. cache_map c4 ! i = Some n \<longrightarrow> i = hash_path p"
  proof (intro allI impI, rule ccontr)
    fix i assume i: "i < LRU_CACHE_SIZE" "cache_map c4 ! i = Some n" "i \<noteq> hash_path p"
    then have "cache_map c3 ! i = Some n" using c4(6) by simp
    with i(1) c3(4) c4(2) show False by (auto simp: lru_live_def)
  qed
  ultimately obtain c5 c6 where c5: "lru_remove c4 p = Some c5" "lru_get c5 p = Some (c6, Some v')"
    using lru_older_node [OF c4(3,4)] by blast
  from lru_get_hit [OF c2(3,4) hit2] c3(1) have "node_data (cache_heap c2) a = Some (p, v')" by auto
  then have "v' = v" using c2(2,5) c1(5) by auto
  with c1(1) c2(1) c3(1) miss c4(1) c5 show ?thesis by simp
qed

theorem lru_stale_after_remove_witness:
  "\<exists>c'. do {
     c \<leftarrow> lru_put True lru_init ''a'' zero_ss_info; c \<leftarrow> lru_put True c ''aZ'' zero_ss_info;
     (c, r1) \<leftarrow> lru_get c ''a'';
     (c, r2) \<leftarrow> lru_get c ''a'';
     c \<leftarrow> lru_put True c ''a'' zero_ss_info;
     c \<leftarrow> lru_remove c ''a'';
     (c, r3) \<leftarrow> lru_get c ''a'';
     Some (c, [r1, r2, r3]) } = Some (c', [Some zero_ss_info, None, Some zero_ss_info])"
proof (rule lru_stale_after_remove)
  show "lru_rep lru_init []" by (rule lru_rep_init)
  show "lru_live lru_init []" using lru_sim_init by (simp add: lru_live_def lru_init_def)
  show "hash_path ''a'' = hash_path ''aZ''" by code_simp
qed (simp_all add: path_of_def lru_init_def)

text \<open>
  Destroying an intact cache frees every node, each once, and leaves it empty.
\<close>

theorem lru_destroy_frees:
  assumes "lru_rep c xs"
  shows "lru_free_all (cache_heap c) (cache_head c) = Some (\<lambda>_. None) \<and>
    (\<exists>c'. lru_destroy c = Some c' \<and> lru_rep c' [])"
proof -
  have "cache_heap c |` (- set xs) = (\<lambda>_. None)"
    using assms by (auto simp: lru_rep_def restrict_map_def domIff fun_eq_iff)
  with assms have "lru_free_all (cache_heap c) (cache_head c) = Some (\<lambda>_. None)"
    using lru_free_all_run by (auto simp: lru_rep_def)
  moreover have "lru_rep (lru_init\<lparr>cache_fresh := cache_fresh c\<rparr>) []"
    by (simp add: lru_rep_def lru_init_def)
  ultimately show ?thesis using lru_destroy_run [OF assms] by blast
qed

end
