(* ===== verification/Naming_Server.thy ===== *)
theory Naming_Server
  imports Trie Lru_Props Net
begin

text \<open>
  \<open>src/naming_server.c\<close>: the registered storage servers, the round-robin selection, the
  trie and the cache, and the handler of one connection. A pointer into the static array
  \<open>registered_ss\<close> is its index. One handler runs to its end before the next one starts;
  the mutex it takes is then free and leaves no trace.
\<close>

record nm_state =
  registered_ss :: "StorageServerInfo list"
  num_registered_ss :: int
  current_ss_index :: int
  path_trie_root :: "int TrieNode"
  path_lru_cache :: LRUCache

text \<open>
  The outcomes of the allocations and of the connections one request makes:
  \<open>env_trie_malloc i\<close> are those of the \<open>i\<close>-th insertion into the trie.
\<close>

record nm_env =
  env_trie_malloc :: "nat \<Rightarrow> nat \<Rightarrow> bool"
  env_lru_malloc :: bool
  env_list_malloc :: bool
  env_peer :: peer

definition nm_init :: nm_state where
  "nm_init = \<lparr>registered_ss = replicate MAX_SS zero_ss_info, num_registered_ss = 0,
     current_ss_index = 0, path_trie_root = TrieNode (\<lambda>_. None) None, path_lru_cache = lru_init\<rparr>"

subsection \<open>Helpers\<close>

definition get_available_ss_for_creation :: "nm_state \<Rightarrow> nm_state \<times> int option" where
  "get_available_ss_for_creation s =
     (if num_registered_ss s > 0 then
        (s\<lparr>current_ss_index := (current_ss_index s + 1) mod num_registered_ss s\<rparr>,
         Some (current_ss_index s))
      else (s, None))"

text \<open>\<open>for (j = i; j < n - 1; j++) strcpy(paths[j], paths[j+1]);\<close>\<close>

definition shift_left :: "string list \<Rightarrow> int \<Rightarrow> int \<Rightarrow> string list c_run" where
  "shift_left paths i n =
     c_for (\<lambda>j ps. do {
       q \<leftarrow> arr_get ps (j + 1);
       q' \<leftarrow> c_strcpy MAX_PATH_LEN q;
       arr_set ps j q'
     }) [i..n - 2] paths"

function remove_path_from :: "int \<Rightarrow> StorageServerInfo \<Rightarrow> string \<Rightarrow> StorageServerInfo c_run" where
  "remove_path_from i ss p =
     (if i < ssi_num_accessible_paths ss then do {
        q \<leftarrow> arr_get (ssi_accessible_paths ss) i;
        if q = p then do {
          ps \<leftarrow> shift_left (ssi_accessible_paths ss) i (ssi_num_accessible_paths ss);
          Some (ss\<lparr>ssi_accessible_paths := ps,
                   ssi_num_accessible_paths := ssi_num_accessible_paths ss - 1\<rparr>)
        } else remove_path_from (i + 1) ss p
      } else Some ss)"
  by pat_completeness auto
termination
  by (relation "measure (\<lambda>(i, ss, p). nat (ssi_num_accessible_paths ss - i))") auto

declare remove_path_from.simps [simp del]

definition remove_path_from_ss_info :: "StorageServerInfo \<Rightarrow> string \<Rightarrow> StorageServerInfo c_run" where
  "remove_path_from_ss_info ss p = remove_path_from 0 ss p"

text \<open>
  What \<open>CREATE_FILE\<close> and \<open>COPY_FILE\<close> do under the mutex once the storage server has
  acknowledged: the path goes into the trie and, if there is room, into the server's list.
\<close>

definition add_path :: "(nat \<Rightarrow> bool) \<Rightarrow> nm_state \<Rightarrow> int \<Rightarrow> string \<Rightarrow> nm_state c_run" where
  "add_path mal s k p = do {
     t \<leftarrow> trie_insert mal (path_trie_root s) p k;
     ss \<leftarrow> arr_get (registered_ss s) k;
     if ssi_num_accessible_paths ss < int MAX_ACCESSIBLE_PATHS then do {
       q \<leftarrow> c_strcpy MAX_PATH_LEN p;
       ps \<leftarrow> arr_set (ssi_accessible_paths ss) (ssi_num_accessible_paths ss) q;
       regs \<leftarrow> arr_set (registered_ss s) k
         (ss\<lparr>ssi_accessible_paths := ps, ssi_num_accessible_paths := ssi_num_accessible_paths ss + 1\<rparr>);
       Some (s\<lparr>path_trie_root := t, registered_ss := regs\<rparr>)
     } else Some (s\<lparr>path_trie_root := t\<rparr>)
   }"

subsection \<open>The cases of the handler\<close>

definition register_path :: "nm_env \<Rightarrow> Message \<Rightarrow> int \<Rightarrow> int \<Rightarrow>
    StorageServerInfo \<times> int TrieNode \<Rightarrow> (StorageServerInfo \<times> int TrieNode) c_run" where
  "register_path env msg k i st = (let (ss, t) = st in do {
     p \<leftarrow> arr_get (msg_accessible_paths msg) i;
     q \<leftarrow> c_strcpy MAX_PATH_LEN p;
     ps \<leftarrow> arr_set (ssi_accessible_paths ss) i q;
     t \<leftarrow> trie_insert (env_trie_malloc env (nat i)) t q k;
     Some (ss\<lparr>ssi_accessible_paths := ps\<rparr>, t)
   })"

definition handle_register :: "nm_env \<Rightarrow> nm_state \<Rightarrow> Message \<Rightarrow> (nm_state \<times> Message) c_run" where
  "handle_register env s msg =
     (if num_registered_ss s < int MAX_SS then do {
        let k = num_registered_ss s;
        ss \<leftarrow> arr_get (registered_ss s) k;
        ip \<leftarrow> c_strcpy INET_ADDRSTRLEN (msg_ss_ip msg);
        let ss = ss\<lparr>ssi_ip := ip, ssi_nm_port := msg_ss_nm_port msg,
                    ssi_client_port := msg_ss_client_port msg,
                    ssi_num_accessible_paths := msg_num_accessible_paths msg\<rparr>;
        (ss, t) \<leftarrow> c_for (register_path env msg k) [0..msg_num_accessible_paths msg - 1]
                     (ss, path_trie_root s);
        regs \<leftarrow> arr_set (registered_ss s) k ss;
        Some (s\<lparr>registered_ss := regs, path_trie_root := t, num_registered_ss := k + 1\<rparr>, ack_message)
      } else Some (s, nack_message SS_UNAVAILABLE))"

definition handle_list :: "nm_env \<Rightarrow> nm_state \<Rightarrow> (nm_state \<times> Message) c_run" where
  "handle_list env s =
     (if \<not> env_list_malloc env then Some (s, nack_message NETWORK_ERROR)
      else do {
        paths \<leftarrow> trie_collect_paths (path_trie_root s);
        let count = int (length paths);
        collected \<leftarrow> c_for (\<lambda>i col. do {
            p \<leftarrow> arr_get paths i;
            col \<leftarrow> c_strcpy (MAX_ACCESSIBLE_PATHS * MAX_PATH_LEN) (col @ p);
            if i < count - 1 then c_strcpy (MAX_ACCESSIBLE_PATHS * MAX_PATH_LEN) (col @ [CHR 0x0A])
            else Some col
          }) [0..count - 1] [];
        d \<leftarrow> c_strcpy MAX_DATA_SIZE collected;
        Some (s, zero_message\<lparr>msg_data := d, msg_data_size := int (length collected),
                              msg_operation := ACK, msg_error_code := SUCCESS\<rparr>)
      })"

definition handle_create :: "nm_env \<Rightarrow> nm_state \<Rightarrow> Message \<Rightarrow> (nm_state \<times> Message) c_run" where
  "handle_create env s msg =
     (if trie_search (path_trie_root s) (msg_path msg) \<noteq> None then Some (s, nack_message FILE_EXISTS)
      else (case get_available_ss_for_creation s of
          (s, None) \<Rightarrow> Some (s, nack_message SS_UNAVAILABLE)
        | (s, Some k) \<Rightarrow> do {
            ss \<leftarrow> arr_get (registered_ss s) k;
            (case open_peer (env_peer env) (ssi_ip ss) (ssi_nm_port ss) of
               Some e \<Rightarrow> Some (s, nack_message e)
             | None \<Rightarrow>
                 (case exchange (env_peer env) (ssi_ip ss) (ssi_nm_port ss) msg of
                    Inl e \<Rightarrow> Some (s, nack_message e)
                  | Inr reply \<Rightarrow>
                      if is_success reply then do {
                        s \<leftarrow> add_path (env_trie_malloc env 0) s k (msg_path msg);
                        Some (s, ack_message)
                      } else Some (s, nack_message (msg_error_code reply))))
          }))"

definition handle_delete :: "nm_env \<Rightarrow> nm_state \<Rightarrow> Message \<Rightarrow> (nm_state \<times> Message) c_run" where
  "handle_delete env s msg =
     (case trie_search (path_trie_root s) (msg_path msg) of
        None \<Rightarrow> Some (s, nack_message FILE_NOT_FOUND)
      | Some k \<Rightarrow> do {
          ss \<leftarrow> arr_get (registered_ss s) k;
          (case open_peer (env_peer env) (ssi_ip ss) (ssi_nm_port ss) of
             Some e \<Rightarrow> Some (s, nack_message e)
           | None \<Rightarrow>
               (case exchange (env_peer env) (ssi_ip ss) (ssi_nm_port ss) msg of
                  Inl e \<Rightarrow> Some (s, nack_message e)
                | Inr reply \<Rightarrow>
                    if is_success reply then do {
                      let t = trie_delete (path_trie_root s) (msg_path msg);
                      cache \<leftarrow> lru_remove (path_lru_cache s) (msg_path msg);
                      ss \<leftarrow> remove_path_from_ss_info ss (msg_path msg);
                      regs \<leftarrow> arr_set (registered_ss s) k ss;
                      Some (s\<lparr>path_trie_root := t, path_lru_cache := cache, registered_ss := regs\<rparr>,
                            ack_message)
                    } else Some (s, nack_message (msg_error_code reply))))
        })"

definition handle_copy :: "nm_env \<Rightarrow> nm_state \<Rightarrow> Message \<Rightarrow> (nm_state \<times> Message) c_run" where
  "handle_copy env s msg =
     (case trie_search (path_trie_root s) (msg_path msg) of
        None \<Rightarrow> Some (s, nack_message FILE_NOT_FOUND)
      | Some k \<Rightarrow>
          (let dest = trie_search (path_trie_root s) (msg_path2 msg);
               dest_path_exists = (dest \<noteq> None)
           in case (if dest_path_exists then (s, dest) else get_available_ss_for_creation s) of
                (s, None) \<Rightarrow> Some (s, nack_message SS_UNAVAILABLE)
              | (s, Some d) \<Rightarrow> do {
                  source_ss \<leftarrow> arr_get (registered_ss s) k;
                  (case open_peer (env_peer env) (ssi_ip source_ss) (ssi_nm_port source_ss) of
                     Some e \<Rightarrow> Some (s, nack_message e)
                   | None \<Rightarrow> do {
                       dest_ss \<leftarrow> arr_get (registered_ss s) d;
                       p \<leftarrow> c_strcpy MAX_PATH_LEN (msg_path msg);
                       p2 \<leftarrow> c_strcpy MAX_PATH_LEN (msg_path2 msg);
                       ip \<leftarrow> c_strcpy INET_ADDRSTRLEN (ssi_ip dest_ss);
                       (case exchange (env_peer env) (ssi_ip source_ss) (ssi_nm_port source_ss)
                               (zero_message\<lparr>msg_operation := COPY_FILE, msg_path := p, msg_path2 := p2,
                                  msg_dest_ss_ip := ip,
                                  msg_dest_ss_client_port := ssi_client_port dest_ss\<rparr>) of
                          Inl e \<Rightarrow> Some (s, nack_message e)
                        | Inr reply \<Rightarrow>
                            if is_success reply then
                              (if \<not> dest_path_exists then do {
                                 s \<leftarrow> add_path (env_trie_malloc env 0) s d (msg_path2 msg);
                                 Some (s, ack_message)
                               } else Some (s, ack_message))
                            else Some (s, nack_message (msg_error_code reply)))
                     })
                }))"

text \<open>\<open>READ_FILE\<close>, \<open>WRITE_FILE\<close> and \<open>GET_FILE_INFO\<close>: the cache, then the trie.\<close>

definition handle_lookup :: "nm_env \<Rightarrow> nm_state \<Rightarrow> Message \<Rightarrow> (nm_state \<times> Message) c_run" where
  "handle_lookup env s msg = do {
     (cache, hit) \<leftarrow> lru_get (path_lru_cache s) (msg_path msg);
     let s = s\<lparr>path_lru_cache := cache\<rparr>;
     (s, info) \<leftarrow> (case hit of
         Some ss \<Rightarrow> Some (s, Some ss)
       | None \<Rightarrow>
           (case trie_search (path_trie_root s) (msg_path msg) of
              None \<Rightarrow> Some (s, None)
            | Some k \<Rightarrow> do {
                ss \<leftarrow> arr_get (registered_ss s) k;
                cache \<leftarrow> lru_put (env_lru_malloc env) (path_lru_cache s) (msg_path msg) ss;
                Some (s\<lparr>path_lru_cache := cache\<rparr>, Some ss)
              }));
     (case info of
        Some ss \<Rightarrow> do {
          ip \<leftarrow> c_strcpy INET_ADDRSTRLEN (ssi_ip ss);
          Some (s, ack_message\<lparr>msg_ss_ip := ip, msg_ss_client_port := ssi_client_port ss\<rparr>)
        }
      | None \<Rightarrow> Some (s, nack_message FILE_NOT_FOUND))
   }"

subsection \<open>The handler and the server\<close>

definition nm_dispatch :: "nm_env \<Rightarrow> nm_state \<Rightarrow> Message \<Rightarrow> (nm_state \<times> Message) c_run" where
  "nm_dispatch env s msg = (case msg_operation msg of
       REGISTER_SS \<Rightarrow> handle_register env s msg
     | LIST_PATHS \<Rightarrow> handle_list env s
     | CREATE_FILE \<Rightarrow> handle_create env s msg
     | DELETE_FILE \<Rightarrow> handle_delete env s msg
     | COPY_FILE \<Rightarrow> handle_copy env s msg
     | READ_FILE \<Rightarrow> handle_lookup env s msg
     | WRITE_FILE \<Rightarrow> handle_lookup env s msg
     | GET_FILE_INFO \<Rightarrow> handle_lookup env s msg
     | _ \<Rightarrow> Some (s, nack_message INVALID_OPERATION))"

text \<open>
  \<open>handle_connection\<close>: the request as \<open>recv\<close> leaves it, and the response if one is sent.
\<close>

definition handle_connection :: "nm_env \<Rightarrow> nm_state \<Rightarrow> int \<times> Message \<Rightarrow> (nm_state \<times> Message option) c_run" where
  "handle_connection env s r = (case receive_message r of
     (code, msg) \<Rightarrow>
       if code \<noteq> 0 then Some (s, None)
       else do { (s, resp) \<leftarrow> nm_dispatch env s msg; Some (s, Some resp) })"

text \<open>The accept loop over a list of connections, and its responses.\<close>

fun nm_serve :: "nm_state \<Rightarrow> (nm_env \<times> int \<times> Message) list \<Rightarrow> (nm_state \<times> Message option list) c_run" where
  "nm_serve s [] = Some (s, [])"
| "nm_serve s ((env, r) # rest) = do {
     (s, resp) \<leftarrow> handle_connection env s r;
     (s, resps) \<leftarrow> nm_serve s rest;
     Some (s, resp # resps)
   }"

end
