(* ===== verification/Naming_Correct.thy ===== *)
theory Naming_Correct
  imports Naming_Server
begin

text \<open>
  The naming server's invariant and what each case of its handler does: to the directory
  (the map from paths to servers that the trie stands for), to the records of the
  servers and to the response.
\<close>

subsection \<open>Well-formed records and the invariant\<close>

definition ss_wf :: "StorageServerInfo \<Rightarrow> bool" where
  "ss_wf ss \<longleftrightarrow> length (ssi_accessible_paths ss) = MAX_ACCESSIBLE_PATHS \<and>
     0 \<le> ssi_num_accessible_paths ss \<and> ssi_num_accessible_paths ss \<le> int MAX_ACCESSIBLE_PATHS \<and>
     length (ssi_ip ss) < INET_ADDRSTRLEN \<and>
     (\<forall>p \<in> set (ssi_accessible_paths ss). length p < MAX_PATH_LEN)"

text \<open>The paths a record lists: the first \<open>num_accessible_paths\<close> of its array.\<close>

definition listed :: "StorageServerInfo \<Rightarrow> string list" where
  "listed ss = take (nat (ssi_num_accessible_paths ss)) (ssi_accessible_paths ss)"

abbreviation nm_dir :: "nm_state \<Rightarrow> string \<Rightarrow> int option" where
  "nm_dir s \<equiv> trie_search (path_trie_root s)"

definition nm_inv :: "nm_state \<Rightarrow> bool" where
  "nm_inv s \<longleftrightarrow> length (registered_ss s) = MAX_SS \<and>
     0 \<le> num_registered_ss s \<and> num_registered_ss s \<le> int MAX_SS \<and>
     0 \<le> current_ss_index s \<and> current_ss_index s < max 1 (num_registered_ss s) \<and>
     (\<forall>ss \<in> set (registered_ss s). ss_wf ss) \<and>
     (\<forall>p k. nm_dir s p = Some k \<longrightarrow> 0 \<le> k \<and> k < num_registered_ss s) \<and>
     trie_fits 0 (path_trie_root s)"

lemma ss_wf_zero: "ss_wf zero_ss_info"
  by (simp add: ss_wf_def zero_ss_info_def size_defs)

lemma trie_search_empty [simp]: "trie_search (TrieNode (\<lambda>_. None) None) p = None"
  by (cases p) auto

lemma trie_node_at_empty [simp]: "trie_node_at (TrieNode (\<lambda>_. None) None) p = (if p = [] then Some (TrieNode (\<lambda>_. None) None) else None)"
  by (cases p) auto

lemma nm_inv_init: "nm_inv nm_init"
  by (auto simp: nm_inv_def nm_init_def ss_wf_zero trie_fits_def prefix_children_mem MAX_PATH_LEN_def
      split: if_splits)

lemma nm_inv_server:
  assumes "nm_inv s" and "0 \<le> k" and "k < num_registered_ss s"
  shows "arr_get (registered_ss s) k = Some (registered_ss s ! nat k)" and "ss_wf (registered_ss s ! nat k)"
    and "nat k < length (registered_ss s)"
proof -
  have "nat k < length (registered_ss s)" "k < int (length (registered_ss s))"
    using assms by (auto simp: nm_inv_def)
  with assms show "arr_get (registered_ss s) k = Some (registered_ss s ! nat k)"
    "ss_wf (registered_ss s ! nat k)" "nat k < length (registered_ss s)"
    by (auto simp: nm_inv_def)
qed

lemma nm_inv_dir:
  "nm_inv s \<Longrightarrow> nm_dir s p = Some k \<Longrightarrow> 0 \<le> k \<and> k < num_registered_ss s"
  by (simp add: nm_inv_def)

subsection \<open>Round robin\<close>

lemma get_available_some:
  "num_registered_ss s > 0 \<Longrightarrow> get_available_ss_for_creation s =
     (s\<lparr>current_ss_index := (current_ss_index s + 1) mod num_registered_ss s\<rparr>, Some (current_ss_index s))"
  by (simp add: get_available_ss_for_creation_def)

lemma get_available_none:
  "\<not> num_registered_ss s > 0 \<Longrightarrow> get_available_ss_for_creation s = (s, None)"
  by (simp add: get_available_ss_for_creation_def)

lemma nm_inv_advance:
  "nm_inv s \<Longrightarrow> num_registered_ss s > 0 \<Longrightarrow>
     nm_inv (s\<lparr>current_ss_index := (current_ss_index s + 1) mod num_registered_ss s\<rparr>)"
  by (simp add: nm_inv_def)

text \<open>The servers that \<open>n\<close> selections in a row return.\<close>

fun select_many :: "nat \<Rightarrow> nm_state \<Rightarrow> int option list" where
  "select_many 0 s = []"
| "select_many (Suc n) s = (case get_available_ss_for_creation s of (s', r) \<Rightarrow> r # select_many n s')"

lemma select_many_eq:
  "num_registered_ss s > 0 \<Longrightarrow> 0 \<le> current_ss_index s \<Longrightarrow> current_ss_index s < num_registered_ss s \<Longrightarrow>
     select_many n s = map (\<lambda>i. Some ((current_ss_index s + int i) mod num_registered_ss s)) [0..<n]"
proof (induction n arbitrary: s)
  case 0
  then show ?case by simp
next
  case (Suc n)
  let ?s = "s\<lparr>current_ss_index := (current_ss_index s + 1) mod num_registered_ss s\<rparr>"
  have "select_many n ?s = map (\<lambda>i. Some ((current_ss_index ?s + int i) mod num_registered_ss ?s)) [0..<n]"
    using Suc.prems by (intro Suc.IH) simp_all
  also have "\<dots> = map (\<lambda>i. Some ((current_ss_index s + int (Suc i)) mod num_registered_ss s)) [0..<n]"
    by (simp add: mod_add_left_eq add.assoc)
  finally show ?case
    using Suc.prems by (simp add: get_available_some map_upt_Suc del: upt_Suc)
qed

subsection \<open>Removing a path from a record\<close>

lemma upto_split:
  "[i..n] = don @ (j :: int) # rest \<Longrightarrow> set don = {i..<j} \<and> i \<le> j \<and> j \<le> n"
proof -
  assume split: "[i..n] = don @ j # rest"
  have s: "sorted_wrt (<) (don @ j # rest)"
    by (simp only: flip: split) simp
  have m: "set [i..n] = set don \<union> {j} \<union> set rest" unfolding split by auto
  then have "j \<in> {i..n}" "set don \<subseteq> {i..n}" "set rest \<subseteq> {i..n}" by auto
  moreover have "\<forall>x \<in> set don. x < j" "\<forall>x \<in> set rest. j < x" using s by (auto simp: sorted_wrt_append)
  moreover have "x \<in> set don" if "i \<le> x" "x < j" for x
  proof -
    have "x \<in> set [i..n]" using that \<open>j \<in> {i..n}\<close> by simp
    with m that \<open>\<forall>x \<in> set rest. j < x\<close> show ?thesis by auto
  qed
  ultimately show ?thesis by auto
qed

lemma shift_left_run:
  assumes "0 \<le> i" and "n \<le> int (length ps)" and "\<forall>p \<in> set ps. length p < MAX_PATH_LEN"
  shows "\<exists>qs. shift_left ps i n = Some qs \<and> length qs = length ps \<and>
    (\<forall>x < length ps. qs ! x = (if i \<le> int x \<and> int x \<le> n - 2 then ps ! Suc x else ps ! x))"
proof -
  let ?I = "\<lambda>don s. length s = length ps \<and>
    (\<forall>x < length ps. s ! x = (if int x \<in> set don then ps ! Suc x else ps ! x))"
  have "\<exists>qs. shift_left ps i n = Some qs \<and> ?I [i..n - 2] qs"
    unfolding shift_left_def
  proof (rule c_for_invariant)
    show "?I [] ps" by simp
  next
    fix don j rest s
    assume split: "[i..n - 2] = don @ j # rest" and I: "?I don s"
    from upto_split [OF split] have don: "set don = {i..<j}" and j: "i \<le> j" "j \<le> n - 2" by auto
    have len: "j + 1 < int (length s)" "0 \<le> j" using j assms I by auto
    have get: "s ! nat (j + 1) = ps ! Suc (nat j)" using I don len assms(1) by (simp add: nat_add_distrib)
    moreover have "length (ps ! Suc (nat j)) < MAX_PATH_LEN"
      using assms(3) len I by (intro bspec [OF assms(3)] nth_mem) linarith
    moreover have "?I (don @ [j]) (s[nat j := ps ! Suc (nat j)])"
      using I len by (auto simp: nth_list_update)
    ultimately show "\<exists>s'. (do { q \<leftarrow> arr_get s (j + 1); q' \<leftarrow> c_strcpy MAX_PATH_LEN q; arr_set s j q' }) = Some s'
        \<and> ?I (don @ [j]) s'"
      using len by (intro exI [of _ "s[nat j := ps ! Suc (nat j)]"]) simp
  qed
  then show ?thesis by auto
qed

lemma remove_path_from_run:
  assumes "ss_wf ss" and "0 \<le> i"
  shows "\<exists>ss'. remove_path_from i ss p = Some ss' \<and> ss_wf ss' \<and>
    listed ss' = take (nat i) (listed ss) @ remove1 p (drop (nat i) (listed ss)) \<and>
    ssi_ip ss' = ssi_ip ss \<and> ssi_nm_port ss' = ssi_nm_port ss \<and> ssi_client_port ss' = ssi_client_port ss"
  using assms
proof (induction i ss p rule: remove_path_from.induct)
  case (1 i ss p)
  let ?ps = "ssi_accessible_paths ss" and ?n = "ssi_num_accessible_paths ss"
  have wf: "length ?ps = 10" "0 \<le> ?n" "?n \<le> 10" using "1.prems" by (auto simp: ss_wf_def size_defs)
  show ?case
  proof (cases "i < ?n")
    case False
    then have "length (listed ss) \<le> nat i" using wf by (simp add: listed_def)
    with False "1.prems" show ?thesis by (subst remove_path_from.simps) simp
  next
    case True
    have get: "arr_get ?ps i = Some (?ps ! nat i)" using True wf "1.prems" by simp
    have len: "nat i < length (listed ss)" using True wf "1.prems"(2) by (simp add: listed_def)
    have nth: "listed ss ! nat i = ?ps ! nat i" using True "1.prems"(2) by (simp add: listed_def)
    have drop: "drop (nat i) (listed ss) = ?ps ! nat i # drop (Suc (nat i)) (listed ss)"
      using len nth by (metis Cons_nth_drop_Suc)
    show ?thesis
    proof (cases "?ps ! nat i = p")
      case False
      from "1.IH" [OF True get False] "1.prems" obtain ss' where ss':
        "remove_path_from (i + 1) ss p = Some ss'" "ss_wf ss'"
        "listed ss' = take (nat (i + 1)) (listed ss) @ remove1 p (drop (nat (i + 1)) (listed ss))"
        "ssi_ip ss' = ssi_ip ss" "ssi_nm_port ss' = ssi_nm_port ss" "ssi_client_port ss' = ssi_client_port ss"
        by auto
      have "nat (i + 1) = Suc (nat i)" using "1.prems"(2) by simp
      then have "listed ss' = take (nat i) (listed ss) @ remove1 p (drop (nat i) (listed ss))"
        using ss'(3) drop False len nth by (simp add: take_Suc_conv_app_nth)
      with ss' True get False show ?thesis by (subst remove_path_from.simps) simp
    next
      case True': True
      have "\<forall>q \<in> set ?ps. length q < MAX_PATH_LEN" using "1.prems"(1) by (simp add: ss_wf_def)
      then obtain qs where qs: "shift_left ?ps i ?n = Some qs" "length qs = length ?ps"
        "\<forall>x < length ?ps. qs ! x = (if i \<le> int x \<and> int x \<le> ?n - 2 then ?ps ! Suc x else ?ps ! x)"
        using shift_left_run [of i ?n ?ps] "1.prems"(2) wf by auto
      let ?ss = "ss\<lparr>ssi_accessible_paths := qs, ssi_num_accessible_paths := ?n - 1\<rparr>"
      have "set qs \<subseteq> set ?ps"
      proof
        fix q assume "q \<in> set qs"
        then obtain x where x: "x < length ?ps" "q = qs ! x" using qs(2) by (auto simp: in_set_conv_nth)
        then have "q = ?ps ! Suc x \<and> Suc x < length ?ps \<or> q = ?ps ! x" using qs(3) wf by auto
        with x(1) show "q \<in> set ?ps" by auto
      qed
      then have "ss_wf ?ss"
        using "1.prems" qs(2) wf True by (auto simp: ss_wf_def size_defs)
      moreover have "listed ?ss = take (nat i) (listed ss) @ drop (Suc (nat i)) (listed ss)"
        using qs(2,3) wf True "1.prems"(2)
        by (intro nth_equalityI) (auto simp: listed_def nth_append)
      ultimately show ?thesis using True True' get qs(1) drop by (subst remove_path_from.simps) simp
    qed
  qed
qed

subsection \<open>Registration\<close>

definition all_malloc :: "nm_env \<Rightarrow> bool" where
  "all_malloc env \<longleftrightarrow> (\<forall>i j. env_trie_malloc env i j) \<and> env_lru_malloc env \<and> env_list_malloc env"

lemma register_loop_run:
  assumes env: "all_malloc env" and wf: "wf_message m"
    and n: "n \<le> int MAX_ACCESSIBLE_PATHS" and len: "length (ssi_accessible_paths ss) = MAX_ACCESSIBLE_PATHS"
    and fits: "trie_fits 0 t"
  shows "\<exists>ps t'. c_for (register_path env m k) [0..n - 1] (ss, t) = Some (ss\<lparr>ssi_accessible_paths := ps\<rparr>, t') \<and>
    length ps = MAX_ACCESSIBLE_PATHS \<and>
    (\<forall>x < MAX_ACCESSIBLE_PATHS. ps ! x = (if int x < n then msg_accessible_paths m ! x else ssi_accessible_paths ss ! x)) \<and>
    trie_search t' = (\<lambda>q. if q \<in> set (take (nat n) (msg_accessible_paths m)) then Some k else trie_search t q) \<and>
    trie_fits 0 t'"
proof -
  let ?M = MAX_ACCESSIBLE_PATHS and ?ms = "msg_accessible_paths m"
  let ?I = "\<lambda>don st. \<exists>ps t'. st = (ss\<lparr>ssi_accessible_paths := ps\<rparr>, t') \<and> length ps = ?M \<and>
    (\<forall>x < ?M. ps ! x = (if int x \<in> set don then ?ms ! x else ssi_accessible_paths ss ! x)) \<and>
    trie_search t' = (\<lambda>q. if \<exists>x \<in> set don. q = ?ms ! nat x then Some k else trie_search t q) \<and> trie_fits 0 t'"
  have mlen: "length ?ms = ?M" "\<forall>p \<in> set ?ms. length p < MAX_PATH_LEN" using wf by (simp_all add: wf_message_def)
  have "\<exists>st. c_for (register_path env m k) [0..n - 1] (ss, t) = Some st \<and> ?I [0..n - 1] st"
  proof (rule c_for_invariant)
    show "?I [] (ss, t)" using len fits by (intro exI [of _ "ssi_accessible_paths ss"] exI [of _ t]) simp
  next
    fix don i rest st
    assume split: "[0..n - 1] = don @ i # rest" and "?I don st"
    then obtain ps t1 where I: "st = (ss\<lparr>ssi_accessible_paths := ps\<rparr>, t1)" "length ps = ?M"
      "\<forall>x < ?M. ps ! x = (if int x \<in> set don then ?ms ! x else ssi_accessible_paths ss ! x)"
      "trie_search t1 = (\<lambda>q. if \<exists>x \<in> set don. q = ?ms ! nat x then Some k else trie_search t q)"
      "trie_fits 0 t1" by blast
    from upto_split [OF split] have i: "0 \<le> i" "i \<le> n - 1" by auto
    then have i': "i < int ?M" "nat i < length ?ms" using n mlen by auto
    have p: "length (?ms ! nat i) < MAX_PATH_LEN" using mlen(2) i'(2) by simp
    obtain t2 where t2: "trie_insert (env_trie_malloc env (nat i)) t1 (?ms ! nat i) k = Some t2"
      using trie_insert_total [of "env_trie_malloc env (nat i)" t1 "?ms ! nat i" k] env by (auto simp: all_malloc_def)
    have "register_path env m k i st = Some (ss\<lparr>ssi_accessible_paths := ps[nat i := ?ms ! nat i]\<rparr>, t2)"
      using i(1) i' p t2 I(1,2) mlen by (simp add: register_path_def)
    moreover have "trie_search t2 = (\<lambda>q. if \<exists>x \<in> set (don @ [i]). q = ?ms ! nat x then Some k else trie_search t q)"
      using trie_index.lookup_insert [OF t2] I(4) by auto
    moreover have "trie_fits 0 t2" using trie_insert_fits [OF t2 I(5) p] .
    moreover have "\<forall>x < ?M. ps[nat i := ?ms ! nat i] ! x =
        (if int x \<in> set (don @ [i]) then ?ms ! x else ssi_accessible_paths ss ! x)"
      using I(2,3) i(1) by (auto simp: nth_list_update)
    ultimately show "\<exists>st'. register_path env m k i st = Some st' \<and> ?I (don @ [i]) st'"
      using I(2) by (intro exI conjI refl) auto
  qed
  then obtain ps t' where *: "c_for (register_path env m k) [0..n - 1] (ss, t) = Some (ss\<lparr>ssi_accessible_paths := ps\<rparr>, t')"
    "length ps = ?M"
    "\<forall>x < ?M. ps ! x = (if int x \<in> set [0..n - 1] then ?ms ! x else ssi_accessible_paths ss ! x)"
    "trie_search t' = (\<lambda>q. if \<exists>x \<in> set [0..n - 1]. q = ?ms ! nat x then Some k else trie_search t q)" "trie_fits 0 t'"
    by blast
  have "(\<exists>x \<in> set [0..n - 1]. q = ?ms ! nat x) \<longleftrightarrow> q \<in> set (take (nat n) ?ms)" for q
  proof
    assume "q \<in> set (take (nat n) ?ms)"
    then obtain j where "j < nat n" "q = ?ms ! j" by (auto simp: in_set_conv_nth)
    then show "\<exists>x \<in> set [0..n - 1]. q = ?ms ! nat x" by (intro bexI [of _ "int j"]) auto
  next
    assume "\<exists>x \<in> set [0..n - 1]. q = ?ms ! nat x"
    then obtain x where "0 \<le> x" "x < n" "q = ?ms ! nat x" by auto
    with n mlen show "q \<in> set (take (nat n) ?ms)"
      by (auto simp: in_set_conv_nth intro!: exI [of _ "nat x"])
  qed
  with * show ?thesis by (intro exI [of _ ps] exI [of _ t']) auto
qed

lemma register_run:
  assumes inv: "nm_inv s" and env: "all_malloc env" and wf: "wf_message m"
    and n: "0 \<le> msg_num_accessible_paths m" "msg_num_accessible_paths m \<le> int MAX_ACCESSIBLE_PATHS"
    and room: "num_registered_ss s < int MAX_SS"
  shows "\<exists>s' ss. handle_register env s m = Some (s', ack_message) \<and> nm_inv s' \<and>
    nm_dir s' = (\<lambda>q. if q \<in> set (take (nat (msg_num_accessible_paths m)) (msg_accessible_paths m))
                     then Some (num_registered_ss s) else nm_dir s q) \<and>
    registered_ss s' = (registered_ss s)[nat (num_registered_ss s) := ss] \<and>
    ssi_ip ss = msg_ss_ip m \<and> ssi_nm_port ss = msg_ss_nm_port m \<and> ssi_client_port ss = msg_ss_client_port m \<and>
    listed ss = take (nat (msg_num_accessible_paths m)) (msg_accessible_paths m) \<and>
    num_registered_ss s' = num_registered_ss s + 1 \<and> current_ss_index s' = current_ss_index s \<and>
    path_lru_cache s' = path_lru_cache s"
proof -
  let ?k = "num_registered_ss s" and ?n = "msg_num_accessible_paths m" and ?M = MAX_ACCESSIBLE_PATHS
  have k: "0 \<le> ?k" "?k < int (length (registered_ss s))" "nat ?k < length (registered_ss s)"
    using inv room by (auto simp: nm_inv_def)
  let ?old = "registered_ss s ! nat ?k"
  have old: "ss_wf ?old" using inv k(3) by (simp add: nm_inv_def)
  let ?ss = "?old\<lparr>ssi_ip := msg_ss_ip m, ssi_nm_port := msg_ss_nm_port m,
      ssi_client_port := msg_ss_client_port m, ssi_num_accessible_paths := ?n\<rparr>"
  have mlen: "length (msg_accessible_paths m) = ?M" "\<forall>p \<in> set (msg_accessible_paths m). length p < MAX_PATH_LEN"
    "length (msg_ss_ip m) < INET_ADDRSTRLEN" using wf by (simp_all add: wf_message_def)
  have "length (ssi_accessible_paths ?ss) = ?M" "trie_fits 0 (path_trie_root s)"
    using old inv by (simp_all add: ss_wf_def nm_inv_def)
  from register_loop_run [OF env wf n(2) this, of ?k] obtain ps t' where loop:
    "c_for (register_path env m ?k) [0..?n - 1] (?ss, path_trie_root s) = Some (?ss\<lparr>ssi_accessible_paths := ps\<rparr>, t')"
    "length ps = ?M" "\<forall>x < ?M. ps ! x = (if int x < ?n then msg_accessible_paths m ! x else ssi_accessible_paths ?ss ! x)"
    "trie_search t' = (\<lambda>q. if q \<in> set (take (nat ?n) (msg_accessible_paths m)) then Some ?k else nm_dir s q)"
    "trie_fits 0 t'" by blast
  define ss' where "ss' = ?ss\<lparr>ssi_accessible_paths := ps\<rparr>"
  define s' where "s' = s\<lparr>registered_ss := (registered_ss s)[nat ?k := ss'], path_trie_root := t', num_registered_ss := ?k + 1\<rparr>"
  have run: "handle_register env s m = Some (s', ack_message)"
    using room k mlen(3) loop(1) by (simp add: handle_register_def Let_def s'_def ss'_def)
  have listed: "listed ss' = take (nat ?n) (msg_accessible_paths m)"
    using loop(2,3) n mlen(1) by (intro nth_equalityI) (auto simp: ss'_def listed_def)
  have "\<forall>p \<in> set ps. length p < MAX_PATH_LEN"
  proof
    fix p assume "p \<in> set ps"
    then obtain x where x: "x < ?M" "p = ps ! x" using loop(2) by (auto simp: in_set_conv_nth)
    then have "p = msg_accessible_paths m ! x \<or> p = ssi_accessible_paths ?old ! x" using loop(3) by auto
    with x(1) mlen old show "length p < MAX_PATH_LEN" by (auto simp: ss_wf_def)
  qed
  then have "ss_wf ss'" using loop(2) n mlen(3) by (simp add: ss_wf_def ss'_def)
  moreover have "set ((registered_ss s)[nat ?k := ss']) \<subseteq> insert ss' (set (registered_ss s))"
    by (rule set_update_subset_insert)
  moreover have "0 \<le> j \<and> j < ?k + 1" if "trie_search t' q = Some j" for q j
    using that loop(4) k(1) nm_inv_dir [OF inv, of q j] by (auto split: if_splits)
  ultimately have "nm_inv s'"
    using inv room loop(5) by (auto simp: nm_inv_def s'_def)
  with run listed loop(4) show ?thesis
    by (intro exI [of _ s'] exI [of _ ss']) (simp add: s'_def, simp add: ss'_def)
qed

lemma register_full:
  "\<not> num_registered_ss s < int MAX_SS \<Longrightarrow> handle_register env s m = Some (s, nack_message SS_UNAVAILABLE)"
  by (simp add: handle_register_def)

subsection \<open>Creation, deletion, copying\<close>

lemma set_record_inv:
  assumes "nm_inv s" and "ss_wf ss" and "trie_fits 0 t"
    and "\<And>p j. trie_search t p = Some j \<Longrightarrow> 0 \<le> j \<and> j < num_registered_ss s"
  shows "nm_inv (s\<lparr>path_trie_root := t, registered_ss := (registered_ss s)[i := ss]\<rparr>)"
    and "nm_inv (s\<lparr>path_trie_root := t, path_lru_cache := c, registered_ss := (registered_ss s)[i := ss]\<rparr>)"
    and "nm_inv (s\<lparr>path_trie_root := t\<rparr>)"
  using assms set_update_subset_insert [of "registered_ss s" i ss] by (auto simp: nm_inv_def)

text \<open>What the record of the server looks like after a path was added to it, if it had room.\<close>

definition append_listed :: "StorageServerInfo \<Rightarrow> string \<Rightarrow> string list" where
  "append_listed ss p = (if length (listed ss) < MAX_ACCESSIBLE_PATHS then listed ss @ [p] else listed ss)"

lemma add_path_run:
  assumes inv: "nm_inv s" and mal: "\<And>j. mal j" and k: "0 \<le> k" "k < num_registered_ss s"
    and p: "length p < MAX_PATH_LEN"
  shows "\<exists>s' ss'. add_path mal s k p = Some s' \<and> nm_inv s' \<and> nm_dir s' = (nm_dir s)(p \<mapsto> k) \<and>
    registered_ss s' = (registered_ss s)[nat k := ss'] \<and>
    listed ss' = append_listed (registered_ss s ! nat k) p \<and> ssi_ip ss' = ssi_ip (registered_ss s ! nat k) \<and>
    ssi_nm_port ss' = ssi_nm_port (registered_ss s ! nat k) \<and>
    ssi_client_port ss' = ssi_client_port (registered_ss s ! nat k) \<and>
    num_registered_ss s' = num_registered_ss s \<and> current_ss_index s' = current_ss_index s \<and>
    path_lru_cache s' = path_lru_cache s"
proof -
  let ?ss = "registered_ss s ! nat k" and ?M = MAX_ACCESSIBLE_PATHS
  note srv = nm_inv_server [OF inv k]
  have wf: "length (ssi_accessible_paths ?ss) = ?M" "0 \<le> ssi_num_accessible_paths ?ss"
    "ssi_num_accessible_paths ?ss \<le> int ?M" using srv(2) by (simp_all add: ss_wf_def)
  have nlist: "length (listed ?ss) = nat (ssi_num_accessible_paths ?ss)" using wf by (simp add: listed_def)
  obtain t where t: "trie_insert mal (path_trie_root s) p k = Some t"
    using trie_insert_total [of mal "path_trie_root s" p k] mal by blast
  have dir: "trie_search t = (nm_dir s)(p \<mapsto> k)" by (rule trie_index.lookup_insert [OF t])
  have fits: "trie_fits 0 t" using trie_insert_fits [OF t _ p] inv by (simp add: nm_inv_def)
  have bound: "0 \<le> j \<and> j < num_registered_ss s" if "trie_search t q = Some j" for q j
    using that dir k nm_inv_dir [OF inv] by (auto split: if_splits)
  show ?thesis
  proof (cases "ssi_num_accessible_paths ?ss < int ?M")
    case False
    then have "append_listed ?ss p = listed ?ss" using nlist by (simp add: append_listed_def)
    moreover have "add_path mal s k p = Some (s\<lparr>path_trie_root := t\<rparr>)"
      using False t srv(1) by (simp add: add_path_def)
    moreover have "nm_inv (s\<lparr>path_trie_root := t\<rparr>)" using set_record_inv(3) [OF inv srv(2) fits bound] .
    ultimately show ?thesis using dir by (intro exI [of _ "s\<lparr>path_trie_root := t\<rparr>"] exI [of _ ?ss]) simp
  next
    case True
    let ?i = "nat (ssi_num_accessible_paths ?ss)"
    let ?ss' = "?ss\<lparr>ssi_accessible_paths := (ssi_accessible_paths ?ss)[?i := p],
        ssi_num_accessible_paths := ssi_num_accessible_paths ?ss + 1\<rparr>"
    let ?s' = "s\<lparr>path_trie_root := t, registered_ss := (registered_ss s)[nat k := ?ss']\<rparr>"
    have i: "?i < ?M" using True wf by linarith
    have "add_path mal s k p = Some ?s'"
      using True t srv p wf k by (simp add: add_path_def)
    moreover have "ss_wf ?ss'"
      using srv(2) p i True set_update_subset_insert [of "ssi_accessible_paths ?ss" ?i p]
      by (auto simp: ss_wf_def)
    from set_record_inv(1) [OF inv this fits bound] have "nm_inv ?s'" .
    moreover have "listed ?ss' = append_listed ?ss p"
      using i wf nlist by (simp add: append_listed_def listed_def nat_add_distrib take_Suc_conv_app_nth)
    ultimately show ?thesis using dir by (intro exI [of _ ?s'] exI [of _ ?ss']) simp
  qed
qed

text \<open>
  The outcome of the request a handler forwards to a storage server: an error code, or the
  reply of the server.
\<close>

definition forward :: "peer \<Rightarrow> StorageServerInfo \<Rightarrow> Message \<Rightarrow> int + Message" where
  "forward w ss req = (case open_peer w (ssi_ip ss) (ssi_nm_port ss) of
     Some e \<Rightarrow> Inl e | None \<Rightarrow> exchange w (ssi_ip ss) (ssi_nm_port ss) req)"

text \<open>The code the client gets: the error, the code of a refusing server, or success.\<close>

definition outcome :: "int + Message \<Rightarrow> int option" where
  "outcome r = (case r of Inl e \<Rightarrow> Some e
     | Inr reply \<Rightarrow> if is_success reply then None else Some (msg_error_code reply))"

definition advance :: "nm_state \<Rightarrow> nm_state" where
  "advance s = s\<lparr>current_ss_index := (current_ss_index s + 1) mod num_registered_ss s\<rparr>"

lemma create_exists:
  "nm_dir s (msg_path m) = Some k \<Longrightarrow> handle_create env s m = Some (s, nack_message FILE_EXISTS)"
  by (simp add: handle_create_def)

lemma create_no_server:
  "nm_dir s (msg_path m) = None \<Longrightarrow> \<not> num_registered_ss s > 0 \<Longrightarrow>
     handle_create env s m = Some (s, nack_message SS_UNAVAILABLE)"
  by (simp add: handle_create_def get_available_none)

lemma nm_inv_current:
  "nm_inv s \<Longrightarrow> num_registered_ss s > 0 \<Longrightarrow> 0 \<le> current_ss_index s \<and> current_ss_index s < num_registered_ss s"
  by (auto simp: nm_inv_def max_def split: if_splits)

lemma advance_simps [simp]:
  "registered_ss (advance s) = registered_ss s" "num_registered_ss (advance s) = num_registered_ss s"
  "path_trie_root (advance s) = path_trie_root s" "path_lru_cache (advance s) = path_lru_cache s"
  by (simp_all add: advance_def)

lemma nm_inv_advance': "nm_inv s \<Longrightarrow> num_registered_ss s > 0 \<Longrightarrow> nm_inv (advance s)"
  unfolding advance_def by (rule nm_inv_advance)

lemma create_forward:
  assumes "nm_inv s" and "nm_dir s (msg_path m) = None" and "num_registered_ss s > 0"
  shows "handle_create env s m =
    (let k = current_ss_index s; ss = registered_ss s ! nat k in
     case outcome (forward (env_peer env) ss m) of
       Some e \<Rightarrow> Some (advance s, nack_message e)
     | None \<Rightarrow> do { s' \<leftarrow> add_path (env_trie_malloc env 0) (advance s) k (msg_path m); Some (s', ack_message) })"
proof -
  have "arr_get (registered_ss s) (current_ss_index s) = Some (registered_ss s ! nat (current_ss_index s))"
    using nm_inv_server(1) [OF assms(1)] nm_inv_current [OF assms(1,3)] by blast
  with assms show ?thesis
    by (auto simp: handle_create_def get_available_some advance_def forward_def outcome_def Let_def
        split: option.splits sum.splits)
qed

lemma delete_missing:
  "nm_dir s (msg_path m) = None \<Longrightarrow> handle_delete env s m = Some (s, nack_message FILE_NOT_FOUND)"
  by (simp add: handle_delete_def)

lemma delete_refused:
  assumes "nm_inv s" and "nm_dir s (msg_path m) = Some k"
    and "outcome (forward (env_peer env) (registered_ss s ! nat k) m) = Some e"
  shows "handle_delete env s m = Some (s, nack_message e)"
proof -
  have "arr_get (registered_ss s) k = Some (registered_ss s ! nat k)"
    using nm_inv_server(1) [OF assms(1)] nm_inv_dir [OF assms(1,2)] by blast
  with assms show ?thesis
    by (auto simp: handle_delete_def forward_def outcome_def split: option.splits sum.splits if_splits)
qed

lemma delete_run:
  assumes inv: "nm_inv s" and k: "nm_dir s (msg_path m) = Some k"
    and ok: "outcome (forward (env_peer env) (registered_ss s ! nat k) m) = None"
    and cache: "lru_remove (path_lru_cache s) (msg_path m) = Some c"
  shows "\<exists>s' ss'. handle_delete env s m = Some (s', ack_message) \<and> nm_inv s' \<and>
    nm_dir s' = (nm_dir s)(msg_path m := None) \<and> path_lru_cache s' = c \<and>
    registered_ss s' = (registered_ss s)[nat k := ss'] \<and>
    listed ss' = remove1 (msg_path m) (listed (registered_ss s ! nat k)) \<and>
    ssi_ip ss' = ssi_ip (registered_ss s ! nat k) \<and>
    ssi_client_port ss' = ssi_client_port (registered_ss s ! nat k) \<and>
    num_registered_ss s' = num_registered_ss s \<and> current_ss_index s' = current_ss_index s"
proof -
  let ?ss = "registered_ss s ! nat k"
  have kb: "0 \<le> k" "k < num_registered_ss s" using nm_inv_dir [OF inv k] by auto
  note srv = nm_inv_server [OF inv kb]
  obtain ss' where ss': "remove_path_from_ss_info ?ss (msg_path m) = Some ss'" "ss_wf ss'"
    "listed ss' = remove1 (msg_path m) (listed ?ss)" "ssi_ip ss' = ssi_ip ?ss"
    "ssi_client_port ss' = ssi_client_port ?ss"
    using remove_path_from_run [OF srv(2), of 0 "msg_path m"] by (auto simp: remove_path_from_ss_info_def)
  let ?t = "trie_delete (path_trie_root s) (msg_path m)"
  let ?s' = "s\<lparr>path_trie_root := ?t, path_lru_cache := c, registered_ss := (registered_ss s)[nat k := ss']\<rparr>"
  have "arr_set (registered_ss s) k ss' = Some ((registered_ss s)[nat k := ss'])"
    using srv(3) kb by (intro arr_set_in) auto
  then have "handle_delete env s m = Some (?s', ack_message)"
    using k ok cache srv(1) ss'(1)
    by (auto simp: handle_delete_def forward_def outcome_def split: option.splits sum.splits if_splits)
  moreover have dir: "trie_search ?t = (nm_dir s)(msg_path m := None)" by (rule trie_index.lookup_remove)
  have "trie_fits 0 ?t" using inv by (simp add: trie_delete_fits nm_inv_def)
  moreover have "0 \<le> j \<and> j < num_registered_ss s" if "trie_search ?t q = Some j" for q j
    using that dir nm_inv_dir [OF inv] by (auto split: if_splits)
  ultimately have "nm_inv ?s'" using set_record_inv(2) [OF inv ss'(2)] by blast
  with \<open>handle_delete env s m = Some (?s', ack_message)\<close> dir ss' show ?thesis
    by (intro exI [of _ ?s'] exI [of _ ss']) simp
qed

text \<open>The request that a copy sends to the source server.\<close>

definition copy_request :: "Message \<Rightarrow> StorageServerInfo \<Rightarrow> Message" where
  "copy_request m dest = zero_message\<lparr>msg_operation := COPY_FILE, msg_path := msg_path m,
     msg_path2 := msg_path2 m, msg_dest_ss_ip := ssi_ip dest,
     msg_dest_ss_client_port := ssi_client_port dest\<rparr>"

lemma copy_missing:
  "nm_dir s (msg_path m) = None \<Longrightarrow> handle_copy env s m = Some (s, nack_message FILE_NOT_FOUND)"
  by (simp add: handle_copy_def)

lemma copy_forward:
  assumes inv: "nm_inv s" and wf: "wf_message m" and k: "nm_dir s (msg_path m) = Some k"
    and d: "d = (case nm_dir s (msg_path2 m) of Some d \<Rightarrow> d | None \<Rightarrow> current_ss_index s)"
    and s1: "s1 = (case nm_dir s (msg_path2 m) of Some d \<Rightarrow> s | None \<Rightarrow> advance s)"
  shows "handle_copy env s m =
    (case outcome (forward (env_peer env) (registered_ss s ! nat k) (copy_request m (registered_ss s ! nat d))) of
       Some e \<Rightarrow> Some (s1, nack_message e)
     | None \<Rightarrow> if nm_dir s (msg_path2 m) = None
               then do { s' \<leftarrow> add_path (env_trie_malloc env 0) s1 d (msg_path2 m); Some (s', ack_message) }
               else Some (s1, ack_message))"
proof -
  have kb: "0 \<le> k" "k < num_registered_ss s" using nm_inv_dir [OF inv k] by auto
  then have pos: "num_registered_ss s > 0" by linarith
  have db: "0 \<le> d" "d < num_registered_ss s"
    using d nm_inv_dir [OF inv] nm_inv_current [OF inv pos] by (auto split: option.splits)
  note srv = nm_inv_server [OF inv kb] and dst = nm_inv_server [OF inv db]
  have pick: "(if nm_dir s (msg_path2 m) \<noteq> None then (s, nm_dir s (msg_path2 m))
      else get_available_ss_for_creation s) = (s1, Some d)"
    using d s1 pos by (auto simp: get_available_some advance_def split: option.splits)
  have regs: "registered_ss s1 = registered_ss s" using s1 by (auto split: option.splits)
  have strs: "length (msg_path m) < MAX_PATH_LEN" "length (msg_path2 m) < MAX_PATH_LEN"
    "length (ssi_ip (registered_ss s ! nat d)) < INET_ADDRSTRLEN"
    using wf dst(2) by (auto simp: wf_message_def ss_wf_def)
  show ?thesis
    unfolding handle_copy_def k option.case Let_def pick prod.case
    using srv(1) dst(1) strs regs
    by (auto simp: forward_def outcome_def copy_request_def split: option.splits sum.splits)
qed

subsection \<open>Lookups and the coherence of the cache\<close>

text \<open>
  The list of the cache is intact and no slot dangles; each of its nodes holds the address
  of the server that the trie gives for the node's path.
\<close>

definition same_address :: "StorageServerInfo \<Rightarrow> StorageServerInfo \<Rightarrow> bool" where
  "same_address a b \<longleftrightarrow> ssi_ip a = ssi_ip b \<and> ssi_client_port a = ssi_client_port b"

definition coherent :: "nm_state \<Rightarrow> addr list \<Rightarrow> bool" where
  "coherent s xs \<longleftrightarrow> lru_rep (path_lru_cache s) xs \<and> lru_live (path_lru_cache s) xs \<and> length xs \<le> LRU_CACHE_SIZE \<and>
     (\<forall>a \<in> set xs. \<forall>p info. node_data (cache_heap (path_lru_cache s)) a = Some (p, info) \<longrightarrow>
        (\<exists>k. nm_dir s p = Some k \<and> same_address info (registered_ss s ! nat k)))"

definition lookup_response :: "nm_state \<Rightarrow> string \<Rightarrow> Message" where
  "lookup_response s p = (case nm_dir s p of
     None \<Rightarrow> nack_message FILE_NOT_FOUND
   | Some k \<Rightarrow> ack_message\<lparr>msg_ss_ip := ssi_ip (registered_ss s ! nat k),
                          msg_ss_client_port := ssi_client_port (registered_ss s ! nat k)\<rparr>)"

lemma nm_inv_cache: "nm_inv (s\<lparr>path_lru_cache := c\<rparr>) = nm_inv s"
  by (simp add: nm_inv_def)

text \<open>The paths the nodes of the cache hold.\<close>

definition cached_paths :: "LRUCache \<Rightarrow> string set" where
  "cached_paths c = {p. \<exists>a. path_of (cache_heap c) a = Some p}"

lemma cached_pathsI: "node_data (cache_heap c) a = Some (p, v) \<Longrightarrow> p \<in> cached_paths c"
  by (auto simp: cached_paths_def path_of_data)

lemma coherent_node:
  "coherent s xs \<Longrightarrow> a \<in> set xs \<Longrightarrow> node_data (cache_heap (path_lru_cache s)) a = Some (p, info) \<Longrightarrow>
     \<exists>k. nm_dir s p = Some k \<and> same_address info (registered_ss s ! nat k)"
  by (simp add: coherent_def)

lemma coherent_nodes:
  assumes "coherent s xs" and "lru_rep c ys" and "lru_live c ys" and "length ys \<le> LRU_CACHE_SIZE"
    and "\<And>a p info. a \<in> set ys \<Longrightarrow> node_data (cache_heap c) a = Some (p, info) \<Longrightarrow>
      a \<in> set xs \<and> node_data (cache_heap (path_lru_cache s)) a = Some (p, info) \<or>
      (\<exists>k. nm_dir s p = Some k \<and> same_address info (registered_ss s ! nat k))"
  shows "coherent (s\<lparr>path_lru_cache := c\<rparr>) ys"
proof -
  have "\<exists>k. nm_dir s p = Some k \<and> same_address info (registered_ss s ! nat k)"
    if "a \<in> set ys" "node_data (cache_heap c) a = Some (p, info)" for a p info
    using assms(5) [OF that] coherent_node [OF assms(1)] by blast
  with assms(2-4) show ?thesis by (simp add: coherent_def)
qed

lemma lookup_run:
  assumes inv: "nm_inv s" and coh: "coherent s xs" and len: "length (msg_path m) < MAX_PATH_LEN"
    and full: "cache_count (path_lru_cache s) = 100 \<Longrightarrow> lru_tail_exact (path_lru_cache s)"
  shows "\<exists>c ys. handle_lookup env s m = Some (s\<lparr>path_lru_cache := c\<rparr>, lookup_response s (msg_path m)) \<and>
    coherent (s\<lparr>path_lru_cache := c\<rparr>) ys \<and> cached_paths c \<subseteq> insert (msg_path m) (cached_paths (path_lru_cache s)) \<and>
    (lru_exact (path_lru_cache s) \<longrightarrow> lru_exact c)"
proof -
  let ?p = "msg_path m" and ?c = "path_lru_cache s"
  have rep: "lru_rep ?c xs" "lru_live ?c xs" "length xs \<le> LRU_CACHE_SIZE" using coh by (simp_all add: coherent_def)
  show ?thesis
  proof (cases "lru_hit ?c xs ?p")
    case (Some a)
    from lru_get_hit [OF rep(1,2) Some] obtain c' v where c': "lru_get ?c ?p = Some (c', Some v)"
      "node_data (cache_heap ?c) a = Some (?p, v)" "lru_rep c' (a # remove1 a xs)"
      "node_data (cache_heap c') = node_data (cache_heap ?c)" "cache_map c' = cache_map ?c" by blast
    have a: "a \<in> set xs" using lru_hit_Some(1) [OF Some] .
    then have xs: "set (a # remove1 a xs) = set xs" "length (a # remove1 a xs) \<le> LRU_CACHE_SIZE"
      using rep length_pos_if_in_set [OF a] by (auto simp: lru_rep_def length_remove1)
    obtain k where k: "nm_dir s ?p = Some k" "same_address v (registered_ss s ! nat k)"
      using coherent_node [OF coh a c'(2)] by blast
    have "ss_wf (registered_ss s ! nat k)" using nm_inv_server(2) [OF inv] nm_inv_dir [OF inv k(1)] by blast
    then have "length (ssi_ip v) < INET_ADDRSTRLEN" using k(2) by (simp add: ss_wf_def same_address_def)
    then have "handle_lookup env s m = Some (s\<lparr>path_lru_cache := c'\<rparr>, lookup_response s ?p)"
      using c'(1) k by (simp add: handle_lookup_def lookup_response_def same_address_def)
    moreover have "lru_live c' (a # remove1 a xs)" using rep(2) c'(5) xs(1) by (simp add: lru_live_def)
    then have "coherent (s\<lparr>path_lru_cache := c'\<rparr>) (a # remove1 a xs)"
      using c'(4) xs by (intro coherent_nodes [OF coh c'(3)]) auto
    moreover have "cached_paths c' = cached_paths ?c" using c'(4) by (simp add: cached_paths_def path_of_data)
    ultimately show ?thesis using lru_get_exact [OF rep(1,2) c'(1)] by blast
  next
    case miss: None
    note get = lru_get_miss [OF rep(1,2) miss]
    show ?thesis
    proof (cases "nm_dir s ?p")
      case None
      then have "handle_lookup env s m = Some (s\<lparr>path_lru_cache := ?c\<rparr>, lookup_response s ?p)"
        using get by (simp add: handle_lookup_def lookup_response_def)
      with coh show ?thesis by (intro exI [of _ ?c] exI [of _ xs]) auto
    next
      case (Some k)
      let ?ss = "registered_ss s ! nat k"
      note srv = nm_inv_server [OF inv nm_inv_dir [OF inv Some, THEN conjunct1] nm_inv_dir [OF inv Some, THEN conjunct2]]
      have "length xs = LRU_CACHE_SIZE \<Longrightarrow> lru_tail_exact ?c"
        using full rep(1) by (simp add: lru_rep_def LRU_CACHE_SIZE_def)
      from lru_put_live [OF rep(1,2) miss rep(3) this len] obtain c' ys where c':
        "lru_put (env_lru_malloc env) ?c ?p ?ss = Some c'" "lru_rep c' ys" "lru_live c' ys" "length ys \<le> LRU_CACHE_SIZE"
        "\<forall>a \<in> set ys. node_data (cache_heap c') a = Some (?p, ?ss) \<or>
           a \<in> set xs \<and> node_data (cache_heap c') a = node_data (cache_heap ?c) a" by blast
      have "length (ssi_ip ?ss) < INET_ADDRSTRLEN" using srv(2) by (simp add: ss_wf_def)
      then have "handle_lookup env s m = Some (s\<lparr>path_lru_cache := c'\<rparr>, lookup_response s ?p)"
        using get Some srv(1) c'(1) by (simp add: handle_lookup_def lookup_response_def)
      moreover have "coherent (s\<lparr>path_lru_cache := c'\<rparr>) ys"
      proof (rule coherent_nodes [OF coh c'(2-4)])
        fix a p info assume "a \<in> set ys" "node_data (cache_heap c') a = Some (p, info)"
        with c'(5) Some show "a \<in> set xs \<and> node_data (cache_heap ?c) a = Some (p, info) \<or>
            (\<exists>k. nm_dir s p = Some k \<and> same_address info (registered_ss s ! nat k))"
          by (force simp: same_address_def)
      qed
      moreover have "cached_paths c' \<subseteq> insert ?p (cached_paths ?c)"
      proof
        fix q assume "q \<in> cached_paths c'"
        then obtain a where a: "path_of (cache_heap c') a = Some q" by (auto simp: cached_paths_def)
        then have "a \<in> set ys" by (rule path_of_in [OF c'(2)])
        with a c'(5) show "q \<in> insert ?p (cached_paths ?c)" by (fastforce simp: cached_paths_def path_of_data)
      qed
      ultimately show ?thesis using lru_put_exact [OF rep(1,2) miss rep(3) _ len c'(1)] by blast
    qed
  qed
qed

subsection \<open>Listing\<close>

text \<open>The lines of the listing: the paths, separated by newlines.\<close>

fun join_lines :: "string list \<Rightarrow> string" where
  "join_lines [] = []"
| "join_lines [p] = p"
| "join_lines (p # q # ps) = p @ CHR 0x0A # join_lines (q # ps)"

lemma join_lines_snoc:
  "join_lines (ps @ [p]) = concat (map (\<lambda>q. q @ [CHR 0x0A]) ps) @ p"
  by (induction ps rule: join_lines.induct) auto

lemma concat_lines_length:
  "\<forall>p \<in> set ps. length p < MAX_PATH_LEN \<Longrightarrow>
     length (concat (map (\<lambda>q. q @ [CHR 0x0A]) ps)) \<le> length ps * MAX_PATH_LEN"
  by (induction ps) auto

lemma list_loop_run:
  assumes n: "length ps \<le> MAX_ACCESSIBLE_PATHS" and len: "\<forall>p \<in> set ps. length p < MAX_PATH_LEN"
  shows "c_for (\<lambda>i col. do {
            p \<leftarrow> arr_get ps i;
            col \<leftarrow> c_strcpy (MAX_ACCESSIBLE_PATHS * MAX_PATH_LEN) (col @ p);
            if i < int (length ps) - 1 then c_strcpy (MAX_ACCESSIBLE_PATHS * MAX_PATH_LEN) (col @ [CHR 0x0A])
            else Some col
          }) [0..int (length ps) - 1] [] = Some (join_lines ps)"
proof -
  let ?f = "\<lambda>i col. do {
            p \<leftarrow> arr_get ps i;
            col \<leftarrow> c_strcpy (MAX_ACCESSIBLE_PATHS * MAX_PATH_LEN) (col @ p);
            if i < int (length ps) - 1 then c_strcpy (MAX_ACCESSIBLE_PATHS * MAX_PATH_LEN) (col @ [CHR 0x0A])
            else Some col
          }"
  let ?lines = "\<lambda>k. concat (map (\<lambda>q. q @ [CHR 0x0A]) (take k ps))"
  let ?I = "\<lambda>don col. col = (if length don < length ps then ?lines (length don) else join_lines ps)"
  have "\<exists>col. c_for ?f [0..int (length ps) - 1] [] = Some col \<and> ?I [0..int (length ps) - 1] col"
  proof (rule c_for_invariant)
    show "?I [] []" by (cases ps) auto
  next
    fix don i rest col
    assume split: "[0..int (length ps) - 1] = don @ i # rest" and I: "?I don col"
    have i: "0 \<le> i" "i \<le> int (length ps) - 1" using upto_split [OF split] by auto
    have "([0..int (length ps) - 1] ! length don) = i" using split by (simp add: nth_append)
    moreover have "length don < length [0..int (length ps) - 1]" using split by simp
    ultimately have don: "length don = nat i" "length don < length ps" by (simp_all add: nth_upto)
    then have col: "col = ?lines (nat i)" using I by simp
    have "\<forall>p \<in> set (take (nat i) ps). length p < MAX_PATH_LEN" using len by (auto dest: in_set_takeD)
    from concat_lines_length [OF this] don have "length (?lines (nat i)) \<le> nat i * MAX_PATH_LEN"
      by (simp add: min_def)
    moreover have p: "length (ps ! nat i) < MAX_PATH_LEN" using len don by simp
    moreover have "nat i < MAX_ACCESSIBLE_PATHS" using n don by linarith
    ultimately have fit: "length (col @ ps ! nat i) < MAX_ACCESSIBLE_PATHS * MAX_PATH_LEN"
      "i < int (length ps) - 1 \<Longrightarrow> length ((col @ ps ! nat i) @ [CHR 0x0A]) < MAX_ACCESSIBLE_PATHS * MAX_PATH_LEN"
      using col n don by (auto simp: size_defs)
    have get: "arr_get ps i = Some (ps ! nat i)" using i by simp
    show "\<exists>col'. ?f i col = Some col' \<and> ?I (don @ [i]) col'"
    proof (cases "i < int (length ps) - 1")
      case True
      then have "Suc (nat i) < length ps" using i by linarith
      moreover have "(col @ ps ! nat i) @ [CHR 0x0A] = ?lines (Suc (nat i))"
        using col don by (simp add: take_Suc_conv_app_nth)
      ultimately show ?thesis using get fit True don by simp
    next
      case False
      then have last: "Suc (nat i) = length ps" using i by linarith
      then have "ps = take (nat i) ps @ [ps ! nat i]"
        by (metis lessI order_refl take_Suc_conv_app_nth take_all)
      then have "col @ ps ! nat i = join_lines ps" using col join_lines_snoc by metis
      then show ?thesis using get fit(1) False don last by simp
    qed
  qed
  moreover have "length [0..int (length ps) - 1] = length ps" by simp
  ultimately show ?thesis by auto
qed

lemma list_run:
  assumes inv: "nm_inv s" and mem: "env_list_malloc env"
  shows "handle_list env s =
    (let text = join_lines (take MAX_ACCESSIBLE_PATHS (trie_paths (path_trie_root s))) in
     if length text < MAX_DATA_SIZE
     then Some (s, ack_message\<lparr>msg_data := text, msg_data_size := int (length text)\<rparr>) else None)"
proof -
  let ?ps = "take MAX_ACCESSIBLE_PATHS (trie_paths (path_trie_root s))"
  have fits: "trie_fits 0 (path_trie_root s)" using inv by (simp add: nm_inv_def)
  have "\<forall>p \<in> set ?ps. length p < MAX_PATH_LEN"
  proof
    fix p assume "p \<in> set ?ps"
    then have "trie_search (path_trie_root s) p \<noteq> None" using trie_paths_set by (fastforce dest: in_set_takeD)
    then have "trie_node_at (path_trie_root s) p \<noteq> None" by (rule trie_search_node)
    then show "length p < MAX_PATH_LEN" using fits by (auto simp: trie_fits_def free_trie_set)
  qed
  from list_loop_run [OF _ this] trie_collect_paths_take [OF fits] mem show ?thesis
    by (simp add: handle_list_def Let_def c_strcpy_def ack_message_def)
qed

end
