(* ===== verification/Naming_Props.thy ===== *)
theory Naming_Props
  imports Naming_Correct
begin

text \<open>
  The properties of the naming server of \<open>src/naming_server.c\<close>: every request of a well
  behaved client or storage server has a defined result that keeps the invariant and the
  coherence of the cache; and what each operation does on each of its branches.
\<close>

subsection \<open>Coherence is kept\<close>

lemma coherent_step:
  assumes coh: "coherent s xs" and "lru_rep (path_lru_cache s') ys" and "lru_live (path_lru_cache s') ys"
    and "length ys \<le> LRU_CACHE_SIZE" and "set ys \<subseteq> set xs"
    and same: "\<And>a. a \<in> set ys \<Longrightarrow>
      node_data (cache_heap (path_lru_cache s')) a = node_data (cache_heap (path_lru_cache s)) a"
    and dir: "\<And>p. p \<in> cached_paths (path_lru_cache s') \<Longrightarrow> nm_dir s' p = nm_dir s p"
    and addr: "\<And>p k. p \<in> cached_paths (path_lru_cache s') \<Longrightarrow> nm_dir s p = Some k \<Longrightarrow>
      same_address (registered_ss s' ! nat k) (registered_ss s ! nat k)"
  shows "coherent s' ys"
proof -
  have "\<exists>k. nm_dir s' p = Some k \<and> same_address info (registered_ss s' ! nat k)"
    if a: "a \<in> set ys" "node_data (cache_heap (path_lru_cache s')) a = Some (p, info)" for a p info
  proof -
    have "a \<in> set xs" "node_data (cache_heap (path_lru_cache s)) a = Some (p, info)"
      using a same [OF a(1)] assms(5) by auto
    from coherent_node [OF coh this] obtain k where k: "nm_dir s p = Some k" "same_address info (registered_ss s ! nat k)"
      by blast
    have p: "p \<in> cached_paths (path_lru_cache s')" using a(2) by (rule cached_pathsI)
    show ?thesis using k dir [OF p] addr [OF p k(1)] by (auto simp: same_address_def)
  qed
  with assms(2-4) show ?thesis by (simp add: coherent_def)
qed

lemma coherent_keys: "coherent s xs \<Longrightarrow> p \<in> cached_paths (path_lru_cache s) \<Longrightarrow> nm_dir s p \<noteq> None"
proof -
  assume coh: "coherent s xs" and "p \<in> cached_paths (path_lru_cache s)"
  then obtain a where a: "path_of (cache_heap (path_lru_cache s)) a = Some p" by (auto simp: cached_paths_def)
  then obtain v where "node_data (cache_heap (path_lru_cache s)) a = Some (p, v)" by (auto simp: path_of_data)
  moreover have "a \<in> set xs" using coh a by (auto simp: coherent_def dest: path_of_in)
  ultimately show ?thesis using coherent_node [OF coh] by blast
qed

text \<open>A step that leaves the cache and the paths it holds as they were.\<close>

lemma coherent_same_cache:
  assumes "coherent s xs" and "path_lru_cache s' = path_lru_cache s"
    and "\<And>p. p \<in> cached_paths (path_lru_cache s) \<Longrightarrow> nm_dir s' p = nm_dir s p"
    and "\<And>p k. p \<in> cached_paths (path_lru_cache s) \<Longrightarrow> nm_dir s p = Some k \<Longrightarrow>
      same_address (registered_ss s' ! nat k) (registered_ss s ! nat k)"
  shows "coherent s' xs"
  using assms(1) unfolding coherent_def
  by (intro coherent_step [OF assms(1), unfolded coherent_def, of s' xs]) (simp_all add: assms(2-4))

lemma same_address_update:
  assumes "same_address ss' (xs ! nat k)" and "nat k < length xs"
  shows "same_address (xs[nat k := ss'] ! nat j) (xs ! nat j)"
  using assms by (cases "nat j = nat k") (auto simp: same_address_def)

lemma add_path_coherent:
  assumes inv: "nm_inv s" and coh: "coherent s xs" and "\<And>j. mal j" and k: "0 \<le> k" "k < num_registered_ss s"
    and "length p < MAX_PATH_LEN" and new: "nm_dir s p = None"
  shows "\<exists>s'. add_path mal s k p = Some s' \<and> nm_inv s' \<and> coherent s' xs"
proof -
  obtain s' ss' where s': "add_path mal s k p = Some s'" "nm_inv s'" "nm_dir s' = (nm_dir s)(p \<mapsto> k)"
    "registered_ss s' = (registered_ss s)[nat k := ss']"
    "same_address ss' (registered_ss s ! nat k)" "path_lru_cache s' = path_lru_cache s"
    using add_path_run [of s mal k p, OF inv assms(3) k assms(6)]
    unfolding same_address_def by metis
  have "p \<notin> cached_paths (path_lru_cache s)" using coherent_keys [OF coh] new by blast
  then have "coherent s' xs"
    using s' same_address_update [OF s'(5) nm_inv_server(3) [OF inv k]]
    by (intro coherent_same_cache [OF coh]) auto
  with s' show ?thesis by blast
qed

lemma advance_coherent: "coherent (advance s) xs = coherent s xs"
  by (simp add: coherent_def)

text \<open>
  The safe requests in a state. A registration brings at most ten paths, none of them
  cached; the listing fits the message; the deleted path can be removed from the cache (its
  node, if it has one, is the only one, is found and is pointed to by its own slot only); and
  when a lookup finds the cache full, its last node is pointed to by its own slot only.
\<close>

definition nm_safe :: "nm_state \<Rightarrow> Message \<Rightarrow> bool" where
  "nm_safe s m \<longleftrightarrow> wf_message m \<and>
     (case msg_operation m of
        REGISTER_SS \<Rightarrow> 0 \<le> msg_num_accessible_paths m \<and> msg_num_accessible_paths m \<le> 10 \<and>
          set (take (nat (msg_num_accessible_paths m)) (msg_accessible_paths m)) \<inter> cached_paths (path_lru_cache s) = {}
      | LIST_PATHS \<Rightarrow> length (join_lines (take 10 (trie_paths (path_trie_root s)))) < 8192
      | DELETE_FILE \<Rightarrow> lru_removable (path_lru_cache s) (msg_path m)
      | CREATE_FILE \<Rightarrow> True
      | COPY_FILE \<Rightarrow> True
      | op \<Rightarrow> op \<in> {READ_FILE, WRITE_FILE, GET_FILE_INFO} \<longrightarrow>
          cache_count (path_lru_cache s) = 100 \<longrightarrow> lru_tail_exact (path_lru_cache s))"

definition nm_good :: "nm_state \<Rightarrow> bool" where
  "nm_good s \<longleftrightarrow> nm_inv s \<and> (\<exists>xs. coherent s xs)"

lemma sim_cached:
  assumes "lru_sim c es"
  shows "cached_paths c = fst ` set es" and "cache_count c = int (length es)"
proof -
  from assms obtain xs where xs: "lru_rep c xs" "map (node_data (cache_heap c)) xs = map Some es"
    by (auto simp: lru_sim_def)
  have "path_of (cache_heap c) a = Some p \<longleftrightarrow> a \<in> set xs \<and> (\<exists>v. node_data (cache_heap c) a = Some (p, v))" for a p
    using xs(1) by (auto simp: lru_rep_def path_of_data node_data_def)
  then have "p \<in> cached_paths c \<longleftrightarrow> (\<exists>v. (p, v) \<in> set es)" for p
    unfolding cached_paths_def entries_member [OF xs(2)] by blast
  then show "cached_paths c = fst ` set es" by force
  have "length xs = length es" using arg_cong [OF xs(2), of length] by simp
  then show "cache_count c = int (length es)" using xs(1) by (simp add: lru_rep_def)
qed

lemma coherent_init: "coherent nm_init []"
  using lru_sim_init lru_rep_init
  by (simp add: coherent_def nm_init_def) (simp add: lru_live_def lru_init_def)

lemma nm_good_init: "nm_good nm_init"
  using nm_inv_init coherent_init by (auto simp: nm_good_def)

lemma register_preserves:
  assumes inv: "nm_inv s" and coh: "coherent s xs" and env: "all_malloc env"
    and ok: "nm_safe s m" and op: "msg_operation m = REGISTER_SS"
  shows "\<exists>s' resp. handle_register env s m = Some (s', resp) \<and> nm_inv s' \<and> coherent s' xs"
proof (cases "num_registered_ss s < int MAX_SS")
  case False
  with register_full inv coh show ?thesis by blast
next
  case True
  have ok': "wf_message m" "0 \<le> msg_num_accessible_paths m" "msg_num_accessible_paths m \<le> int MAX_ACCESSIBLE_PATHS"
    "\<forall>p \<in> set (take (nat (msg_num_accessible_paths m)) (msg_accessible_paths m)). p \<notin> cached_paths (path_lru_cache s)"
    using ok op by (auto simp: nm_safe_def MAX_ACCESSIBLE_PATHS_def)
  obtain s' ss where s': "handle_register env s m = Some (s', ack_message)" "nm_inv s'"
    "nm_dir s' = (\<lambda>q. if q \<in> set (take (nat (msg_num_accessible_paths m)) (msg_accessible_paths m))
                     then Some (num_registered_ss s) else nm_dir s q)"
    "registered_ss s' = (registered_ss s)[nat (num_registered_ss s) := ss]"
    "path_lru_cache s' = path_lru_cache s"
    using register_run [OF inv env ok'(1-3) True] by blast
  have "registered_ss s' ! nat k = registered_ss s ! nat k" if "nm_dir s p = Some k" for p k
  proof -
    have "nat (num_registered_ss s) \<noteq> nat k" using nm_inv_dir [OF inv that] by auto
    then show ?thesis using s'(4) by simp
  qed
  then have "coherent s' xs"
    using s'(3,5) ok'(4) by (intro coherent_same_cache [OF coh]) (auto simp: same_address_def)
  with s' show ?thesis by blast
qed

lemma create_preserves:
  assumes inv: "nm_inv s" and coh: "coherent s xs" and env: "all_malloc env" and wf: "wf_message m"
  shows "\<exists>s' resp. handle_create env s m = Some (s', resp) \<and> nm_inv s' \<and> coherent s' xs"
proof (cases "nm_dir s (msg_path m)")
  case (Some k)
  with create_exists inv coh show ?thesis by blast
next
  case None
  show ?thesis
  proof (cases "num_registered_ss s > 0")
    case False
    with create_no_server [OF None] inv coh show ?thesis by blast
  next
    case True
    have k: "0 \<le> current_ss_index s" "current_ss_index s < num_registered_ss (advance s)"
      using nm_inv_current [OF inv True] by auto
    have "\<exists>s'. add_path (env_trie_malloc env 0) (advance s) (current_ss_index s) (msg_path m) = Some s' \<and>
        nm_inv s' \<and> coherent s' xs"
      using inv True coh env wf None k
      by (intro add_path_coherent nm_inv_advance') (auto simp: advance_coherent all_malloc_def wf_message_def)
    with create_forward [OF inv None True, of env] nm_inv_advance' [OF inv True] coh show ?thesis
      by (auto simp: Let_def advance_coherent split: option.splits)
  qed
qed

lemma copy_preserves:
  assumes inv: "nm_inv s" and coh: "coherent s xs" and env: "all_malloc env" and wf: "wf_message m"
  shows "\<exists>s' resp. handle_copy env s m = Some (s', resp) \<and> nm_inv s' \<and> coherent s' xs"
proof (cases "nm_dir s (msg_path m)")
  case None
  with copy_missing inv coh show ?thesis by blast
next
  case (Some k)
  then have pos: "num_registered_ss s > 0" using nm_inv_dir [OF inv Some] by linarith
  note adv = nm_inv_advance' [OF inv pos] and fwd = copy_forward [OF inv wf Some refl refl, of env]
  show ?thesis
  proof (cases "nm_dir s (msg_path2 m)")
    case (Some d)
    with fwd inv coh show ?thesis by (auto split: option.splits)
  next
    case None
    have k: "0 \<le> current_ss_index s" "current_ss_index s < num_registered_ss (advance s)"
      using nm_inv_current [OF inv pos] by auto
    have "\<exists>s'. add_path (env_trie_malloc env 0) (advance s) (current_ss_index s) (msg_path2 m) = Some s' \<and>
        nm_inv s' \<and> coherent s' xs"
      using adv coh env wf None k
      by (intro add_path_coherent) (auto simp: advance_coherent all_malloc_def wf_message_def)
    with fwd None adv coh show ?thesis by (auto simp: advance_coherent split: option.splits)
  qed
qed

lemma delete_preserves:
  assumes inv: "nm_inv s" and coh: "coherent s xs" and rem: "lru_removable (path_lru_cache s) (msg_path m)"
  shows "\<exists>s' resp ys. handle_delete env s m = Some (s', resp) \<and> nm_inv s' \<and> coherent s' ys"
proof (cases "nm_dir s (msg_path m)")
  case None
  with delete_missing inv coh show ?thesis by blast
next
  case (Some k)
  have kb: "0 \<le> k" "k < num_registered_ss s" using nm_inv_dir [OF inv Some] by auto
  show ?thesis
  proof (cases "outcome (forward (env_peer env) (registered_ss s ! nat k) m)")
    case (Some e)
    with delete_refused [OF inv \<open>nm_dir s (msg_path m) = Some k\<close>] inv coh show ?thesis by blast
  next
    case None
    let ?c = "path_lru_cache s"
    have rep: "lru_rep ?c xs" "lru_live ?c xs" "length xs \<le> LRU_CACHE_SIZE" using coh by (simp_all add: coherent_def)
    obtain c ys where c: "lru_remove ?c (msg_path m) = Some c" "lru_rep c ys" "lru_live c ys" "set ys \<subseteq> set xs"
      "length ys \<le> length xs" "\<forall>a \<in> set ys. node_data (cache_heap c) a = node_data (cache_heap ?c) a"
      "\<forall>a \<in> set ys. path_of (cache_heap ?c) a \<noteq> Some (msg_path m)"
      using lru_remove_live [OF rep(1,2) rem] by blast
    obtain s' ss' where s': "handle_delete env s m = Some (s', ack_message)" "nm_inv s'"
      "nm_dir s' = (nm_dir s)(msg_path m := None)" "path_lru_cache s' = c"
      "registered_ss s' = (registered_ss s)[nat k := ss']" "same_address ss' (registered_ss s ! nat k)"
      using delete_run [OF inv Some None c(1)] by (auto simp: same_address_def)
    have gone: "msg_path m \<notin> cached_paths c"
    proof
      assume "msg_path m \<in> cached_paths c"
      then obtain a where a: "path_of (cache_heap c) a = Some (msg_path m)" by (auto simp: cached_paths_def)
      then have "a \<in> set ys" by (rule path_of_in [OF c(2)])
      with a c(6,7) show False by (simp add: path_of_data)
    qed
    have "coherent s' ys"
      using s' c(2-6) rep(3) gone same_address_update [OF s'(6) nm_inv_server(3) [OF inv kb]]
      by (intro coherent_step [OF coh]) auto
    with s' show ?thesis by blast
  qed
qed

lemma lookup_preserves:
  assumes inv: "nm_inv s" and coh: "coherent s xs" and ok: "nm_safe s m"
    and op: "msg_operation m \<in> {READ_FILE, WRITE_FILE, GET_FILE_INFO}"
  shows "\<exists>c ys. handle_lookup env s m = Some (s\<lparr>path_lru_cache := c\<rparr>, lookup_response s (msg_path m)) \<and>
    nm_inv (s\<lparr>path_lru_cache := c\<rparr>) \<and> coherent (s\<lparr>path_lru_cache := c\<rparr>) ys"
proof -
  have "length (msg_path m) < MAX_PATH_LEN" using ok by (simp add: nm_safe_def wf_message_def)
  moreover have "cache_count (path_lru_cache s) = 100 \<Longrightarrow> lru_tail_exact (path_lru_cache s)"
    using ok op by (auto simp: nm_safe_def)
  ultimately obtain c ys where "handle_lookup env s m = Some (s\<lparr>path_lru_cache := c\<rparr>, lookup_response s (msg_path m))"
    "coherent (s\<lparr>path_lru_cache := c\<rparr>) ys" using lookup_run [OF inv coh, of m env] by blast
  with inv show ?thesis by (auto simp: nm_inv_cache)
qed

lemma list_preserves:
  assumes "nm_inv s" and "nm_safe s m" and "msg_operation m = LIST_PATHS"
  shows "\<exists>resp. handle_list env s = Some (s, resp)"
  using assms list_run [OF assms(1), of env]
  by (cases "env_list_malloc env") (auto simp: nm_safe_def size_defs Let_def handle_list_def)

lemma dispatch_good:
  assumes good: "nm_good s" and env: "all_malloc env" and safe: "nm_safe s m"
  shows "\<exists>s' resp. nm_dispatch env s m = Some (s', resp) \<and> nm_good s'"
proof -
  from good obtain xs where inv: "nm_inv s" and coh: "coherent s xs" by (auto simp: nm_good_def)
  have wf: "wf_message m" using safe by (simp add: nm_safe_def)
  show ?thesis
  proof (cases "msg_operation m")
    case REGISTER_SS
    with register_preserves [OF inv coh env safe] show ?thesis by (auto simp: nm_dispatch_def nm_good_def)
  next
    case LIST_PATHS
    with list_preserves [OF inv safe, of env] good show ?thesis by (auto simp: nm_dispatch_def)
  next
    case CREATE_FILE
    with create_preserves [OF inv coh env wf] show ?thesis by (auto simp: nm_dispatch_def nm_good_def)
  next
    case COPY_FILE
    with copy_preserves [OF inv coh env wf] show ?thesis by (auto simp: nm_dispatch_def nm_good_def)
  next
    case DELETE_FILE
    then have "lru_removable (path_lru_cache s) (msg_path m)" using safe by (simp add: nm_safe_def)
    from delete_preserves [OF inv coh this, of env] DELETE_FILE show ?thesis
      by (auto simp: nm_dispatch_def nm_good_def)
  next
    case READ_FILE
    with lookup_preserves [OF inv coh safe, of env] show ?thesis by (auto simp: nm_dispatch_def nm_good_def)
  next
    case WRITE_FILE
    with lookup_preserves [OF inv coh safe, of env] show ?thesis by (auto simp: nm_dispatch_def nm_good_def)
  next
    case GET_FILE_INFO
    with lookup_preserves [OF inv coh safe, of env] show ?thesis by (auto simp: nm_dispatch_def nm_good_def)
  qed (use good in \<open>auto simp: nm_dispatch_def\<close>)
qed

subsection \<open>The server as a state machine\<close>

inductive nm_step :: "nm_state \<Rightarrow> Message \<Rightarrow> Message \<Rightarrow> nm_state \<Rightarrow> bool" where
  "all_malloc env \<Longrightarrow> nm_safe s m \<Longrightarrow> nm_dispatch env s m = Some (s', resp) \<Longrightarrow> nm_step s m resp s'"

inductive_cases nm_stepE: "nm_step s m resp s'"

inductive nm_safely_reachable :: "nm_state \<Rightarrow> bool" where
  nm_start: "nm_safely_reachable nm_init"
| nm_more: "nm_safely_reachable s \<Longrightarrow> nm_step s m resp s' \<Longrightarrow> nm_safely_reachable s'"

lemma step_good: "nm_step s m resp s' \<Longrightarrow> nm_good s \<Longrightarrow> nm_good s'"
  by (erule nm_stepE) (use dispatch_good in fastforce)

lemma reachable_good: "nm_safely_reachable s \<Longrightarrow> nm_good s"
  by (induction rule: nm_safely_reachable.induct) (auto intro: nm_good_init step_good)


subsection \<open>A state with one server, for the witnesses\<close>

definition one_path_message :: Message where
  "one_path_message = zero_message\<lparr>msg_operation := REGISTER_SS, msg_ss_ip := ''10.0.0.1'',
     msg_ss_nm_port := 9001, msg_ss_client_port := 9002,
     msg_accessible_paths := ''a'' # replicate 9 [], msg_num_accessible_paths := 1\<rparr>"

definition good_env :: nm_env where
  "good_env = \<lparr>env_trie_malloc = (\<lambda>_ _. True), env_lru_malloc = True, env_list_malloc = True,
     env_peer = answering (\<lambda>_ _ _. ack_message)\<rparr>"

lemma good_env_malloc: "all_malloc good_env"
  by (simp add: all_malloc_def good_env_def)

lemma good_env_forward: "outcome (forward (env_peer good_env) ss m) = None"
  using answering_reaches [of "\<lambda>_ _ _. ack_message" "ssi_ip ss" "ssi_nm_port ss" m ack_message]
  by (simp add: good_env_def reaches_def forward_def outcome_def)

lemma one_path_wf: "wf_message one_path_message"
  by (simp add: wf_message_def one_path_message_def zero_message_def size_defs)

lemma one_server:
  "\<exists>s. nm_safely_reachable s \<and> nm_inv s \<and> num_registered_ss s = 1 \<and> current_ss_index s = 0 \<and> nm_dir s = [''a'' \<mapsto> 0] \<and>
     path_lru_cache s = lru_init \<and> ssi_ip (registered_ss s ! 0) = ''10.0.0.1'' \<and>
     ssi_client_port (registered_ss s ! 0) = 9002 \<and> listed (registered_ss s ! 0) = [''a'']"
proof -
  have paths: "take (nat (msg_num_accessible_paths one_path_message)) (msg_accessible_paths one_path_message) = [''a'']"
    "msg_num_accessible_paths one_path_message = 1" by (simp_all add: one_path_message_def)
  have take1: "take (Suc 0) (msg_accessible_paths one_path_message) = [''a'']"
    by (simp add: one_path_message_def)
  have init: "num_registered_ss nm_init = 0" "current_ss_index nm_init = 0" "nm_dir nm_init = Map.empty"
    "path_lru_cache nm_init = lru_init" "length (registered_ss nm_init) = 100"
    by (simp_all add: nm_init_def MAX_SS_def fun_eq_iff)
  have "num_registered_ss nm_init < int MAX_SS" "msg_num_accessible_paths one_path_message \<le> int MAX_ACCESSIBLE_PATHS"
    "0 \<le> msg_num_accessible_paths one_path_message"
    using init paths by (simp_all add: size_defs)
  from register_run [OF nm_inv_init good_env_malloc one_path_wf this(3,2,1)] obtain s ss where s:
    "handle_register good_env nm_init one_path_message = Some (s, ack_message)" "nm_inv s"
    "nm_dir s = (\<lambda>q. if q \<in> {''a''} then Some 0 else nm_dir nm_init q)"
    "registered_ss s = (registered_ss nm_init)[0 := ss]" "ssi_ip ss = msg_ss_ip one_path_message"
    "ssi_client_port ss = msg_ss_client_port one_path_message" "listed ss = [''a'']"
    "num_registered_ss s = 1" "current_ss_index s = 0" "path_lru_cache s = lru_init"
    unfolding init paths(2) by (auto simp: take1)
  have "nm_safe nm_init one_path_message"
    using one_path_wf paths by (auto simp: nm_safe_def one_path_message_def init cached_paths_def path_of_def lru_init_def)
  moreover have "nm_dispatch good_env nm_init one_path_message = Some (s, ack_message)"
    using s(1) by (simp add: nm_dispatch_def one_path_message_def)
  ultimately have "nm_safely_reachable s" using good_env_malloc nm_start by (blast intro: nm_more nm_step.intros)
  moreover have "nm_dir s = [''a'' \<mapsto> 0]" using s(3) init by (auto simp: fun_eq_iff)
  ultimately show ?thesis using s init by (intro exI [of _ s]) (simp add: one_path_message_def)
qed

lemma add_path_env:
  assumes inv: "nm_inv s" and env: "all_malloc env" and k: "0 \<le> k" "k < num_registered_ss s"
    and p: "length p < MAX_PATH_LEN"
  shows "\<exists>s' ss'. add_path (env_trie_malloc env 0) s k p = Some s' \<and> nm_inv s' \<and>
    nm_dir s' = (nm_dir s)(p \<mapsto> k) \<and> registered_ss s' = (registered_ss s)[nat k := ss'] \<and>
    listed ss' = append_listed (registered_ss s ! nat k) p \<and> current_ss_index s' = current_ss_index s"
proof -
  have "\<And>j. env_trie_malloc env 0 j" using env by (simp add: all_malloc_def)
  from add_path_run [of s "env_trie_malloc env 0" k p, OF inv this k p] show ?thesis by blast
qed

lemma strict_singleton: "sorted_wrt (<) xs \<Longrightarrow> set xs = {a :: string} \<Longrightarrow> xs = [a]"
  by (cases xs; cases "tl xs") auto

subsection \<open>Properties\<close>

text \<open>
  Property C1: from the start of the naming server, through any sequence of safe requests,
  with any answers of the storage servers, the next safe request has a defined response, and the state keeps the invariant: at most 100 servers, a round-robin index
  among them, well-formed records, and a trie whose paths all belong to registered servers.
\<close>

theorem nm_reachable_serves:
  assumes "nm_safely_reachable s" and "all_malloc env" and "nm_safe s m"
  shows "\<exists>s' resp. nm_dispatch env s m = Some (s', resp) \<and> nm_safely_reachable s' \<and> nm_inv s'"
proof -
  obtain s' resp where s': "nm_dispatch env s m = Some (s', resp)" "nm_good s'"
    using dispatch_good [OF reachable_good [OF assms(1)] assms(2,3)] by blast
  with assms show ?thesis by (auto simp: nm_good_def intro: nm_more nm_step.intros)
qed

theorem nm_reachable_serves_witness:
  "\<exists>s' resp. nm_dispatch good_env nm_init one_path_message = Some (s', resp) \<and> nm_safely_reachable s' \<and> nm_inv s'"
proof -
  have "nm_safe nm_init one_path_message"
    using one_path_wf by (auto simp: nm_safe_def one_path_message_def nm_init_def cached_paths_def path_of_def lru_init_def)
  from nm_reachable_serves [OF nm_start good_env_malloc this] show ?thesis .
qed



text \<open>
  Property C4: a creation. A path of the trie is refused with \<open>FILE_EXISTS\<close>, and without a
  server there is \<open>SS_UNAVAILABLE\<close>; otherwise the selected server is asked and the selection
  advances. If that fails, its code is passed on and the trie is unchanged; if it succeeds,
  the path, and no other, is mapped to that server, whose record lists it if it had room.
\<close>

theorem nm_create_correct:
  assumes inv: "nm_inv s" and env: "all_malloc env" and wf: "wf_message m" and op: "msg_operation m = CREATE_FILE"
  defines "k \<equiv> current_ss_index s"
  shows "\<exists>s' resp. nm_dispatch env s m = Some (s', resp) \<and> nm_inv s' \<and>
    (if nm_dir s (msg_path m) \<noteq> None then s' = s \<and> resp = nack_message FILE_EXISTS
     else if num_registered_ss s = 0 then s' = s \<and> resp = nack_message SS_UNAVAILABLE
     else current_ss_index s' = (k + 1) mod num_registered_ss s \<and>
       (case outcome (forward (env_peer env) (registered_ss s ! nat k) m) of
          Some e \<Rightarrow> resp = nack_message e \<and> nm_dir s' = nm_dir s \<and> registered_ss s' = registered_ss s
        | None \<Rightarrow> resp = ack_message \<and> nm_dir s' = (nm_dir s)(msg_path m \<mapsto> k) \<and>
            listed (registered_ss s' ! nat k) = append_listed (registered_ss s ! nat k) (msg_path m)))"
proof -
  consider (old) k where "nm_dir s (msg_path m) = Some k"
    | (none) "nm_dir s (msg_path m) = None" "\<not> num_registered_ss s > 0"
    | (new) "nm_dir s (msg_path m) = None" "num_registered_ss s > 0" by fastforce
  then show ?thesis
  proof cases
    case old
    with create_exists op inv show ?thesis by (auto simp: nm_dispatch_def)
  next
    case none
    then have "num_registered_ss s = 0" using inv by (simp add: nm_inv_def)
    with none create_no_server [OF none] op inv show ?thesis by (auto simp: nm_dispatch_def)
  next
    case new
    have k: "0 \<le> k" "k < num_registered_ss (advance s)"
      using nm_inv_current [OF inv new(2)] by (auto simp: k_def)
    note adv = nm_inv_advance' [OF inv new(2)] and fwd = create_forward [OF inv new, of env, folded k_def]
    have idx: "current_ss_index (advance s) = (k + 1) mod num_registered_ss s" by (simp add: advance_def k_def)
    have len: "nat k < length (registered_ss s)"
      using nm_inv_server(3) [OF inv k(1)] k(2) by simp
    show ?thesis
    proof (cases "outcome (forward (env_peer env) (registered_ss s ! nat k) m)")
      case (Some e)
      with fwd new op idx adv show ?thesis by (simp add: nm_dispatch_def Let_def)
    next
      case None
      have "length (msg_path m) < MAX_PATH_LEN" using wf by (simp add: wf_message_def)
      from add_path_env [OF adv env k this] obtain s' ss' where
        "add_path (env_trie_malloc env 0) (advance s) k (msg_path m) = Some s'" "nm_inv s'"
        "nm_dir s' = (nm_dir s)(msg_path m \<mapsto> k)" "registered_ss s' = (registered_ss s)[nat k := ss']"
        "listed ss' = append_listed (registered_ss s ! nat k) (msg_path m)"
        "current_ss_index s' = current_ss_index (advance s)" by auto
      with fwd None new op idx len show ?thesis by (simp add: nm_dispatch_def Let_def)
    qed
  qed
qed

theorem nm_create_correct_witness:
  "\<exists>s s'. nm_dispatch good_env s (zero_message\<lparr>msg_operation := CREATE_FILE, msg_path := ''b''\<rparr>) =
     Some (s', ack_message) \<and> nm_dir s = [''a'' \<mapsto> 0] \<and> nm_dir s' = [''a'' \<mapsto> 0, ''b'' \<mapsto> 0]"
proof -
  obtain s where s: "nm_inv s" "nm_dir s = [''a'' \<mapsto> 0]" "num_registered_ss s = 1" "current_ss_index s = 0"
    using one_server by blast
  let ?m = "zero_message\<lparr>msg_operation := CREATE_FILE, msg_path := ''b''\<rparr>"
  have "wf_message ?m" using wf_zero_message by (simp add: wf_message_def size_defs)
  from nm_create_correct [OF s(1) good_env_malloc this] s show ?thesis
    by (auto simp: good_env_forward)
qed

text \<open>
  Property C5: a deletion, in a state whose cache can be removed from. A path that the trie
  does not have is refused with \<open>FILE_NOT_FOUND\<close>; a failing or refusing server leaves the
  state as it is; otherwise the path, and no other, leaves the trie, the first of its
  occurrences leaves the record of its server, and the cache does not hold it any more.
\<close>

theorem nm_delete_correct:
  assumes inv: "nm_inv s" and sim: "lru_sim (path_lru_cache s) es"
    and ex: "lru_exact_at (path_lru_cache s) (msg_path m)" and op: "msg_operation m = DELETE_FILE"
  shows "\<exists>s' resp. nm_dispatch env s m = Some (s', resp) \<and> nm_inv s' \<and>
    (case nm_dir s (msg_path m) of
       None \<Rightarrow> s' = s \<and> resp = nack_message FILE_NOT_FOUND
     | Some k \<Rightarrow>
         (case outcome (forward (env_peer env) (registered_ss s ! nat k) m) of
            Some e \<Rightarrow> s' = s \<and> resp = nack_message e
          | None \<Rightarrow> resp = ack_message \<and> nm_dir s' = (nm_dir s)(msg_path m := None) \<and>
              listed (registered_ss s' ! nat k) = remove1 (msg_path m) (listed (registered_ss s ! nat k)) \<and>
              msg_path m \<notin> cached_paths (path_lru_cache s')))"
proof (cases "nm_dir s (msg_path m)")
  case None
  with delete_missing op inv show ?thesis by (auto simp: nm_dispatch_def)
next
  case (Some k)
  show ?thesis
  proof (cases "outcome (forward (env_peer env) (registered_ss s ! nat k) m)")
    case (Some e)
    with delete_refused [OF inv \<open>nm_dir s (msg_path m) = Some k\<close>] \<open>nm_dir s (msg_path m) = Some k\<close> op inv
    show ?thesis by (auto simp: nm_dispatch_def)
  next
    case None
    have kb: "0 \<le> k" "k < num_registered_ss s" using nm_inv_dir [OF inv Some] by auto
    obtain c where c: "lru_remove (path_lru_cache s) (msg_path m) = Some c"
      "lru_sim c (ideal_remove es (msg_path m))" using sim_remove [OF sim ex] by blast
    have "msg_path m \<notin> cached_paths c"
      unfolding sim_cached(1) [OF c(2)] by (auto simp: ideal_remove_def drop_key_def)
    with delete_run [OF inv Some None c(1)] Some None op nm_inv_server(3) [OF inv kb] show ?thesis
      by (auto simp: nm_dispatch_def)
  qed
qed

theorem nm_delete_correct_witness:
  "\<exists>s s'. nm_dispatch good_env s (zero_message\<lparr>msg_operation := DELETE_FILE, msg_path := ''a''\<rparr>) =
     Some (s', ack_message) \<and> nm_dir s = [''a'' \<mapsto> 0] \<and> nm_dir s' = Map.empty \<and> listed (registered_ss s' ! 0) = []"
proof -
  obtain s where s: "nm_inv s" "nm_dir s = [''a'' \<mapsto> 0]" "path_lru_cache s = lru_init"
    "listed (registered_ss s ! 0) = [''a'']" using one_server by blast
  have "lru_sim (path_lru_cache s) []" "lru_exact_at (path_lru_cache s) ''a''"
    using s(3) lru_sim_init by (simp_all add: lru_exact_def)
  with nm_delete_correct [OF s(1), of "[]" "zero_message\<lparr>msg_operation := DELETE_FILE, msg_path := ''a''\<rparr>" good_env] s
  show ?thesis by (auto simp: good_env_forward)
qed

text \<open>
  Property C6: a copy. Without the source path there is \<open>FILE_NOT_FOUND\<close>. Otherwise the
  server of the source path, and only that one, is asked to copy to the server of the
  destination path, or, if the trie does not have that path, to the next server in turn. A
  failure is passed on and leaves the trie as it is; a success maps the destination path to
  that server if it was new.
\<close>

theorem nm_copy_correct:
  assumes inv: "nm_inv s" and env: "all_malloc env" and wf: "wf_message m" and op: "msg_operation m = COPY_FILE"
  defines "d \<equiv> (case nm_dir s (msg_path2 m) of Some d \<Rightarrow> d | None \<Rightarrow> current_ss_index s)"
  shows "\<exists>s' resp. nm_dispatch env s m = Some (s', resp) \<and> nm_inv s' \<and>
    (case nm_dir s (msg_path m) of
       None \<Rightarrow> s' = s \<and> resp = nack_message FILE_NOT_FOUND
     | Some k \<Rightarrow>
         (case outcome (forward (env_peer env) (registered_ss s ! nat k) (copy_request m (registered_ss s ! nat d))) of
            Some e \<Rightarrow> resp = nack_message e \<and> nm_dir s' = nm_dir s \<and> registered_ss s' = registered_ss s
          | None \<Rightarrow> resp = ack_message \<and> nm_dir s' = (nm_dir s)(msg_path2 m \<mapsto> d)))"
proof (cases "nm_dir s (msg_path m)")
  case None
  with copy_missing op inv show ?thesis by (auto simp: nm_dispatch_def)
next
  case (Some k)
  then have pos: "num_registered_ss s > 0" using nm_inv_dir [OF inv Some] by linarith
  note adv = nm_inv_advance' [OF inv pos] and fwd = copy_forward [OF inv wf Some refl refl, of env, folded d_def]
  let ?r = "outcome (forward (env_peer env) (registered_ss s ! nat k) (copy_request m (registered_ss s ! nat d)))"
  show ?thesis
  proof (cases "nm_dir s (msg_path2 m)")
    case old: (Some d')
    then have "nm_dir s = (nm_dir s)(msg_path2 m \<mapsto> d)" by (auto simp: d_def fun_eq_iff)
    with fwd old inv op Some show ?thesis by (cases ?r) (simp_all add: nm_dispatch_def)
  next
    case None
    then have d: "0 \<le> d" "d < num_registered_ss (advance s)" using nm_inv_current [OF inv pos] by (auto simp: d_def)
    have "length (msg_path2 m) < MAX_PATH_LEN" using wf by (simp add: wf_message_def)
    from add_path_env [OF adv env d this] obtain s' where
      "add_path (env_trie_malloc env 0) (advance s) d (msg_path2 m) = Some s'" "nm_inv s'"
      "nm_dir s' = (nm_dir s)(msg_path2 m \<mapsto> d)" by auto
    with fwd None op Some adv show ?thesis by (cases ?r) (simp_all add: nm_dispatch_def)
  qed
qed

theorem nm_copy_correct_witness:
  "\<exists>s s'. nm_dispatch good_env s (zero_message\<lparr>msg_operation := COPY_FILE, msg_path := ''a'', msg_path2 := ''b''\<rparr>) =
     Some (s', ack_message) \<and> nm_dir s = [''a'' \<mapsto> 0] \<and> nm_dir s' = [''a'' \<mapsto> 0, ''b'' \<mapsto> 0]"
proof -
  obtain s where s: "nm_inv s" "nm_dir s = [''a'' \<mapsto> 0]" "current_ss_index s = 0" using one_server by blast
  let ?m = "zero_message\<lparr>msg_operation := COPY_FILE, msg_path := ''a'', msg_path2 := ''b''\<rparr>"
  have "wf_message ?m" using wf_zero_message by (simp add: wf_message_def size_defs)
  from nm_copy_correct [OF s(1) good_env_malloc this] s show ?thesis by (auto simp: good_env_forward)
qed

text \<open>
  Property C7: a registration. The 101st server is refused with \<open>SS_UNAVAILABLE\<close>; otherwise
  the next record is filled with the message's address, ports and paths, every path of the
  message is mapped to it, also one that another server had, and no other path changes.
\<close>

theorem nm_register_correct:
  assumes inv: "nm_inv s" and env: "all_malloc env" and wf: "wf_message m" and op: "msg_operation m = REGISTER_SS"
    and n: "0 \<le> msg_num_accessible_paths m" "msg_num_accessible_paths m \<le> 10"
  defines "k \<equiv> num_registered_ss s" and "ps \<equiv> take (nat (msg_num_accessible_paths m)) (msg_accessible_paths m)"
  shows "\<exists>s' resp. nm_dispatch env s m = Some (s', resp) \<and> nm_inv s' \<and>
    (if k = 100 then s' = s \<and> resp = nack_message SS_UNAVAILABLE
     else resp = ack_message \<and> num_registered_ss s' = k + 1 \<and>
       (\<exists>ss. registered_ss s' = (registered_ss s)[nat k := ss] \<and> ssi_ip ss = msg_ss_ip m \<and>
         ssi_nm_port ss = msg_ss_nm_port m \<and> ssi_client_port ss = msg_ss_client_port m \<and> listed ss = ps) \<and>
       nm_dir s' = (\<lambda>q. if q \<in> set ps then Some k else nm_dir s q))"
proof (cases "k = 100")
  case True
  then have "\<not> num_registered_ss s < int MAX_SS" by (simp add: k_def MAX_SS_def)
  from register_full [OF this] True op inv show ?thesis by (auto simp: nm_dispatch_def)
next
  case False
  then have "num_registered_ss s < int MAX_SS" using inv by (simp add: k_def nm_inv_def MAX_SS_def)
  moreover have "msg_num_accessible_paths m \<le> int MAX_ACCESSIBLE_PATHS" using n(2) by (simp add: size_defs)
  ultimately obtain s' ss where "handle_register env s m = Some (s', ack_message)" "nm_inv s'"
    "nm_dir s' = (\<lambda>q. if q \<in> set ps then Some k else nm_dir s q)"
    "registered_ss s' = (registered_ss s)[nat k := ss]" "ssi_ip ss = msg_ss_ip m"
    "ssi_nm_port ss = msg_ss_nm_port m" "ssi_client_port ss = msg_ss_client_port m" "listed ss = ps"
    "num_registered_ss s' = k + 1"
    using register_run [OF inv env wf n(1)] unfolding k_def ps_def by blast
  with False op show ?thesis by (simp add: nm_dispatch_def) blast
qed

theorem nm_register_correct_witness:
  "\<exists>s'. nm_dispatch good_env nm_init one_path_message = Some (s', ack_message) \<and> nm_dir s' = [''a'' \<mapsto> 0]"
proof -
  have "0 \<le> msg_num_accessible_paths one_path_message" "msg_num_accessible_paths one_path_message \<le> 10"
    "msg_operation one_path_message = REGISTER_SS" "num_registered_ss nm_init = 0"
    "set (take (nat (msg_num_accessible_paths one_path_message)) (msg_accessible_paths one_path_message)) = {''a''}"
    "nm_dir nm_init = Map.empty"
    by (simp_all add: one_path_message_def nm_init_def fun_eq_iff)
  from nm_register_correct [OF nm_inv_init good_env_malloc one_path_wf this(3,1,2), unfolded this(4)]
  obtain s' where "nm_dispatch good_env nm_init one_path_message = Some (s', ack_message)"
    "nm_dir s' = (\<lambda>q. if q \<in> set (take (nat (msg_num_accessible_paths one_path_message))
        (msg_accessible_paths one_path_message)) then Some 0 else nm_dir nm_init q)" by auto
  moreover from this(2) \<open>set _ = {''a''}\<close> \<open>nm_dir nm_init = Map.empty\<close> have "nm_dir s' = [''a'' \<mapsto> 0]"
    by (simp only: fun_eq_iff fun_upd_apply singleton_iff) simp
  ultimately show ?thesis by blast
qed

text \<open>
  Property C8: a listing sends the first ten paths of the trie in preorder, a line each,
  when the text fits the 8192 bytes of the message; when it does not, the server overruns
  the message. Without memory there is \<open>NETWORK_ERROR\<close>.
\<close>

theorem nm_list_correct:
  assumes "nm_inv s" and "msg_operation m = LIST_PATHS"
  shows "nm_dispatch env s m =
    (let text = join_lines (take 10 (trie_paths (path_trie_root s))) in
     if \<not> env_list_malloc env then Some (s, nack_message NETWORK_ERROR)
     else if length text < 8192
     then Some (s, ack_message\<lparr>msg_data := text, msg_data_size := int (length text)\<rparr>)
     else None)"
proof (cases "env_list_malloc env")
  case True
  with list_run [OF assms(1) True] assms(2) show ?thesis by (simp add: nm_dispatch_def size_defs)
next
  case False
  with assms(2) show ?thesis by (simp add: nm_dispatch_def handle_list_def)
qed

theorem nm_list_correct_witness:
  "\<exists>s. nm_dispatch good_env s (zero_message\<lparr>msg_operation := LIST_PATHS\<rparr>) =
     Some (s, ack_message\<lparr>msg_data := ''a'', msg_data_size := 1\<rparr>)"
proof -
  obtain s where s: "nm_inv s" "nm_dir s = [''a'' \<mapsto> 0]" using one_server by blast
  have "set (trie_paths (path_trie_root s)) = {''a''}"
    unfolding trie_paths_set s(2) by simp
  then have "trie_paths (path_trie_root s) = [''a'']"
    by (rule strict_singleton [OF trie_paths_sorted])
  with nm_list_correct [OF s(1), of "zero_message\<lparr>msg_operation := LIST_PATHS\<rparr>" good_env]
  have "nm_dispatch good_env s (zero_message\<lparr>msg_operation := LIST_PATHS\<rparr>) =
     Some (s, ack_message\<lparr>msg_data := ''a'', msg_data_size := 1\<rparr>)"
    by (simp add: good_env_def Let_def)
  then show ?thesis by (rule exI)
qed

text \<open>
  Property C27: the round robin. Among \<open>n\<close> registered servers, \<open>n\<close> selections in a row
  return every server once, and then start again where they began.
\<close>

theorem nm_round_robin:
  assumes "nm_inv s" and "num_registered_ss s = int n" and "n > 0"
  shows "set (select_many n s) = Some ` {0..<int n} \<and> distinct (select_many n s) \<and>
    select_many (n + n) s = select_many n s @ select_many n s"
proof -
  let ?i = "current_ss_index s" and ?f = "\<lambda>i. Some ((current_ss_index s + int i) mod int n)"
  have i: "0 \<le> ?i" "?i < int n" using nm_inv_current [OF assms(1)] assms(2,3) by auto
  have many: "select_many m s = map ?f [0..<m]" for m
    using select_many_eq [of s m] i assms(2,3) by simp
  have inj: "inj_on ?f {0..<n}"
  proof (rule inj_onI)
    fix x y assume xy: "x \<in> {0..<n}" "y \<in> {0..<n}" "?f x = ?f y"
    then have "(?i + int x) mod int n = (?i + int y) mod int n" by simp
    then have "int n dvd int x - int y" by (metis add_diff_cancel_left mod_eq_dvd_iff)
    with xy(1,2) show "x = y" using zdvd_imp_le [of "int n" "int x - int y"] zdvd_imp_le [of "int n" "int y - int x"]
      by (cases x y rule: linorder_cases) (auto simp: dvd_diff_commute)
  qed
  then have dist: "distinct (select_many n s)" by (simp add: many distinct_map)
  have "set (select_many n s) \<subseteq> Some ` {0..<int n}" using assms(3) by (auto simp: many)
  moreover have "card (set (select_many n s)) = card (Some ` {0..<int n})"
    using distinct_card [OF dist] by (simp add: many card_image)
  ultimately have "set (select_many n s) = Some ` {0..<int n}" by (intro card_subset_eq) auto
  moreover have "[0..<n + n] = [0..<n] @ map (\<lambda>j. j + n) [0..<n]"
    using upt_add_eq_append [of 0 n n] map_add_upt [of n n] by simp
  then have "select_many (n + n) s = select_many n s @ select_many n s"
    unfolding many by (simp add: add.assoc [symmetric] comp_def)
  ultimately show ?thesis using dist by simp
qed

theorem nm_round_robin_witness:
  "\<exists>s. num_registered_ss s = 1 \<and> set (select_many 1 s) = {Some 0}"
proof -
  obtain s where s: "nm_inv s" "num_registered_ss s = int 1" using one_server by auto
  from nm_round_robin [OF s] s(2) show ?thesis by (intro exI [of _ s]) auto
qed

text \<open>
  Property C37: removing a path from a server's record removes the first of its occurrences,
  keeps the order of the others, and changes neither the address nor the ports; a record
  that does not list the path keeps its list.
\<close>

theorem nm_remove_path_correct:
  assumes "ss_wf ss"
  shows "\<exists>ss'. remove_path_from_ss_info ss p = Some ss' \<and> ss_wf ss' \<and> listed ss' = remove1 p (listed ss) \<and>
    ssi_ip ss' = ssi_ip ss \<and> ssi_nm_port ss' = ssi_nm_port ss \<and> ssi_client_port ss' = ssi_client_port ss"
  using remove_path_from_run [OF assms, of 0 p] by (simp add: remove_path_from_ss_info_def)

theorem nm_remove_path_correct_witness:
  "\<exists>ss'. remove_path_from_ss_info zero_ss_info ''a'' = Some ss' \<and> listed ss' = []"
  using nm_remove_path_correct [OF ss_wf_zero, of "''a''"] by (auto simp: listed_def zero_ss_info_def)

end
