(* ===== verification/Naming_Cache.thy ===== *)
theory Naming_Cache
  imports Naming_Props
begin

text \<open>
  What the cache of \<open>src/naming_server.c\<close> adds to the naming server: nothing but speed, for
  clients that keep a contract on the paths that were looked up, which is shown as the
  equivalence with a server that looks every path up in the trie; and, for requests that
  break the contract, the wrong addresses and the use of freed memory it leads to.
\<close>

subsection \<open>The server without a cache\<close>

definition is_lookup :: "OperationType \<Rightarrow> bool" where
  "is_lookup op \<longleftrightarrow> op \<in> {READ_FILE, WRITE_FILE, GET_FILE_INFO}"

definition uncached_dispatch :: "nm_env \<Rightarrow> nm_state \<Rightarrow> Message \<Rightarrow> (nm_state \<times> Message) c_run" where
  "uncached_dispatch env s m =
     (if is_lookup (msg_operation m) then Some (s, lookup_response s (msg_path m)) else nm_dispatch env s m)"

fun uncached_serve :: "nm_state \<Rightarrow> (nm_env \<times> int \<times> Message) list \<Rightarrow> (nm_state \<times> Message option list) c_run" where
  "uncached_serve s [] = Some (s, [])"
| "uncached_serve s ((env, n, m) # rest) = do {
     (s, resp) \<leftarrow> (if n \<le> 0 then Some (s, None)
                  else do { (s, resp) \<leftarrow> uncached_dispatch env s m; Some (s, Some resp) });
     (s, resps) \<leftarrow> uncached_serve s rest;
     Some (s, resp # resps)
   }"

text \<open>
  The contract, for the set \<open>L\<close> of the paths looked up so far: no such path is deleted or
  brought by a registration, and messages are well-formed.
\<close>

fun keeps_contract :: "string set \<Rightarrow> (nm_env \<times> int \<times> Message) list \<Rightarrow> bool" where
  "keeps_contract L [] \<longleftrightarrow> True"
| "keeps_contract L ((env, n, m) # rest) \<longleftrightarrow>
     (if n \<le> 0 then keeps_contract L rest
      else all_malloc env \<and> wf_message m \<and>
        (msg_operation m = REGISTER_SS \<longrightarrow> 0 \<le> msg_num_accessible_paths m \<and> msg_num_accessible_paths m \<le> 10 \<and>
           set (take (nat (msg_num_accessible_paths m)) (msg_accessible_paths m)) \<inter> L = {}) \<and>
        (msg_operation m = DELETE_FILE \<longrightarrow> msg_path m \<notin> L) \<and>
        keeps_contract (if is_lookup (msg_operation m) then insert (msg_path m) L else L) rest)"

subsection \<open>Requests that do not use the cache\<close>

abbreviation with_cache :: "LRUCache \<Rightarrow> nm_state \<times> Message \<Rightarrow> nm_state \<times> Message" where
  "with_cache c r \<equiv> ((fst r)\<lparr>path_lru_cache := c\<rparr>, snd r)"

lemma register_frame:
  "handle_register env (s\<lparr>path_lru_cache := c\<rparr>) m = map_option (with_cache c) (handle_register env s m)"
  by (cases s) (auto simp: handle_register_def Let_def split: Option.bind_splits)

lemma list_frame:
  "handle_list env (s\<lparr>path_lru_cache := c\<rparr>) = map_option (with_cache c) (handle_list env s)"
  by (cases s) (auto simp: handle_list_def Let_def split: Option.bind_splits)

lemma add_path_frame:
  "add_path mal (s\<lparr>path_lru_cache := c\<rparr>) k p = map_option (\<lambda>s. s\<lparr>path_lru_cache := c\<rparr>) (add_path mal s k p)"
  by (cases s) (auto simp: add_path_def split: Option.bind_splits)

lemma available_frame:
  "get_available_ss_for_creation (s\<lparr>path_lru_cache := c\<rparr>) =
     ((fst (get_available_ss_for_creation s))\<lparr>path_lru_cache := c\<rparr>, snd (get_available_ss_for_creation s))"
  by (simp add: get_available_ss_for_creation_def)

lemma create_frame:
  "handle_create env (s\<lparr>path_lru_cache := c\<rparr>) m = map_option (with_cache c) (handle_create env s m)"
  by (cases "get_available_ss_for_creation s")
    (auto simp: handle_create_def available_frame add_path_frame
      split: Option.bind_splits option.splits sum.splits)

lemma copy_frame:
  "handle_copy env (s\<lparr>path_lru_cache := c\<rparr>) m = map_option (with_cache c) (handle_copy env s m)"
  by (cases "get_available_ss_for_creation s")
    (auto simp: handle_copy_def Let_def available_frame add_path_frame
      split: Option.bind_splits option.splits sum.splits if_splits)

lemma delete_frame:
  assumes "lru_remove c (msg_path m) = Some c" and "lru_remove (path_lru_cache s) (msg_path m) = Some (path_lru_cache s)"
  shows "handle_delete env (s\<lparr>path_lru_cache := c\<rparr>) m = map_option (with_cache c) (handle_delete env s m)"
  using assms
  by (cases s) (auto simp: handle_delete_def Let_def split: Option.bind_splits option.splits sum.splits if_splits)

lemma dispatch_frame:
  assumes "\<not> is_lookup (msg_operation m)"
    and "msg_operation m = DELETE_FILE \<Longrightarrow> lru_remove c (msg_path m) = Some c \<and>
      lru_remove (path_lru_cache s) (msg_path m) = Some (path_lru_cache s)"
  shows "nm_dispatch env (s\<lparr>path_lru_cache := c\<rparr>) m = map_option (with_cache c) (nm_dispatch env s m)"
  using assms
  by (cases "msg_operation m")
    (simp_all add: nm_dispatch_def is_lookup_def register_frame list_frame create_frame copy_frame delete_frame)

text \<open>A path that no node of an intact cache holds is removed without effect.\<close>

lemma lru_remove_absent:
  assumes "lru_rep c xs" and "lru_live c xs" and "p \<notin> cached_paths c"
  shows "lru_remove c p = Some c"
proof -
  have "lru_hit c xs p = None"
    using assms(3) lru_hit_Some(2) [of c xs p] by (cases "lru_hit c xs p") (auto simp: cached_paths_def)
  with assms(1,2) show ?thesis by (rule lru_remove_miss)
qed

lemma init_cache: "lru_rep lru_init []" "lru_live lru_init []" "cached_paths lru_init = {}"
  using lru_rep_init by (simp_all add: lru_live_def cached_paths_def path_of_def lru_init_def)

lemma list_state: "handle_list env s = Some (s', r) \<Longrightarrow> s' = s"
  by (auto simp: handle_list_def Let_def split: if_splits Option.bind_splits)

subsection \<open>One request\<close>

text \<open>
  The simulation: the two servers differ in their caches only; the one of the first holds
  addresses of the trie for paths that were looked up, and its slots are exact.
\<close>

definition mirrors :: "string set \<Rightarrow> nm_state \<Rightarrow> nm_state \<Rightarrow> bool" where
  "mirrors L s t \<longleftrightarrow> nm_inv t \<and> path_lru_cache t = lru_init \<and> s = t\<lparr>path_lru_cache := path_lru_cache s\<rparr> \<and>
     (\<exists>xs. coherent s xs) \<and> lru_exact (path_lru_cache s) \<and> cached_paths (path_lru_cache s) \<subseteq> L"

lemma mirrors_lookup:
  assumes mir: "mirrors L s t" and wf: "wf_message m" and op: "is_lookup (msg_operation m)"
  shows "\<exists>s'. nm_dispatch env s m = Some (s', lookup_response t (msg_path m)) \<and> mirrors (insert (msg_path m) L) s' t"
proof -
  obtain xs where coh: "coherent s xs" using mir by (auto simp: mirrors_def)
  have st: "s = t\<lparr>path_lru_cache := path_lru_cache s\<rparr>" and ex: "lru_exact (path_lru_cache s)"
    and t: "nm_inv t" "path_lru_cache t = lru_init" "cached_paths (path_lru_cache s) \<subseteq> L" using mir by (simp_all add: mirrors_def)
  have inv: "nm_inv s" using t(1) by (subst st) (simp add: nm_inv_cache)
  have "length (msg_path m) < MAX_PATH_LEN" using wf by (simp add: wf_message_def)
  from lookup_run [OF inv coh this lru_exact_tail [OF ex], of env] ex obtain c ys where c:
    "handle_lookup env s m = Some (s\<lparr>path_lru_cache := c\<rparr>, lookup_response s (msg_path m))"
    "coherent (s\<lparr>path_lru_cache := c\<rparr>) ys" "cached_paths c \<subseteq> insert (msg_path m) (cached_paths (path_lru_cache s))"
    "lru_exact c" by blast
  have s': "s\<lparr>path_lru_cache := c\<rparr> = t\<lparr>path_lru_cache := c\<rparr>" by (subst st) simp
  have "lookup_response s = lookup_response t" by (subst st) (auto simp: lookup_response_def fun_eq_iff split: option.splits)
  moreover have "nm_dispatch env s m = handle_lookup env s m" using op by (auto simp: nm_dispatch_def is_lookup_def)
  moreover have "mirrors (insert (msg_path m) L) (s\<lparr>path_lru_cache := c\<rparr>) t"
    using c(2-4) t s' by (auto simp: mirrors_def)
  ultimately show ?thesis using c(1) by auto
qed

lemma mirrors_safe:
  assumes mir: "mirrors L s t" and wf: "wf_message m" and op: "\<not> is_lookup (msg_operation m)" "msg_operation m \<noteq> LIST_PATHS"
    and reg: "msg_operation m = REGISTER_SS \<Longrightarrow> 0 \<le> msg_num_accessible_paths m \<and> msg_num_accessible_paths m \<le> 10 \<and>
      set (take (nat (msg_num_accessible_paths m)) (msg_accessible_paths m)) \<inter> L = {}"
    and del: "msg_operation m = DELETE_FILE \<Longrightarrow> msg_path m \<notin> L"
  shows "nm_safe s m" and "nm_good s"
proof -
  let ?c = "path_lru_cache s"
  have st: "s = t\<lparr>path_lru_cache := ?c\<rparr>" and t: "nm_inv t" "cached_paths ?c \<subseteq> L" and coh: "\<exists>xs. coherent s xs"
    using mir by (simp_all add: mirrors_def)
  have "msg_path m \<notin> cached_paths ?c" if "msg_operation m = DELETE_FILE" using del [OF that] t(2) by blast
  then have "lru_removable ?c (msg_path m)" if "msg_operation m = DELETE_FILE"
    using that by (auto simp: lru_removable_def cached_paths_def)
  then show "nm_safe s m" using op wf reg t(2)
    by (cases "msg_operation m") (auto simp: nm_safe_def is_lookup_def)
  have "nm_inv s" using t(1) by (subst st) (simp add: nm_inv_cache)
  then show "nm_good s" using coh by (simp add: nm_good_def)
qed

lemma mirrors_other:
  assumes mir: "mirrors L s t" and env: "all_malloc env" and wf: "wf_message m" and op: "\<not> is_lookup (msg_operation m)"
    and reg: "msg_operation m = REGISTER_SS \<Longrightarrow> 0 \<le> msg_num_accessible_paths m \<and> msg_num_accessible_paths m \<le> 10 \<and>
      set (take (nat (msg_num_accessible_paths m)) (msg_accessible_paths m)) \<inter> L = {}"
    and del: "msg_operation m = DELETE_FILE \<Longrightarrow> msg_path m \<notin> L"
  shows "case nm_dispatch env t m of
      None \<Rightarrow> nm_dispatch env s m = None
    | Some (t', r) \<Rightarrow> \<exists>s'. nm_dispatch env s m = Some (s', r) \<and> mirrors L s' t'"
proof -
  let ?c = "path_lru_cache s"
  obtain xs where coh: "coherent s xs" using mir by (auto simp: mirrors_def)
  then have rep: "lru_rep ?c xs" "lru_live ?c xs" by (simp_all add: coherent_def)
  have st: "s = t\<lparr>path_lru_cache := ?c\<rparr>" and t: "nm_inv t" "path_lru_cache t = lru_init" "cached_paths ?c \<subseteq> L"
    "lru_exact ?c" using mir by (simp_all add: mirrors_def)
  have rm: "lru_remove ?c (msg_path m) = Some ?c" "lru_remove lru_init (msg_path m) = Some lru_init"
    if "msg_operation m = DELETE_FILE"
    using lru_remove_absent [OF rep] lru_remove_absent [OF init_cache(1,2)] del [OF that] t(3) init_cache(3) by auto
  have fs: "nm_dispatch env s m = map_option (with_cache ?c) (nm_dispatch env t m)"
    using dispatch_frame [OF op, of ?c t env] rm t(2) st by simp
  have ft: "nm_dispatch env t m = map_option (with_cache lru_init) (nm_dispatch env t m)"
  proof -
    have "t\<lparr>path_lru_cache := lru_init\<rparr> = t" using t(2) by (cases t) simp
    moreover have "nm_dispatch env (t\<lparr>path_lru_cache := lru_init\<rparr>) m = map_option (with_cache lru_init) (nm_dispatch env t m)"
      using dispatch_frame [OF op, of lru_init t env] rm t(2) by simp
    ultimately show ?thesis by (simp only:)
  qed
  show ?thesis
  proof (cases "nm_dispatch env t m")
    case None
    with fs show ?thesis by simp
  next
    case (Some x)
    then obtain t' r where x: "x = (t', r)" by (cases x)
    then have s': "nm_dispatch env s m = Some (t'\<lparr>path_lru_cache := ?c\<rparr>, r)" using fs Some by simp
    have t': "path_lru_cache t' = lru_init" using ft Some x by (cases t') simp
    have "\<exists>ys. nm_inv (t'\<lparr>path_lru_cache := ?c\<rparr>) \<and> coherent (t'\<lparr>path_lru_cache := ?c\<rparr>) ys"
    proof (cases "msg_operation m = LIST_PATHS")
      case True
      with s' have "t'\<lparr>path_lru_cache := ?c\<rparr> = s" using list_state by (simp add: nm_dispatch_def)
      moreover have "nm_inv s" using t(1) by (subst st) (simp add: nm_inv_cache)
      ultimately show ?thesis using coh by auto
    next
      case False
      note safe = mirrors_safe [OF mir wf op False reg del]
      have "nm_good (t'\<lparr>path_lru_cache := ?c\<rparr>)" using dispatch_good [OF safe(2) env safe(1)] s' by auto
      then show ?thesis by (auto simp: nm_good_def)
    qed
    then have "mirrors L (t'\<lparr>path_lru_cache := ?c\<rparr>) t'" using t(3,4) t' by (simp add: mirrors_def nm_inv_cache)
    with s' Some x show ?thesis by simp
  qed
qed

subsection \<open>Properties\<close>

lemma serve_mirrors:
  "mirrors L s t \<Longrightarrow> keeps_contract L reqs \<Longrightarrow>
     map_option (\<lambda>(s', resps). (s'\<lparr>path_lru_cache := lru_init\<rparr>, resps)) (nm_serve s reqs) = uncached_serve t reqs"
proof (induction reqs arbitrary: L s t)
  case Nil
  then have "s\<lparr>path_lru_cache := lru_init\<rparr> = t" by (cases s; cases t) (auto simp: mirrors_def)
  then show ?case by simp
next
  case (Cons x reqs)
  obtain env n m where x: "x = (env, n, m)" by (cases x)
  show ?case
  proof (cases "n \<le> 0")
    case True
    then have "handle_connection env s (n, m) = Some (s, None)" by (simp add: handle_connection_def receive_message_def)
    moreover have "keeps_contract L reqs" using Cons.prems(2) x True by simp
    from Cons.IH [OF Cons.prems(1) this] have
      "uncached_serve t reqs = map_option (\<lambda>(s', resps). (s'\<lparr>path_lru_cache := lru_init\<rparr>, resps)) (nm_serve s reqs)" ..
    ultimately show ?thesis using x True by (cases "nm_serve s reqs") auto
  next
    case False
    let ?L = "if is_lookup (msg_operation m) then insert (msg_path m) L else L"
    have con: "all_malloc env" "wf_message m" "keeps_contract ?L reqs" using Cons.prems(2) x False by auto
    have conn: "handle_connection env s (n, m) = do { (s', resp) \<leftarrow> nm_dispatch env s m; Some (s', Some resp) }"
      using False by (simp add: handle_connection_def receive_message_def)
    have "case uncached_dispatch env t m of
        None \<Rightarrow> nm_dispatch env s m = None
      | Some (t', r) \<Rightarrow> \<exists>s'. nm_dispatch env s m = Some (s', r) \<and> mirrors ?L s' t'"
    proof (cases "is_lookup (msg_operation m)")
      case True
      with mirrors_lookup [OF Cons.prems(1) con(2) True, of env] show ?thesis by (simp add: uncached_dispatch_def)
    next
      case no: False
      have "msg_operation m = REGISTER_SS \<Longrightarrow> 0 \<le> msg_num_accessible_paths m \<and> msg_num_accessible_paths m \<le> 10 \<and>
          set (take (nat (msg_num_accessible_paths m)) (msg_accessible_paths m)) \<inter> L = {}"
        "msg_operation m = DELETE_FILE \<Longrightarrow> msg_path m \<notin> L"
        using Cons.prems(2) x False by auto
      from mirrors_other [OF Cons.prems(1) con(1,2) no this] no show ?thesis by (simp add: uncached_dispatch_def)
    qed
    then consider (none) "uncached_dispatch env t m = None" "nm_dispatch env s m = None"
      | (some) t' r s' where "uncached_dispatch env t m = Some (t', r)" "nm_dispatch env s m = Some (s', r)" "mirrors ?L s' t'"
      by (cases "uncached_dispatch env t m") auto
    then show ?thesis
    proof cases
      case none
      with x False conn show ?thesis by simp
    next
      case some
      from Cons.IH [OF some(3) con(3)] have
        "uncached_serve t' reqs = map_option (\<lambda>(s', resps). (s'\<lparr>path_lru_cache := lru_init\<rparr>, resps)) (nm_serve s' reqs)" ..
      with some(1,2) x False conn show ?thesis by (cases "nm_serve s' reqs") auto
    qed
  qed
qed

lemma serve_defined:
  "mirrors L s t \<Longrightarrow> keeps_contract L reqs \<Longrightarrow> \<forall>(env, n, m) \<in> set reqs. msg_operation m \<noteq> LIST_PATHS \<Longrightarrow>
     nm_serve s reqs \<noteq> None"
proof (induction reqs arbitrary: L s t)
  case Nil
  then show ?case by simp
next
  case (Cons x reqs)
  obtain env n m where x: "x = (env, n, m)" by (cases x)
  have rest: "\<forall>(env, n, m) \<in> set reqs. msg_operation m \<noteq> LIST_PATHS" "msg_operation m \<noteq> LIST_PATHS"
    using Cons.prems(3) x by auto
  show ?case
  proof (cases "n \<le> 0")
    case True
    then have "handle_connection env s (n, m) = Some (s, None)" by (simp add: handle_connection_def receive_message_def)
    with Cons.IH [OF Cons.prems(1) _ rest(1)] Cons.prems(2) x True show ?thesis by auto
  next
    case False
    let ?L = "if is_lookup (msg_operation m) then insert (msg_path m) L else L"
    have con: "all_malloc env" "wf_message m" "keeps_contract ?L reqs" using Cons.prems(2) x False by auto
    have conn: "handle_connection env s (n, m) = do { (s', resp) \<leftarrow> nm_dispatch env s m; Some (s', Some resp) }"
      using False by (simp add: handle_connection_def receive_message_def)
    have "\<exists>s' r t'. nm_dispatch env s m = Some (s', r) \<and> mirrors ?L s' t'"
    proof (cases "is_lookup (msg_operation m)")
      case True
      with mirrors_lookup [OF Cons.prems(1) con(2) True, of env] show ?thesis by auto
    next
      case no: False
      have c: "msg_operation m = REGISTER_SS \<Longrightarrow> 0 \<le> msg_num_accessible_paths m \<and> msg_num_accessible_paths m \<le> 10 \<and>
          set (take (nat (msg_num_accessible_paths m)) (msg_accessible_paths m)) \<inter> L = {}"
        "msg_operation m = DELETE_FILE \<Longrightarrow> msg_path m \<notin> L"
        using Cons.prems(2) x False by auto
      note safe = mirrors_safe [OF Cons.prems(1) con(2) no rest(2) c]
      obtain s' r where "nm_dispatch env s m = Some (s', r)" using dispatch_good [OF safe(2) con(1) safe(1)] by blast
      with mirrors_other [OF Cons.prems(1) con(1,2) no c] no show ?thesis by (auto split: option.splits)
    qed
    then obtain s' r t' where "nm_dispatch env s m = Some (s', r)" "mirrors ?L s' t'" by blast
    with Cons.IH [OF _ con(3) rest(1)] x conn show ?thesis by fastforce
  qed
qed

lemma mirrors_start: "mirrors {} nm_init nm_init"
proof -
  have "path_lru_cache nm_init = lru_init" by (simp add: nm_init_def)
  moreover have "coherent nm_init []" by (rule coherent_init)
  ultimately show ?thesis
    using nm_inv_init lru_sim_init init_cache(3) unfolding mirrors_def by (auto intro: exI [of _ "[]"])
qed

text \<open>
  Property C3: the cache is invisible to clients that keep the contract. For any sequence of
  connections in which, once a path has been looked up, it is neither deleted nor brought by
  a registration, the naming server gives the same responses, and ends in the same
  state but for its cache, as the server that looks every path up in the trie. Collisions of
  the hash and a full cache are allowed. Such a sequence has a defined outcome if it has no
  listing, the only request that can overrun a buffer.
\<close>

theorem nm_cache_invisible:
  assumes "keeps_contract {} reqs"
  shows "map_option (\<lambda>(s, resps). (s\<lparr>path_lru_cache := lru_init\<rparr>, resps)) (nm_serve nm_init reqs) =
      uncached_serve nm_init reqs \<and>
    ((\<forall>(env, n, m) \<in> set reqs. msg_operation m \<noteq> LIST_PATHS) \<longrightarrow> nm_serve nm_init reqs \<noteq> None)"
  using serve_mirrors [OF mirrors_start assms] serve_defined [OF mirrors_start assms] by blast

definition request :: "OperationType \<Rightarrow> string \<Rightarrow> nm_env \<times> int \<times> Message" where
  "request op p = (good_env, 1, zero_message\<lparr>msg_operation := op, msg_path := p\<rparr>)"

lemma request_ok: "length p < 1024 \<Longrightarrow> wf_message (zero_message\<lparr>msg_operation := op, msg_path := p\<rparr>)"
  using wf_zero_message by (simp add: wf_message_def size_defs)

theorem nm_cache_invisible_witness:
  "\<exists>s resps. nm_serve nm_init
     [(good_env, 1, one_path_message), request READ_FILE ''a'', request CREATE_FILE ''aZ'',
      request WRITE_FILE ''aZ'', request READ_FILE ''a''] = Some (s, resps) \<and>
   uncached_serve nm_init
     [(good_env, 1, one_path_message), request READ_FILE ''a'', request CREATE_FILE ''aZ'',
      request WRITE_FILE ''aZ'', request READ_FILE ''a''] = Some (s\<lparr>path_lru_cache := lru_init\<rparr>, resps)"
proof -
  let ?reqs = "[(good_env, 1, one_path_message), request READ_FILE ''a'', request CREATE_FILE ''aZ'',
      request WRITE_FILE ''aZ'', request READ_FILE ''a'']"
  have con: "keeps_contract {} ?reqs" using good_env_malloc one_path_wf request_ok
    by (simp add: request_def one_path_message_def is_lookup_def)
  have "\<forall>(env, n, m) \<in> set ?reqs. msg_operation m \<noteq> LIST_PATHS" by (simp add: request_def one_path_message_def)
  with nm_cache_invisible [OF con] obtain s resps where "nm_serve nm_init ?reqs = Some (s, resps)"
    "map_option (\<lambda>(s, resps). (s\<lparr>path_lru_cache := lru_init\<rparr>, resps)) (nm_serve nm_init ?reqs) = uncached_serve nm_init ?reqs"
    by (cases "nm_serve nm_init ?reqs") auto
  then show ?thesis by (intro exI [of _ s] exI [of _ resps]) simp
qed

subsection \<open>Requests that break the contract\<close>

lemma lookup_dispatch: "is_lookup (msg_operation m) \<Longrightarrow> nm_dispatch env s m = handle_lookup env s m"
  by (auto simp: is_lookup_def nm_dispatch_def)

lemma ack_not_nack: "ack_message \<noteq> nack_message e" "nack_message e \<noteq> ack_message"
  by (auto dest: arg_cong [where f = is_success])

text \<open>An acknowledged deletion has removed the path from the cache.\<close>

lemma delete_acked:
  assumes "msg_operation m = DELETE_FILE" and "nm_dispatch env s m = Some (s', ack_message)"
  shows "lru_remove (path_lru_cache s) (msg_path m) = Some (path_lru_cache s')"
  using assms
  by (auto simp: nm_dispatch_def handle_delete_def Let_def ack_not_nack
      split: option.splits sum.splits if_splits Option.bind_splits)


lemma lru_remove_total:
  assumes "lru_rep c xs" and "lru_live c xs"
  shows "\<exists>c'. lru_remove c p = Some c'"
  using lru_remove_miss [OF assms] lru_remove_hit [OF assms] by (cases "lru_hit c xs p") blast+

lemma delete_acks:
  assumes "nm_inv s" and "nm_dir s p = Some k" and "\<exists>c. lru_remove (path_lru_cache s) p = Some c"
  shows "\<exists>s'. nm_dispatch good_env s (zero_message\<lparr>msg_operation := DELETE_FILE, msg_path := p\<rparr>) = Some (s', ack_message) \<and>
    nm_inv s' \<and> nm_dir s' = (nm_dir s)(p := None)"
proof -
  let ?m = "zero_message\<lparr>msg_operation := DELETE_FILE, msg_path := p\<rparr>"
  obtain c where c: "lru_remove (path_lru_cache s) (msg_path ?m) = Some c" using assms(3) by auto
  have "nm_dir s (msg_path ?m) = Some k" using assms(2) by simp
  from delete_run [OF assms(1) this good_env_forward c] show ?thesis by (auto simp: nm_dispatch_def)
qed

text \<open>A state with two registered paths, both of them cached.\<close>

lemma two_cached:
  "\<exists>s v. nm_inv s \<and> nm_dir s = [''a'' \<mapsto> 0, ''b'' \<mapsto> 0] \<and> lru_exact (path_lru_cache s) \<and>
     lru_sim (path_lru_cache s) [(''b'', v), (''a'', v)]"
proof -
  obtain s where s: "nm_inv s" "nm_dir s = [''a'' \<mapsto> 0]" "num_registered_ss s = 1" using one_server by blast
  have "length ''b'' < MAX_PATH_LEN" "0 < num_registered_ss s" using s(3) by (simp_all add: MAX_PATH_LEN_def)
  from add_path_env [OF s(1) good_env_malloc _ this(2,1)] obtain s1 where
    s1: "nm_inv s1" "nm_dir s1 = [''a'' \<mapsto> 0, ''b'' \<mapsto> 0]" using s(2) by auto
  obtain c1 where c1: "lru_sim c1 [(''a'', zero_ss_info)]" "lru_exact c1" using one_entry by blast
  have "hash_path ''a'' \<noteq> hash_path ''b''" by code_simp
  with sim_put [OF c1(1), of "''b''" zero_ss_info] c1(2) obtain c2 where
    "lru_sim c2 [(''b'', zero_ss_info), (''a'', zero_ss_info)]" "lru_exact c2"
    by (auto simp: ideal_put_def LRU_CACHE_SIZE_def MAX_PATH_LEN_def)
  with s1 show ?thesis by (intro exI [of _ "s1\<lparr>path_lru_cache := c2\<rparr>"] exI [of _ zero_ss_info]) (simp add: nm_inv_cache)
qed


text \<open>
  Property C29: a path that the cache answers and that a further storage server registers
  is still answered with the address of the server it belonged to, although the index now
  gives the new one.
\<close>

theorem nm_reregister_stale:
  assumes inv: "nm_inv s" and coh: "coherent s xs" and hit: "lru_hit (path_lru_cache s) xs p = Some a"
    and env: "all_malloc env" and wf: "wf_message m" and op: "msg_operation m = REGISTER_SS"
    and n: "0 \<le> msg_num_accessible_paths m" "msg_num_accessible_paths m \<le> 10" and room: "num_registered_ss s < 100"
    and p: "p \<in> set (take (nat (msg_num_accessible_paths m)) (msg_accessible_paths m))"
    and look: "msg_operation m' \<in> {READ_FILE, WRITE_FILE, GET_FILE_INFO}" "msg_path m' = p"
  shows "\<exists>k s' c. nm_dir s p = Some k \<and> k < num_registered_ss s \<and>
    nm_dispatch env s m = Some (s', ack_message) \<and> nm_dir s' p = Some (num_registered_ss s) \<and>
    ssi_ip (registered_ss s' ! nat (num_registered_ss s)) = msg_ss_ip m \<and>
    nm_dispatch env' s' m' = Some (s'\<lparr>path_lru_cache := c\<rparr>,
      ack_message\<lparr>msg_ss_ip := ssi_ip (registered_ss s ! nat k),
        msg_ss_client_port := ssi_client_port (registered_ss s ! nat k)\<rparr>)"
proof -
  let ?c = "path_lru_cache s" and ?n = "num_registered_ss s"
  have rep: "lru_rep ?c xs" "lru_live ?c xs" using coh by (simp_all add: coherent_def)
  obtain c v where c: "lru_get ?c p = Some (c, Some v)" "node_data (cache_heap ?c) a = Some (p, v)"
    using lru_get_hit [OF rep hit] by blast
  obtain k where k: "nm_dir s p = Some k" "same_address v (registered_ss s ! nat k)"
    using coherent_node [OF coh lru_hit_Some(1) [OF hit] c(2)] by blast
  have kb: "0 \<le> k" "k < ?n" using nm_inv_dir [OF inv k(1)] by auto
  have "ss_wf (registered_ss s ! nat k)" using nm_inv_server(2) [OF inv kb] .
  then have ip: "length (ssi_ip v) < INET_ADDRSTRLEN" using k(2) by (simp add: ss_wf_def same_address_def)
  have "?n < int MAX_SS" "msg_num_accessible_paths m \<le> int MAX_ACCESSIBLE_PATHS"
    using n(2) room by (simp_all add: size_defs)
  from register_run [OF inv env wf n(1) this(2,1)] obtain s' ss where
    s': "handle_register env s m = Some (s', ack_message)"
    "nm_dir s' = (\<lambda>q. if q \<in> set (take (nat (msg_num_accessible_paths m)) (msg_accessible_paths m)) then Some ?n else nm_dir s q)"
    "registered_ss s' = (registered_ss s)[nat ?n := ss]" "ssi_ip ss = msg_ss_ip m" "path_lru_cache s' = ?c" by blast
  have "nat ?n < length (registered_ss s)" using inv room by (simp add: nm_inv_def MAX_SS_def)
  then have "ssi_ip (registered_ss s' ! nat ?n) = msg_ss_ip m" using s'(3,4) by simp
  moreover have "nm_dir s' p = Some ?n" using s'(2) p by simp
  moreover have "handle_lookup env' s' m' = Some (s'\<lparr>path_lru_cache := c\<rparr>,
      ack_message\<lparr>msg_ss_ip := ssi_ip v, msg_ss_client_port := ssi_client_port v\<rparr>)"
    using s'(5) c(1) look(2) ip by (simp add: handle_lookup_def)
  ultimately show ?thesis using k kb s'(1) op look(1)
    by (intro exI [of _ k] exI [of _ s'] exI [of _ c]) (simp add: lookup_dispatch is_lookup_def same_address_def nm_dispatch_def [of env])
qed

text \<open>The state after the one server's path was looked up, and a second server's registration.\<close>

lemma one_looked_up:
  "\<exists>s xs a. nm_inv s \<and> coherent s xs \<and> lru_hit (path_lru_cache s) xs ''a'' = Some a \<and> num_registered_ss s = 1 \<and>
     nm_dir s = [''a'' \<mapsto> 0] \<and> ssi_ip (registered_ss s ! 0) = ''10.0.0.1''"
proof -
  obtain s where s: "nm_inv s" "num_registered_ss s = 1" "nm_dir s = [''a'' \<mapsto> 0]" "path_lru_cache s = lru_init"
    "ssi_ip (registered_ss s ! 0) = ''10.0.0.1''" using one_server by blast
  let ?v = "registered_ss s ! 0"
  obtain c where "lru_sim c [(''a'', ?v)]"
    using sim_put [of lru_init "[]" "''a''" ?v] lru_sim_init by (auto simp: ideal_put_def LRU_CACHE_SIZE_def MAX_PATH_LEN_def)
  then obtain xs where xs: "lru_rep c xs" "lru_live c xs" "lru_own c xs" "map (node_data (cache_heap c)) xs = [Some (''a'', ?v)]"
    by (auto simp: lru_sim_def)
  then obtain a where a: "xs = [a]" "node_data (cache_heap c) a = Some (''a'', ?v)" by (auto simp: map_eq_Cons_conv)
  then have "path_of (cache_heap c) a = Some ''a''" by (simp add: path_of_data)
  then have "lru_hit c xs ''a'' = Some a" using lru_hit_own [OF xs(3,1), of "''a''" a] a(1) by simp
  moreover have "coherent (s\<lparr>path_lru_cache := c\<rparr>) xs"
    using xs(1,2) a s(3) by (simp add: coherent_def same_address_def LRU_CACHE_SIZE_def)
  ultimately show ?thesis using s by (intro exI [of _ "s\<lparr>path_lru_cache := c\<rparr>"] exI [of _ xs] exI [of _ a]) (simp add: nm_inv_cache)
qed

theorem nm_reregister_stale_witness:
  "\<exists>s s' s'' resp. nm_dispatch good_env s (one_path_message\<lparr>msg_ss_ip := ''10.0.0.2''\<rparr>) = Some (s', ack_message) \<and>
     nm_dir s' ''a'' = Some 1 \<and> ssi_ip (registered_ss s' ! 1) = ''10.0.0.2'' \<and>
     nm_dispatch good_env s' (zero_message\<lparr>msg_operation := READ_FILE, msg_path := ''a''\<rparr>) = Some (s'', resp) \<and>
     msg_ss_ip resp = ''10.0.0.1''"
proof -
  let ?m = "one_path_message\<lparr>msg_ss_ip := ''10.0.0.2''\<rparr>" and ?r = "zero_message\<lparr>msg_operation := READ_FILE, msg_path := ''a''\<rparr>"
  obtain s xs a where s: "nm_inv s" "coherent s xs" "lru_hit (path_lru_cache s) xs ''a'' = Some a"
    "num_registered_ss s = 1" "nm_dir s = [''a'' \<mapsto> 0]" "ssi_ip (registered_ss s ! 0) = ''10.0.0.1''"
    using one_looked_up by blast
  have wf: "wf_message ?m" using one_path_wf by (simp add: wf_message_def size_defs)
  have m: "msg_operation ?m = REGISTER_SS" "0 \<le> msg_num_accessible_paths ?m" "msg_num_accessible_paths ?m \<le> 10"
    "''a'' \<in> set (take (nat (msg_num_accessible_paths ?m)) (msg_accessible_paths ?m))" "num_registered_ss s < 100"
    "msg_operation ?r \<in> {READ_FILE, WRITE_FILE, GET_FILE_INFO}" "msg_path ?r = ''a''"
    using s(4) by (simp_all add: one_path_message_def)
  from nm_reregister_stale [OF s(1-3) good_env_malloc wf m(1-3,5,4,6,7), of good_env] s(4-6) show ?thesis
    by (fastforce simp: ack_message_def)
qed

end
