(* ===== verification/Naming_Race.thy ===== *)
theory Naming_Race
  imports Naming_Props
begin

text \<open>
  Two creations of one path that overlap in \<open>src/naming_server.c\<close>. The handler of a creation
  looks the path up, selects a server and asks it without holding a lock, and takes the
  mutex only to put the path into the index; here it is split at that point, so that
  another handler can run in between.
\<close>

definition create_ask :: "nm_env \<Rightarrow> nm_state \<Rightarrow> Message \<Rightarrow> (nm_state \<times> (Message + int)) c_run" where
  "create_ask env s msg =
     (if trie_search (path_trie_root s) (msg_path msg) \<noteq> None then Some (s, Inl (nack_message FILE_EXISTS))
      else (case get_available_ss_for_creation s of
          (s, None) \<Rightarrow> Some (s, Inl (nack_message SS_UNAVAILABLE))
        | (s, Some k) \<Rightarrow> do {
            ss \<leftarrow> arr_get (registered_ss s) k;
            (case open_peer (env_peer env) (ssi_ip ss) (ssi_nm_port ss) of
               Some e \<Rightarrow> Some (s, Inl (nack_message e))
             | None \<Rightarrow>
                 (case exchange (env_peer env) (ssi_ip ss) (ssi_nm_port ss) msg of
                    Inl e \<Rightarrow> Some (s, Inl (nack_message e))
                  | Inr reply \<Rightarrow>
                      if is_success reply then Some (s, Inr k)
                      else Some (s, Inl (nack_message (msg_error_code reply)))))
          }))"

definition create_commit :: "nm_env \<Rightarrow> nm_state \<Rightarrow> Message \<Rightarrow> int \<Rightarrow> (nm_state \<times> Message) c_run" where
  "create_commit env s msg k = do {
     s \<leftarrow> add_path (env_trie_malloc env 0) s k (msg_path msg);
     Some (s, ack_message)
   }"

text \<open>Without another handler in between, the two halves are the handler.\<close>

lemma handle_create_split:
  "handle_create env s m = do {
     (s, r) \<leftarrow> create_ask env s m;
     case r of Inl resp \<Rightarrow> Some (s, resp) | Inr k \<Rightarrow> create_commit env s m k
   }"
  by (auto simp: handle_create_def create_ask_def create_commit_def
      split: prod.splits option.splits sum.splits Option.bind_splits)

lemma create_ask_run:
  assumes inv: "nm_inv s" and new: "nm_dir s (msg_path m) = None" and pos: "num_registered_ss s > 0"
    and ack: "outcome (forward (env_peer env) (registered_ss s ! nat (current_ss_index s)) m) = None"
  shows "create_ask env s m = Some (advance s, Inr (current_ss_index s))"
proof -
  have "arr_get (registered_ss s) (current_ss_index s) = Some (registered_ss s ! nat (current_ss_index s))"
    using nm_inv_server(1) [OF inv] nm_inv_current [OF inv pos] by blast
  with new ack show ?thesis
    by (auto simp: create_ask_def get_available_some [OF pos] advance_def forward_def outcome_def
        split: option.splits sum.splits if_splits)
qed

text \<open>
  Property C39: two creations of one path that overlap both succeed. If both handlers look
  the path up before either of them puts it into the index, and the servers whose turn it
  is, two different ones, both acknowledge, then both clients are acknowledged and both
  servers have the path, but the index maps it to the second one only.
\<close>

theorem create_race:
  assumes inv: "nm_inv s" and env: "all_malloc env1" "all_malloc env2" and wf: "wf_message m1" "wf_message m2"
    and path: "msg_path m1 = p" "msg_path m2 = p" and new: "nm_dir s p = None" and two: "num_registered_ss s \<ge> 2"
  defines "k1 \<equiv> current_ss_index s" and "k2 \<equiv> (current_ss_index s + 1) mod num_registered_ss s"
  assumes acks: "outcome (forward (env_peer env1) (registered_ss s ! nat k1) m1) = None"
      "outcome (forward (env_peer env2) (registered_ss s ! nat k2) m2) = None"
  shows "\<exists>s1 s2 s3 s4. create_ask env1 s m1 = Some (s1, Inr k1) \<and> create_ask env2 s1 m2 = Some (s2, Inr k2) \<and>
    create_commit env1 s2 m1 k1 = Some (s3, ack_message) \<and> create_commit env2 s3 m2 k2 = Some (s4, ack_message) \<and>
    k1 \<noteq> k2 \<and> nm_inv s4 \<and> nm_dir s4 = (nm_dir s)(p \<mapsto> k2) \<and>
    listed (registered_ss s4 ! nat k1) = append_listed (registered_ss s ! nat k1) p \<and>
    listed (registered_ss s4 ! nat k2) = append_listed (registered_ss s ! nat k2) p"
proof -
  have pos: "num_registered_ss s > 0" using two by simp
  note cur = nm_inv_current [OF inv pos]
  have k: "0 \<le> k1" "k1 < num_registered_ss s" "0 \<le> k2" "k2 < num_registered_ss s" using cur pos by (simp_all add: k1_def k2_def)
  have "k1 \<noteq> k2"
    using cur two by (cases "k1 + 1 = num_registered_ss s") (simp_all add: k1_def k2_def mod_pos_pos_trivial)
  then have ne: "nat k1 \<noteq> nat k2" using k by simp
  let ?s1 = "advance s" and ?s2 = "advance (advance s)"
  have s1: "nm_inv ?s1" "num_registered_ss ?s1 = num_registered_ss s" "registered_ss ?s1 = registered_ss s"
    "nm_dir ?s1 = nm_dir s" "current_ss_index ?s1 = k2" using nm_inv_advance' [OF inv pos] by (simp_all add: advance_def k2_def)
  have s2: "nm_inv ?s2" "num_registered_ss ?s2 = num_registered_ss s" "registered_ss ?s2 = registered_ss s"
    "nm_dir ?s2 = nm_dir s" using nm_inv_advance' [OF s1(1)] s1(2-4) pos by (simp_all add: advance_def)
  have ask: "create_ask env1 s m1 = Some (?s1, Inr k1)" "create_ask env2 ?s1 m2 = Some (?s2, Inr k2)"
    using create_ask_run [OF inv _ pos, of m1 env1] create_ask_run [OF s1(1), of m2 env2] s1(2-5) pos new path acks
    by (simp_all add: k1_def)
  have len: "length p < MAX_PATH_LEN" using wf(1) path(1) by (simp add: wf_message_def)
  have regs: "nat k1 < length (registered_ss s)" "nat k2 < length (registered_ss s)"
    using nm_inv_server(3) [OF inv] k by blast+
  from add_path_run [OF s2(1) _ k(1) _ len, of "env_trie_malloc env1 0"] k s2(2) env(1) obtain s3 ss1 where
    c1: "add_path (env_trie_malloc env1 0) ?s2 k1 p = Some s3" "nm_inv s3" "nm_dir s3 = (nm_dir s)(p \<mapsto> k1)"
    "registered_ss s3 = (registered_ss s)[nat k1 := ss1]" "listed ss1 = append_listed (registered_ss s ! nat k1) p"
    "num_registered_ss s3 = num_registered_ss s" unfolding s2(3,4) all_malloc_def by auto
  have "registered_ss s3 ! nat k2 = registered_ss s ! nat k2" using c1(4) ne by simp
  from add_path_run [OF c1(2) _ k(3) _ len, of "env_trie_malloc env2 0", unfolded this] k c1(6) env(2) obtain s4 ss2 where
    c2: "add_path (env_trie_malloc env2 0) s3 k2 p = Some s4" "nm_inv s4" "nm_dir s4 = (nm_dir s3)(p \<mapsto> k2)"
    "registered_ss s4 = (registered_ss s3)[nat k2 := ss2]" "listed ss2 = append_listed (registered_ss s ! nat k2) p"
    unfolding all_malloc_def by auto
  have "nm_dir s4 = (nm_dir s)(p \<mapsto> k2)" using c2(3) c1(3) by simp
  with ask c1 c2 path regs ne \<open>k1 \<noteq> k2\<close> show ?thesis
    by (intro exI [of _ ?s1] exI [of _ ?s2] exI [of _ s3] exI [of _ s4]) (simp add: create_commit_def)
qed

text \<open>A state with two servers.\<close>

lemma two_servers:
  "\<exists>s. nm_inv s \<and> num_registered_ss s = 2 \<and> current_ss_index s = 0 \<and> nm_dir s ''b'' = None"
proof -
  obtain s where s: "nm_inv s" "num_registered_ss s = 1" "current_ss_index s = 0" "nm_dir s = [''a'' \<mapsto> 0]"
    using one_server by blast
  have m: "msg_num_accessible_paths one_path_message = 1" "take (Suc 0) (msg_accessible_paths one_path_message) = [''a'']"
    by (simp_all add: one_path_message_def)
  have "num_registered_ss s < int MAX_SS" "0 \<le> msg_num_accessible_paths one_path_message"
    "msg_num_accessible_paths one_path_message \<le> int MAX_ACCESSIBLE_PATHS" using s(2) m by (simp_all add: size_defs)
  from register_run [OF s(1) good_env_malloc one_path_wf this(2,3,1)] s(2-4) m show ?thesis by auto
qed

theorem create_race_witness:
  "\<exists>s s1 s2 s3 s4 m. msg_path m = ''b'' \<and> create_ask good_env s m = Some (s1, Inr 0) \<and>
     create_ask good_env s1 m = Some (s2, Inr 1) \<and> create_commit good_env s2 m 0 = Some (s3, ack_message) \<and>
     create_commit good_env s3 m 1 = Some (s4, ack_message) \<and> nm_dir s4 ''b'' = Some 1"
proof -
  let ?m = "zero_message\<lparr>msg_operation := CREATE_FILE, msg_path := ''b''\<rparr>"
  obtain s where s: "nm_inv s" "num_registered_ss s = 2" "current_ss_index s = 0" "nm_dir s ''b'' = None"
    using two_servers by blast
  have wf: "wf_message ?m" using wf_zero_message by (simp add: wf_message_def size_defs)
  have p: "msg_path ?m = ''b''" "num_registered_ss s \<ge> 2" using s(2) by simp_all
  from create_race [OF s(1) good_env_malloc good_env_malloc wf wf p(1) p(1) s(4) p(2) good_env_forward good_env_forward] s(2,3)
  obtain s1 s2 s3 s4 where "create_ask good_env s ?m = Some (s1, Inr 0)" "create_ask good_env s1 ?m = Some (s2, Inr 1)"
    "create_commit good_env s2 ?m 0 = Some (s3, ack_message)" "create_commit good_env s3 ?m 1 = Some (s4, ack_message)"
    "nm_dir s4 = (nm_dir s)(''b'' \<mapsto> 1)" by auto
  with p(1) show ?thesis by (metis fun_upd_same)
qed

end
