(* ===== verification/Posix.thy ===== *)
theory Posix
  imports Common "HOL-Library.AList"
begin

text \<open>
  The calls of the C library and of the operating system that
  \<open>src/ss_file_operations.c\<close> makes, as functions on a disk: a list of named nodes, with
  what the system may refuse as arguments. A path is the string the code passes; a name
  with a slash lives in the directory named by the part before its last slash.

  The documented behaviour that is used: \<open>fopen(p, "w")\<close> truncates or creates a regular file
  and fails on a directory; \<open>fopen(p, "r")\<close> opens anything that exists, and reading from a
  directory gives no bytes; \<open>mkdir\<close> fails on a name that exists; \<open>rmdir\<close> fails on a
  directory with entries.
\<close>

datatype fnode =
    Regular string
  | Directory
  | Other string

text \<open>\<open>Other b\<close> is any other kind of node, of which a read gives \<open>b\<close>.\<close>

datatype sys_call = Open_read | Open_write | Mkdir | Stat | Opendir | Rmdir | Remove

text \<open>
  \<open>disk_deny c p\<close>: the system refuses the call for a reason of its own (permissions, limits,
  read-only disks). \<open>disk_count n\<close> and \<open>disk_stored n\<close>: what \<open>fwrite\<close> of \<open>n\<close> bytes returns, and
  how many of them are in the file once it is closed. \<open>disk_read n\<close>: how many of \<open>n\<close>
  bytes that are there \<open>fread\<close> delivers before an error. \<open>disk_size p\<close>: the size \<open>stat\<close> gives for
  a node that is not a regular file.
\<close>

record disk =
  disk_files :: "(string \<times> fnode) list"
  disk_deny :: "sys_call \<Rightarrow> string \<Rightarrow> bool"
  disk_count :: "nat \<Rightarrow> nat"
  disk_stored :: "nat \<Rightarrow> nat"
  disk_read :: "nat \<Rightarrow> nat"
  disk_size :: "string \<Rightarrow> int"

definition node_of :: "disk \<Rightarrow> string \<Rightarrow> fnode option" where
  "node_of d p = map_of (disk_files d) p"

definition put_node :: "disk \<Rightarrow> string \<Rightarrow> fnode \<Rightarrow> disk" where
  "put_node d p n = d\<lparr>disk_files := AList.update p n (disk_files d)\<rparr>"

definition drop_node :: "disk \<Rightarrow> string \<Rightarrow> disk" where
  "drop_node d p = d\<lparr>disk_files := AList.delete p (disk_files d)\<rparr>"

text \<open>The directory a name lives in (none: the working directory or the root), and its last part.\<close>

definition SLASH :: char where "SLASH = CHR 0x2F"

definition parent_dir :: "string \<Rightarrow> string option" where
  "parent_dir p = (case dropWhile (\<lambda>c. c \<noteq> SLASH) (rev p) of
     [] \<Rightarrow> None | _ # r \<Rightarrow> (if r = [] then None else Some (rev r)))"

definition base_name :: "string \<Rightarrow> string" where
  "base_name p = rev (takeWhile (\<lambda>c. c \<noteq> SLASH) (rev p))"

definition parent_ok :: "disk \<Rightarrow> string \<Rightarrow> bool" where
  "parent_ok d p = (case parent_dir p of None \<Rightarrow> True | Some q \<Rightarrow> node_of d q = Some Directory)"

text \<open>The names \<open>readdir\<close> gives for a directory.\<close>

definition dir_entries :: "disk \<Rightarrow> string \<Rightarrow> string list" where
  "dir_entries d p = ''.'' # ''..'' # map (base_name \<circ> fst) (filter (\<lambda>e. parent_dir (fst e) = Some p) (disk_files d))"

subsection \<open>The calls\<close>

definition fopen_write :: "disk \<Rightarrow> string \<Rightarrow> disk option" where
  "fopen_write d p =
     (if disk_deny d Open_write p then None
      else (case node_of d p of
          Some (Regular b) \<Rightarrow> Some (put_node d p (Regular []))
        | Some (Other b) \<Rightarrow> Some d
        | Some Directory \<Rightarrow> None
        | None \<Rightarrow> (if parent_ok d p then Some (put_node d p (Regular [])) else None)))"

definition fopen_read :: "disk \<Rightarrow> string \<Rightarrow> fnode option" where
  "fopen_read d p = (if disk_deny d Open_read p then None else node_of d p)"

text \<open>\<open>fread\<close> of up to \<open>n\<close> bytes from a file just opened.\<close>

definition node_bytes :: "fnode \<Rightarrow> string" where
  "node_bytes node = (case node of Regular b \<Rightarrow> b | Directory \<Rightarrow> [] | Other b \<Rightarrow> b)"

definition fread_all :: "disk \<Rightarrow> nat \<Rightarrow> fnode \<Rightarrow> string" where
  "fread_all d n node =
     (let avail = take n (node_bytes node) in take (disk_read d (length avail)) avail)"

text \<open>\<open>fwrite\<close> and \<open>fclose\<close> on a file just opened by \<open>fopen_write\<close>: the count and the disk.\<close>

definition fwrite_close :: "disk \<Rightarrow> string \<Rightarrow> string \<Rightarrow> nat \<times> disk" where
  "fwrite_close d p bytes =
     (min (length bytes) (disk_count d (length bytes)),
      case node_of d p of
        Some (Regular _) \<Rightarrow> put_node d p (Regular (take (disk_stored d (length bytes)) bytes))
      | _ \<Rightarrow> d)"

definition sys_mkdir :: "disk \<Rightarrow> string \<Rightarrow> disk option" where
  "sys_mkdir d p =
     (if disk_deny d Mkdir p \<or> node_of d p \<noteq> None \<or> \<not> parent_ok d p then None
      else Some (put_node d p Directory))"

definition sys_stat :: "disk \<Rightarrow> string \<Rightarrow> (fnode \<times> int) option" where
  "sys_stat d p =
     (if disk_deny d Stat p then None
      else map_option (\<lambda>n. (n, case n of Regular b \<Rightarrow> int (length b) | _ \<Rightarrow> disk_size d p)) (node_of d p))"

definition sys_opendir :: "disk \<Rightarrow> string \<Rightarrow> string list option" where
  "sys_opendir d p =
     (if disk_deny d Opendir p \<or> node_of d p \<noteq> Some Directory then None else Some (dir_entries d p))"

definition sys_rmdir :: "disk \<Rightarrow> string \<Rightarrow> disk option" where
  "sys_rmdir d p =
     (if disk_deny d Rmdir p \<or> node_of d p \<noteq> Some Directory \<or> length (dir_entries d p) > 2 then None
      else Some (drop_node d p))"

text \<open>\<open>remove\<close> on a name that is not a directory.\<close>

definition sys_remove :: "disk \<Rightarrow> string \<Rightarrow> disk option" where
  "sys_remove d p =
     (if disk_deny d Remove p \<or> node_of d p = None \<or> node_of d p = Some Directory then None
      else Some (drop_node d p))"

subsection \<open>Facts on disks\<close>

lemma node_of_put [simp]: "node_of (put_node d p n) q = (if q = p then Some n else node_of d q)"
  by (simp add: node_of_def put_node_def update_conv)

lemma node_of_drop [simp]: "node_of (drop_node d p) q = (if q = p then None else node_of d q)"
  by (simp add: node_of_def drop_node_def delete_conv)

lemma disk_simps [simp]:
  "disk_deny (put_node d p n) = disk_deny d" "disk_count (put_node d p n) = disk_count d"
  "disk_stored (put_node d p n) = disk_stored d" "disk_read (put_node d p n) = disk_read d" "disk_size (put_node d p n) = disk_size d"
  "disk_deny (drop_node d p) = disk_deny d" "disk_count (drop_node d p) = disk_count d"
  "disk_stored (drop_node d p) = disk_stored d" "disk_read (drop_node d p) = disk_read d" "disk_size (drop_node d p) = disk_size d"
  by (simp_all add: put_node_def drop_node_def)

text \<open>Every name lives in a directory of the disk, and no name is listed twice.\<close>

definition disk_wf :: "disk \<Rightarrow> bool" where
  "disk_wf d \<longleftrightarrow> distinct (map fst (disk_files d)) \<and> (\<forall>p. node_of d p \<noteq> None \<longrightarrow> parent_ok d p)"

text \<open>The disk is not refusing anything, stores what is written and reads what is stored.\<close>

definition disk_healthy :: "disk \<Rightarrow> bool" where
  "disk_healthy d \<longleftrightarrow> (\<forall>c p. \<not> disk_deny d c p) \<and> (\<forall>n. disk_count d n = n \<and> disk_stored d n = n \<and> disk_read d n = n)"

lemma fread_healthy: "disk_healthy d \<Longrightarrow> fread_all d n node = take n (node_bytes node)"
  by (simp add: fread_all_def disk_healthy_def)

lemma fread_all_length: "length (fread_all d n node) \<le> n"
  by (simp add: fread_all_def Let_def)

lemma disk_healthy_simps [simp]:
  "disk_healthy (put_node d p n) = disk_healthy d" "disk_healthy (drop_node d p) = disk_healthy d"
  by (simp_all add: disk_healthy_def)

lemma parent_not_self: "parent_dir p = Some q \<Longrightarrow> q \<noteq> p"
proof -
  assume "parent_dir p = Some q"
  then obtain c r where r: "dropWhile (\<lambda>c. c \<noteq> SLASH) (rev p) = c # r" "q = rev r"
    by (auto simp: parent_dir_def split: list.splits if_splits)
  then have "length q < length (dropWhile (\<lambda>c. c \<noteq> SLASH) (rev p))" by simp
  also have "\<dots> \<le> length p" using length_dropWhile_le [of "\<lambda>c. c \<noteq> SLASH" "rev p"] by simp
  finally show ?thesis by auto
qed

lemma dir_entries_member:
  "(\<exists>q. node_of d q \<noteq> None \<and> parent_dir q = Some p) \<longleftrightarrow> length (dir_entries d p) > 2"
proof -
  have "(\<exists>q. node_of d q \<noteq> None \<and> parent_dir q = Some p) \<longleftrightarrow>
      (\<exists>e \<in> set (disk_files d). parent_dir (fst e) = Some p)"
    by (auto simp: node_of_def map_of_eq_None_iff)
  also have "\<dots> \<longleftrightarrow> filter (\<lambda>e. parent_dir (fst e) = Some p) (disk_files d) \<noteq> []"
    by (auto simp: filter_empty_conv)
  finally show ?thesis by (simp add: dir_entries_def)
qed

lemma put_wf:
  assumes wf: "disk_wf d" and ok: "parent_ok d p" and keep: "node_of d p = Some Directory \<Longrightarrow> n = Directory"
  shows "disk_wf (put_node d p n)"
  unfolding disk_wf_def
proof (intro conjI allI impI)
  show "distinct (map fst (disk_files (put_node d p n)))"
    using wf by (simp add: disk_wf_def put_node_def distinct_update)
next
  fix q assume q: "node_of (put_node d p n) q \<noteq> None"
  then have "parent_ok d q" using wf ok by (auto simp: disk_wf_def split: if_splits)
  then show "parent_ok (put_node d p n) q"
    using keep by (auto simp: parent_ok_def split: option.splits)
qed

lemma drop_wf:
  assumes wf: "disk_wf d" and empty: "node_of d p = Some Directory \<Longrightarrow> \<not> length (dir_entries d p) > 2"
  shows "disk_wf (drop_node d p)"
  unfolding disk_wf_def
proof (intro conjI allI impI)
  show "distinct (map fst (disk_files (drop_node d p)))"
    using wf by (simp add: disk_wf_def drop_node_def distinct_delete)
next
  fix q assume q: "node_of (drop_node d p) q \<noteq> None"
  then have q': "parent_ok d q" "node_of d q \<noteq> None" using wf by (auto simp: disk_wf_def split: if_splits)
  show "parent_ok (drop_node d p) q"
  proof (cases "parent_dir q = Some p")
    case True
    with q' empty dir_entries_member show ?thesis by (auto simp: parent_ok_def)
  next
    case False
    with q'(1) show ?thesis by (auto simp: parent_ok_def split: option.splits)
  qed
qed

lemma wf_parent: "disk_wf d \<Longrightarrow> node_of d p = Some n \<Longrightarrow> parent_ok d p"
  by (simp add: disk_wf_def)

lemma fopen_write_wf: "disk_wf d \<Longrightarrow> fopen_write d p = Some d' \<Longrightarrow> disk_wf d'"
  by (auto simp: fopen_write_def dest: wf_parent intro!: put_wf split: if_splits option.splits fnode.splits)

lemma fwrite_close_wf: "disk_wf d \<Longrightarrow> disk_wf (snd (fwrite_close d p b))"
  by (auto simp: fwrite_close_def dest: wf_parent intro!: put_wf split: option.splits fnode.splits)

lemma sys_wf:
  "disk_wf d \<Longrightarrow> sys_mkdir d p = Some d' \<Longrightarrow> disk_wf d'"
  "disk_wf d \<Longrightarrow> sys_rmdir d p = Some d' \<Longrightarrow> disk_wf d'"
  "disk_wf d \<Longrightarrow> sys_remove d p = Some d' \<Longrightarrow> disk_wf d'"
  by (auto simp: sys_mkdir_def sys_rmdir_def sys_remove_def intro!: put_wf drop_wf split: if_splits)

end
