(* ===== verification/Ss_File_Operations.thy ===== *)
theory Ss_File_Operations
  imports Posix
begin

text \<open>
  \<open>src/ss_file_operations.c\<close>, the operations on files: creation, deletion, reading, writing
  and information. A path operation returns the error code the code returns and the disk
  afterwards; a buffer that the code fills is an argument and a result.
\<close>

subsection \<open>Operations\<close>

definition ss_create :: "disk \<Rightarrow> string \<Rightarrow> FileType \<Rightarrow> int \<times> disk" where
  "ss_create d path type =
     (case type of
        FILE_TYPE_FILE \<Rightarrow>
          (case fopen_write d path of
             Some d' \<Rightarrow> (SUCCESS, snd (fwrite_close d' path []))
           | None \<Rightarrow> (PERMISSION_DENIED, d))
      | FILE_TYPE_DIR \<Rightarrow>
          (case sys_mkdir d path of
             Some d' \<Rightarrow> (SUCCESS, d')
           | None \<Rightarrow> (PERMISSION_DENIED, d))
      | FILE_TYPE_UNKNOWN \<Rightarrow> (INVALID_OPERATION, d))"

text \<open>The loop over \<open>readdir\<close>: is there no name but the two of every directory?\<close>

fun entries_empty :: "string list \<Rightarrow> bool" where
  "entries_empty [] = True"
| "entries_empty (name # names) =
     (if name \<noteq> ''.'' \<and> name \<noteq> ''..'' then False else entries_empty names)"

definition ss_delete :: "disk \<Rightarrow> string \<Rightarrow> int \<times> disk" where
  "ss_delete d path =
     (case sys_stat d path of
        None \<Rightarrow> (FILE_NOT_FOUND, d)
      | Some (Directory, _) \<Rightarrow>
          (let is_empty = (case sys_opendir d path of
               Some names \<Rightarrow> entries_empty names
             | None \<Rightarrow> True)
           in if \<not> is_empty then (PERMISSION_DENIED, d)
              else (case sys_rmdir d path of
                  Some d' \<Rightarrow> (SUCCESS, d')
                | None \<Rightarrow> (PERMISSION_DENIED, d)))
      | Some (Regular _, _) \<Rightarrow>
          (case sys_remove d path of
             Some d' \<Rightarrow> (SUCCESS, d')
           | None \<Rightarrow> (PERMISSION_DENIED, d))
      | Some (Other _, _) \<Rightarrow> (INVALID_OPERATION, d))"

text \<open>
  \<open>ss_read\<close>: the code, the buffer and \<open>*bytes_read\<close>. The bytes read and a terminating zero
  replace the beginning of the buffer, which is longer than both; what lay beyond stays.
\<close>

definition overwrite :: "string \<Rightarrow> string \<Rightarrow> string" where
  "overwrite buffer bytes =
     (if length buffer \<le> Suc (length bytes) then bytes
      else bytes @ CHR 0x00 # drop (Suc (length bytes)) buffer)"

definition ss_read :: "disk \<Rightarrow> string \<Rightarrow> string \<Rightarrow> int \<Rightarrow> int \<times> string \<times> int" where
  "ss_read d path buffer bytes_read =
     (case fopen_read d path of
        None \<Rightarrow> (FILE_NOT_FOUND, buffer, bytes_read)
      | Some node \<Rightarrow>
          (let bytes = fread_all d (MAX_DATA_SIZE - 1) node
           in (SUCCESS, overwrite buffer bytes, int (length bytes))))"

lemma overwrite_empty [simp]: "overwrite [] bytes = bytes"
  by (simp add: overwrite_def)

text \<open>
  \<open>ss_write\<close>: \<open>fwrite\<close> reads \<open>data_size\<close> bytes of the message's array of 8192, zeros after
  those that were stored; a size that is negative or larger reads outside the array. The
  mode only appears in the log.
\<close>

definition array_bytes :: "string \<Rightarrow> int \<Rightarrow> string c_run" where
  "array_bytes data n =
     (if 0 \<le> n \<and> n \<le> int MAX_DATA_SIZE
      then Some (take (nat n) (data @ replicate (nat n) (CHR 0x00))) else None)"

definition ss_write :: "disk \<Rightarrow> string \<Rightarrow> string \<Rightarrow> int \<Rightarrow> WriteMode \<Rightarrow> (int \<times> disk) c_run" where
  "ss_write d path data data_size mode =
     (case fopen_write d path of
        None \<Rightarrow> Some (PERMISSION_DENIED, d)
      | Some d1 \<Rightarrow> do {
          bytes \<leftarrow> array_bytes data data_size;
          let (bytes_written, d2) = fwrite_close d1 path bytes;
          Some (if int bytes_written \<noteq> data_size then ASYNC_WRITE_FAILED else SUCCESS, d2)
        })"

text \<open>The decimal digits of \<open>%ld\<close>.\<close>

fun dec_digits :: "nat \<Rightarrow> string" where
  "dec_digits n = (if n < 10 then [char_of (48 + n)] else dec_digits (n div 10) @ [char_of (48 + n mod 10)])"

declare dec_digits.simps [simp del]

definition dec_int :: "int \<Rightarrow> string" where
  "dec_int i = (if i < 0 then CHR 0x2D # dec_digits (nat (- i)) else dec_digits (nat i))"

definition ss_get_info :: "disk \<Rightarrow> string \<Rightarrow> Message \<Rightarrow> (int \<times> Message) c_run" where
  "ss_get_info d path response_msg =
     (case sys_stat d path of
        None \<Rightarrow> Some (FILE_NOT_FOUND, response_msg)
      | Some (node, st_size) \<Rightarrow> do {
          text1 \<leftarrow> c_strcpy MAX_DATA_SIZE (''Size: '' @ dec_int st_size @ '' bytes'' @ [CHR 0x0A]);
          let (kind, type) = (case node of
              Regular _ \<Rightarrow> (''Type: File'' @ [CHR 0x0A], FILE_TYPE_FILE)
            | Directory \<Rightarrow> (''Type: Directory'' @ [CHR 0x0A], FILE_TYPE_DIR)
            | Other _ \<Rightarrow> (''Type: Other'' @ [CHR 0x0A], FILE_TYPE_UNKNOWN));
          text \<leftarrow> c_strcpy MAX_DATA_SIZE (text1 @ kind);
          Some (SUCCESS, response_msg\<lparr>msg_data := text, msg_file_type := type,
                                       msg_data_size := int (length text)\<rparr>)
        })"

subsection \<open>Facts\<close>

lemma entries_empty_none: "\<not> length (dir_entries d p) > 2 \<Longrightarrow> entries_empty (dir_entries d p)"
  by (simp add: dir_entries_def)

lemma array_bytes_full: "length data = n \<Longrightarrow> n \<le> MAX_DATA_SIZE \<Longrightarrow> array_bytes data (int n) = Some data"
  by (simp add: array_bytes_def)

lemma array_bytes_length: "array_bytes data n = Some b \<Longrightarrow> int (length b) = n \<and> length b \<le> MAX_DATA_SIZE"
  by (auto simp: array_bytes_def min_def split: if_splits)

lemma dec_digits_length: "n < 10 ^ k \<Longrightarrow> 0 < k \<Longrightarrow> length (dec_digits n) \<le> k"
proof (induction n arbitrary: k rule: dec_digits.induct)
  case (1 n)
  show ?case
  proof (cases "n < 10")
    case True
    with "1.prems" show ?thesis by (subst dec_digits.simps) simp
  next
    case False
    then obtain j where j: "k = Suc j" "0 < j" using "1.prems" by (cases k; cases "k - 1") auto
    with "1.prems" have "n div 10 < 10 ^ j" by (simp add: div_less_iff_less_mult mult.commute)
    with "1.IH" [OF False _ j(2)] j(1) False show ?thesis by (subst dec_digits.simps) simp
  qed
qed

lemma dec_int_length: "\<bar>i\<bar> < 10 ^ 20 \<Longrightarrow> length (dec_int i) \<le> 21"
  using dec_digits_length [of "nat i" 20] dec_digits_length [of "nat (- i)" 20]
  by (auto simp: dec_int_def nat_less_iff)

end
