(* ===== verification/File_Props.thy ===== *)
theory File_Props
  imports Ss_File_Operations
begin

text \<open>
  The properties of the file operations of \<open>src/ss_file_operations.c\<close>: what each one
  returns and does to the disk on every branch, that the tree of directories stays
  well-formed, and what a write followed by a read gives back.
\<close>

subsection \<open>Helpers\<close>

lemma put_put [simp]: "node_of (put_node (put_node d p m) p n) = node_of (put_node d p n)"
  by (simp add: fun_eq_iff)

text \<open>When opening for writing succeeds.\<close>

definition can_write :: "disk \<Rightarrow> string \<Rightarrow> bool" where
  "can_write d p \<longleftrightarrow> \<not> disk_deny d Open_write p \<and> node_of d p \<noteq> Some Directory \<and>
     (node_of d p = None \<longrightarrow> parent_ok d p)"

text \<open>The file at \<open>p\<close> after \<open>b\<close> was stored in it: other kinds of nodes keep what they are.\<close>

definition stored :: "fnode option \<Rightarrow> string \<Rightarrow> fnode option" where
  "stored n b = (case n of Some (Other x) \<Rightarrow> Some (Other x) | _ \<Rightarrow> Some (Regular b))"

lemma fopen_write_refused: "\<not> can_write d p \<Longrightarrow> fopen_write d p = None"
  by (auto simp: can_write_def fopen_write_def split: option.splits fnode.splits)

lemma fopen_write_opened:
  assumes "can_write d p"
  obtains d' where "fopen_write d p = Some d'" and "node_of d' = (node_of d)(p := stored (node_of d p) [])"
    and "disk_count d' = disk_count d" and "disk_stored d' = disk_stored d"
proof (cases "node_of d p")
  case None
  with assms show thesis by (intro that [of "put_node d p (Regular [])"])
    (auto simp: can_write_def fopen_write_def stored_def)
next
  case (Some n)
  with assms show thesis
  proof (cases n)
    case (Regular b)
    with Some assms show thesis by (intro that [of "put_node d p (Regular [])"])
      (auto simp: can_write_def fopen_write_def stored_def)
  next
    case (Other b)
    with Some assms show thesis by (intro that [of d]) (auto simp: can_write_def fopen_write_def stored_def)
  qed (simp add: can_write_def)
qed

lemma fwrite_close_stored:
  assumes "node_of d p = stored n c"
  shows "node_of (snd (fwrite_close d p b)) = (node_of d)(p := stored n (take (disk_stored d (length b)) b))"
  using assms by (auto simp: fwrite_close_def stored_def split: option.splits fnode.splits)

lemma ss_write_run:
  assumes "can_write d p" and "array_bytes data n = Some b"
  shows "\<exists>d'. ss_write d p data n mode =
      Some (if int (min (length b) (disk_count d (length b))) \<noteq> n then ASYNC_WRITE_FAILED else SUCCESS, d') \<and>
    node_of d' = (node_of d)(p := stored (node_of d p) (take (disk_stored d (length b)) b))"
proof -
  obtain d1 where d1: "fopen_write d p = Some d1" "node_of d1 = (node_of d)(p := stored (node_of d p) [])"
    "disk_count d1 = disk_count d" "disk_stored d1 = disk_stored d"
    using fopen_write_opened [OF assms(1)] by blast
  have "node_of d1 p = stored (node_of d p) []" using d1(2) by simp
  from fwrite_close_stored [OF this, of b] d1(2,4)
  have "node_of (snd (fwrite_close d1 p b)) = (node_of d)(p := stored (node_of d p) (take (disk_stored d (length b)) b))"
    by simp
  moreover have "fst (fwrite_close d1 p b) = min (length b) (disk_count d (length b))"
    using d1(3) by (simp add: fwrite_close_def)
  ultimately show ?thesis using d1(1) assms(2) by (simp add: ss_write_def split_beta Let_def)
qed

lemma ss_write_healthy: "ss_write d p data n mode = Some (code, d') \<Longrightarrow> disk_healthy d' = disk_healthy d"
  by (auto simp: ss_write_def fopen_write_def fwrite_close_def Let_def
      split: option.splits fnode.splits if_splits Option.bind_splits)

lemma ss_write_keeps_wf: "ss_write d p data n mode = Some (code, d') \<Longrightarrow> disk_wf d \<Longrightarrow> disk_wf d'"
  using fopen_write_wf fwrite_close_wf
  by (fastforce simp: ss_write_def split_beta Let_def split: option.splits Option.bind_splits)

text \<open>The number that a string of digits stands for.\<close>

definition dec_value :: "string \<Rightarrow> nat" where
  "dec_value ds = foldl (\<lambda>v c. 10 * v + (of_char c - 48)) 0 ds"

lemma dec_value_digits: "dec_value (dec_digits n) = n"
proof (induction n rule: dec_digits.induct)
  case (1 n)
  show ?case
  proof (cases "n < 10")
    case True
    then show ?thesis by (subst dec_digits.simps) (simp add: dec_value_def of_char_of)
  next
    case False
    with "1.IH" have "dec_value (dec_digits (n div 10)) = n div 10" by simp
    with False show ?thesis by (subst dec_digits.simps) (simp add: dec_value_def of_char_of)
  qed
qed

text \<open>A disk with nothing on it that refuses nothing, for the witnesses.\<close>

definition empty_disk :: disk where
  "empty_disk = \<lparr>disk_files = [], disk_deny = (\<lambda>_ _. False), disk_count = id, disk_stored = id, disk_read = id, disk_size = (\<lambda>_. 4096)\<rparr>"

lemma empty_disk_simps [simp]:
  "disk_healthy empty_disk" "disk_wf empty_disk" "node_of empty_disk p = None"
  by (simp_all add: empty_disk_def disk_healthy_def disk_wf_def node_of_def)

lemma parent_a: "parent_dir ''a'' = None"
  by code_simp

lemma can_write_empty: "can_write empty_disk ''a''"
  using parent_a by (simp add: can_write_def parent_ok_def) (simp add: empty_disk_def)

subsection \<open>Properties\<close>

text \<open>
  Property C23: creating. A file is refused when the system refuses to open it, its directory
  is missing or the name is a directory; otherwise the name is an empty file afterwards,
  also when it held data before. A directory is made only under a free name. No other name
  changes, and a failure changes nothing.
\<close>

theorem ss_create_correct:
  "(case ss_create d p type of (code, d') \<Rightarrow>
     (case type of
        FILE_TYPE_FILE \<Rightarrow>
          if can_write d p
          then code = SUCCESS \<and> node_of d' = (node_of d)(p := stored (node_of d p) [])
          else code = PERMISSION_DENIED \<and> d' = d
      | FILE_TYPE_DIR \<Rightarrow>
          if \<not> disk_deny d Mkdir p \<and> node_of d p = None \<and> parent_ok d p
          then code = SUCCESS \<and> node_of d' = (node_of d)(p \<mapsto> Directory)
          else code = PERMISSION_DENIED \<and> d' = d
      | FILE_TYPE_UNKNOWN \<Rightarrow> code = INVALID_OPERATION \<and> d' = d))"
proof (cases type)
  case FILE_TYPE_FILE
  show ?thesis
  proof (cases "can_write d p")
    case True
    then obtain d1 where d1: "fopen_write d p = Some d1" "node_of d1 = (node_of d)(p := stored (node_of d p) [])"
      using fopen_write_opened by blast
    then have "node_of d1 p = stored (node_of d p) []" by simp
    from fwrite_close_stored [OF this, of "[]"] d1 True FILE_TYPE_FILE show ?thesis
      by (simp add: ss_create_def)
  next
    case False
    with fopen_write_refused [OF False] FILE_TYPE_FILE show ?thesis by (simp add: ss_create_def)
  qed
qed (auto simp: ss_create_def sys_mkdir_def)

text \<open>
  Property C22: deleting on a disk that refuses nothing. A missing name is \<open>FILE_NOT_FOUND\<close>, a
  directory with entries is \<open>PERMISSION_DENIED\<close>, a node that is neither file nor directory is
  \<open>INVALID_OPERATION\<close>, and nothing changes; a file or an empty directory is removed, alone.
\<close>

theorem ss_delete_correct:
  assumes "disk_healthy d"
  shows "case ss_delete d p of (code, d') \<Rightarrow>
    (case node_of d p of
       None \<Rightarrow> code = FILE_NOT_FOUND \<and> d' = d
     | Some (Other _) \<Rightarrow> code = INVALID_OPERATION \<and> d' = d
     | Some (Regular _) \<Rightarrow> code = SUCCESS \<and> node_of d' = (node_of d)(p := None)
     | Some Directory \<Rightarrow>
         if \<exists>q. node_of d q \<noteq> None \<and> parent_dir q = Some p then code = PERMISSION_DENIED \<and> d' = d
         else code = SUCCESS \<and> node_of d' = (node_of d)(p := None))"
proof (cases "node_of d p")
  case None
  then show ?thesis by (simp add: ss_delete_def sys_stat_def)
next
  case (Some n)
  have ok: "\<not> disk_deny d c q" for c q using assms by (simp add: disk_healthy_def)
  show ?thesis
  proof (cases n)
    case Directory
    have ch: "(\<exists>q. node_of d q \<noteq> None \<and> parent_dir q = Some p) = (length (dir_entries d p) > 2)"
      by (rule dir_entries_member)
    show ?thesis
      unfolding ch using Directory Some ok entries_empty_none [of d p]
      by (simp add: ss_delete_def sys_stat_def sys_opendir_def sys_rmdir_def Let_def fun_eq_iff)
  qed (use Some ok in \<open>simp_all add: ss_delete_def sys_stat_def sys_remove_def fun_eq_iff\<close>)
qed

theorem ss_delete_correct_witness:
  "\<exists>d'. ss_delete (put_node empty_disk ''a'' (Regular ''x'')) ''a'' = (SUCCESS, d') \<and> node_of d' ''a'' = None"
proof -
  have "disk_healthy (put_node empty_disk ''a'' (Regular ''x''))" by simp
  from ss_delete_correct [OF this, of "''a''"] show ?thesis
    by (cases "ss_delete (put_node empty_disk ''a'' (Regular ''x'')) ''a''") simp
qed

text \<open>
  Property C24: writing. Without a writable name there is \<open>PERMISSION_DENIED\<close> and no change. A
  size outside the message's array makes the code read outside it. Otherwise the answer is
  \<open>SUCCESS\<close> exactly when \<open>fwrite\<close> counted every byte, and the file then holds what reached the
  disk, which may be less: the result of \<open>fclose\<close> is not looked at.
\<close>

theorem ss_write_correct:
  "(if \<not> can_write d p then ss_write d p data n mode = Some (PERMISSION_DENIED, d)
    else if n < 0 \<or> n > 8192 then ss_write d p data n mode = None
    else \<exists>d' b. ss_write d p data n mode =
          Some (if disk_count d (nat n) < nat n then ASYNC_WRITE_FAILED else SUCCESS, d') \<and>
        array_bytes data n = Some b \<and> length b = nat n \<and>
        node_of d' = (node_of d)(p := stored (node_of d p) (take (disk_stored d (nat n)) b)))"
proof -
  consider (no) "\<not> can_write d p" | (out) "can_write d p" "n < 0 \<or> n > 8192"
    | (fits) "can_write d p" "0 \<le> n" "n \<le> 8192" by linarith
  then show ?thesis
  proof cases
    case no
    with fopen_write_refused [OF no] show ?thesis by (simp add: ss_write_def)
  next
    case out
    from fopen_write_opened [OF out(1)] obtain d1 where "fopen_write d p = Some d1" by blast
    moreover have "array_bytes data n = None" using out(2) by (auto simp: array_bytes_def size_defs)
    ultimately show ?thesis using out by (simp add: ss_write_def)
  next
    case fits
    then obtain b where b: "array_bytes data n = Some b" by (simp add: array_bytes_def size_defs)
    then have len: "length b = nat n" using array_bytes_length by fastforce
    from ss_write_run [OF fits(1) b, of mode] len b fits show ?thesis by (auto simp: min_def split: if_splits)
  qed
qed

text \<open>
  Property C21: on a disk that refuses nothing and loses nothing, a write of up to 8192
  bytes to a file succeeds, and reading the file puts the same bytes at the beginning of the
  buffer, but for the 8192nd, which a read leaves out. No other name changes and the tree stays well-formed.
\<close>

theorem ss_write_read_roundtrip:
  assumes "disk_healthy d" and "can_write d p" and "\<And>b. node_of d p \<noteq> Some (Other b)"
    and "length data \<le> 8192" and "disk_wf d"
  shows "\<exists>d'. ss_write d p data (int (length data)) mode = Some (SUCCESS, d') \<and>
    ss_read d' p buf k = (SUCCESS, overwrite buf (take 8191 data), int (min 8191 (length data))) \<and>
    (\<forall>q. q \<noteq> p \<longrightarrow> node_of d' q = node_of d q) \<and> disk_wf d'"
proof -
  have b: "array_bytes data (int (length data)) = Some data"
    using assms(4) by (intro array_bytes_full) (simp_all add: size_defs)
  have st: "stored (node_of d p) data = Some (Regular data)"
    using assms(3) by (auto simp: stored_def split: option.splits fnode.splits)
  have healthy: "disk_count d n = n" "disk_stored d n = n" for n using assms(1) by (simp_all add: disk_healthy_def)
  from ss_write_run [OF assms(2) b, of mode] obtain d' where
    d': "ss_write d p data (int (length data)) mode = Some (SUCCESS, d')" "node_of d' = (node_of d)(p \<mapsto> Regular data)"
    using st by (auto simp: healthy)
  have "\<not> disk_deny d' Open_read p" using ss_write_healthy [OF d'(1)] assms(1) by (simp add: disk_healthy_def)
  then have "ss_read d' p buf k = (SUCCESS, overwrite buf (take 8191 data), int (min 8191 (length data)))"
    using d'(2) fread_healthy [of d'] ss_write_healthy [OF d'(1)] assms(1)
    by (simp add: ss_read_def fopen_read_def node_bytes_def size_defs Let_def min.commute)
  with d' ss_write_keeps_wf [OF d'(1) assms(5)] show ?thesis by auto
qed

theorem ss_write_read_roundtrip_witness:
  "\<exists>d'. ss_write empty_disk ''a'' ''hi'' 2 WRITE_MODE_SYNC = Some (SUCCESS, d') \<and>
     ss_read d' ''a'' [] 0 = (SUCCESS, ''hi'', 2)"
  using ss_write_read_roundtrip [of empty_disk "''a''" "''hi''" WRITE_MODE_SYNC "[]" 0] can_write_empty by auto

text \<open>
  Property C25: information. A name that \<open>stat\<close> does not find is \<open>FILE_NOT_FOUND\<close> and leaves
  the message as it is; otherwise the text fits the message, gives the size in decimal and
  the kind of the node, and the size and type fields agree with it.
\<close>

theorem ss_get_info_correct:
  assumes "\<And>n sz. sys_stat d p = Some (n, sz) \<Longrightarrow> 0 \<le> sz \<and> sz < 2 ^ 63"
  shows "case sys_stat d p of
      None \<Rightarrow> ss_get_info d p m = Some (FILE_NOT_FOUND, m)
    | Some (n, sz) \<Rightarrow> (\<exists>digits text. dec_value digits = nat sz \<and>
        text = ''Size: '' @ digits @ '' bytes'' @ CHR 0x0A #
          (case n of Regular _ \<Rightarrow> ''Type: File'' | Directory \<Rightarrow> ''Type: Directory'' | Other _ \<Rightarrow> ''Type: Other'')
          @ [CHR 0x0A] \<and>
        ss_get_info d p m = Some (SUCCESS, m\<lparr>msg_data := text, msg_data_size := int (length text),
          msg_file_type := (case n of Regular _ \<Rightarrow> FILE_TYPE_FILE | Directory \<Rightarrow> FILE_TYPE_DIR
            | Other _ \<Rightarrow> FILE_TYPE_UNKNOWN)\<rparr>))"
proof (cases "sys_stat d p")
  case None
  then show ?thesis by (simp add: ss_get_info_def)
next
  case (Some x)
  obtain n sz where x: "x = (n, sz)" by (cases x)
  with Some assms have sz: "0 \<le> sz" "sz < 2 ^ 63" by auto
  let ?ds = "dec_digits (nat sz)"
  have ds: "dec_int sz = ?ds" using sz(1) by (simp add: dec_int_def)
  have "length ?ds \<le> 21" using dec_int_length [of sz] sz by (simp add: ds)
  then have "ss_get_info d p m = Some (SUCCESS, m\<lparr>msg_data := ''Size: '' @ ?ds @ '' bytes'' @ CHR 0x0A #
        (case n of Regular _ \<Rightarrow> ''Type: File'' | Directory \<Rightarrow> ''Type: Directory'' | Other _ \<Rightarrow> ''Type: Other'')
        @ [CHR 0x0A], msg_data_size := int (length (''Size: '' @ ?ds @ '' bytes'' @ CHR 0x0A #
        (case n of Regular _ \<Rightarrow> ''Type: File'' | Directory \<Rightarrow> ''Type: Directory'' | Other _ \<Rightarrow> ''Type: Other'')
        @ [CHR 0x0A])),
      msg_file_type := (case n of Regular _ \<Rightarrow> FILE_TYPE_FILE | Directory \<Rightarrow> FILE_TYPE_DIR
            | Other _ \<Rightarrow> FILE_TYPE_UNKNOWN)\<rparr>)"
    using Some x ds by (cases n) (simp_all add: ss_get_info_def size_defs)
  with dec_value_digits [of "nat sz"] Some x show ?thesis by (simp only: option.case prod.case) blast
qed

theorem ss_get_info_correct_witness:
  "\<exists>digits m. dec_value digits = 3 \<and> ss_get_info (put_node empty_disk ''a'' (Regular ''xyz'')) ''a'' zero_message =
     Some (SUCCESS, m) \<and> msg_data m = ''Size: '' @ digits @ '' bytes'' @ CHR 0x0A # ''Type: File'' @ [CHR 0x0A]"
proof -
  let ?d = "put_node empty_disk ''a'' (Regular ''xyz'')"
  have st: "sys_stat ?d ''a'' = Some (Regular ''xyz'', 3)"
    by (simp add: sys_stat_def) (simp add: empty_disk_def)
  then have "0 \<le> sz \<and> sz < 2 ^ 63" if "sys_stat ?d ''a'' = Some (n, sz)" for n sz using that by simp
  from ss_get_info_correct [of ?d "''a''" zero_message, OF this] show ?thesis unfolding st by fastforce
qed
end
