(* ===== verification/File_Locks.thy ===== *)
theory File_Locks
  imports Common
begin

text \<open>
  \<open>src/ss_file_operations.c\<close>, the file locks: a hash table of chains of nodes, one
  read-write lock per path, found or created under a mutex and then locked or unlocked. A
  chain is the list of its nodes, of which none is ever taken out before the table is
  destroyed, so a node is named by its path.
\<close>

definition MAX_FILE_LOCKS :: nat where "MAX_FILE_LOCKS = 1024"

subsection \<open>The POSIX read-write lock\<close>

text \<open>
  The documented behaviour of \<open>pthread_rwlock_t\<close>: how many threads hold it for reading and
  whether one holds it for writing. Locking has no result (the call blocks) while it is
  held by others; unlocking a lock that nobody holds is undefined.
\<close>

record rwlock =
  rw_readers :: nat
  rw_writer :: bool

definition rwlock_init :: rwlock where
  "rwlock_init = \<lparr>rw_readers = 0, rw_writer = False\<rparr>"

definition rw_rdlock :: "rwlock \<Rightarrow> rwlock c_run" where
  "rw_rdlock l = (if rw_writer l then None else Some (l\<lparr>rw_readers := Suc (rw_readers l)\<rparr>))"

definition rw_wrlock :: "rwlock \<Rightarrow> rwlock c_run" where
  "rw_wrlock l = (if rw_writer l \<or> rw_readers l > 0 then None else Some (l\<lparr>rw_writer := True\<rparr>))"

definition rw_unlock :: "rwlock \<Rightarrow> rwlock c_run" where
  "rw_unlock l = (if rw_writer l then Some (l\<lparr>rw_writer := False\<rparr>)
     else if rw_readers l > 0 then Some (l\<lparr>rw_readers := rw_readers l - 1\<rparr>) else None)"

subsection \<open>The table\<close>

record FileLock =
  lock_path :: string
  lock_rw :: rwlock

type_synonym lock_table = "FileLock list list"

definition hash_path_for_lock :: "string \<Rightarrow> nat" where
  "hash_path_for_lock p = unat (foldl (\<lambda>hash ch. hash * 31 + char_to_unsigned ch) 0 p) mod MAX_FILE_LOCKS"

definition init_file_locks :: lock_table where
  "init_file_locks = replicate MAX_FILE_LOCKS []"

text \<open>The loop along a chain, to the first node with the path.\<close>

fun find_lock :: "FileLock list \<Rightarrow> string \<Rightarrow> FileLock option" where
  "find_lock [] p = None"
| "find_lock (n # ns) p = (if lock_path n = p then Some n else find_lock ns p)"

text \<open>Storing into the lock of the node the loop stops at.\<close>

fun store_lock :: "FileLock list \<Rightarrow> string \<Rightarrow> rwlock \<Rightarrow> FileLock list" where
  "store_lock [] p l = []"
| "store_lock (n # ns) p l = (if lock_path n = p then n\<lparr>lock_rw := l\<rparr> # ns else n # store_lock ns p l)"

text \<open>The first result is whether there is a node: without memory there is none.\<close>

definition get_or_create_file_lock_node :: "bool \<Rightarrow> lock_table \<Rightarrow> string \<Rightarrow> (bool \<times> lock_table) c_run" where
  "get_or_create_file_lock_node malloc_ok t path = do {
     let index = int (hash_path_for_lock path);
     chain \<leftarrow> arr_get t index;
     (case find_lock chain path of
        Some n \<Rightarrow> Some (True, t)
      | None \<Rightarrow>
          if \<not> malloc_ok then Some (False, t)
          else do {
            p \<leftarrow> c_strcpy MAX_PATH_LEN path;
            t \<leftarrow> arr_set t index (\<lparr>lock_path = p, lock_rw = rwlock_init\<rparr> # chain);
            Some (True, t)
          })
   }"

text \<open>Locking or unlocking the node of a path, by the given operation on its lock.\<close>

definition on_node :: "(rwlock \<Rightarrow> rwlock c_run) \<Rightarrow> lock_table \<Rightarrow> string \<Rightarrow> lock_table c_run" where
  "on_node f t path = do {
     let index = int (hash_path_for_lock path);
     chain \<leftarrow> arr_get t index;
     (case find_lock chain path of
        None \<Rightarrow> Some t
      | Some n \<Rightarrow> do { l \<leftarrow> f (lock_rw n); arr_set t index (store_lock chain path l) })
   }"

text \<open>
  \<open>acquire_read_lock\<close> and \<open>acquire_write_lock\<close>: the outcome of the \<open>malloc\<close>, and the result of
  the locking call, which is an error code when it is not zero.
\<close>

definition acquire_read_lock :: "bool \<Rightarrow> int \<Rightarrow> lock_table \<Rightarrow> string \<Rightarrow> (int \<times> lock_table) c_run" where
  "acquire_read_lock malloc_ok rdlock_result t path = do {
     (found, t) \<leftarrow> get_or_create_file_lock_node malloc_ok t path;
     if \<not> found then Some (-1, t)
     else if rdlock_result \<noteq> 0 then Some (-1, t)
     else do { t \<leftarrow> on_node rw_rdlock t path; Some (0, t) }
   }"

definition acquire_write_lock :: "bool \<Rightarrow> int \<Rightarrow> lock_table \<Rightarrow> string \<Rightarrow> (int \<times> lock_table) c_run" where
  "acquire_write_lock malloc_ok wrlock_result t path = do {
     (found, t) \<leftarrow> get_or_create_file_lock_node malloc_ok t path;
     if \<not> found then Some (-1, t)
     else if wrlock_result \<noteq> 0 then Some (-1, t)
     else do { t \<leftarrow> on_node rw_wrlock t path; Some (0, t) }
   }"

definition release_read_lock :: "lock_table \<Rightarrow> string \<Rightarrow> lock_table c_run" where
  "release_read_lock t path = on_node rw_unlock t path"

definition release_write_lock :: "lock_table \<Rightarrow> string \<Rightarrow> lock_table c_run" where
  "release_write_lock t path = on_node rw_unlock t path"

text \<open>\<open>destroy_file_locks\<close>: the nodes it frees, in order, and the table it leaves.\<close>

definition destroy_file_locks :: "lock_table \<Rightarrow> FileLock list \<times> lock_table" where
  "destroy_file_locks t = (concat t, map (\<lambda>_. []) t)"

subsection \<open>The table as a map from paths to locks\<close>

definition locks_wf :: "lock_table \<Rightarrow> bool" where
  "locks_wf t \<longleftrightarrow> length t = MAX_FILE_LOCKS \<and>
     (\<forall>i < MAX_FILE_LOCKS. distinct (map lock_path (t ! i)) \<and>
        (\<forall>n \<in> set (t ! i). hash_path_for_lock (lock_path n) = i))"

definition lock_of :: "lock_table \<Rightarrow> string \<Rightarrow> rwlock option" where
  "lock_of t p = map_option lock_rw (find_lock (t ! hash_path_for_lock p) p)"

text \<open>A path without a node is a path whose lock nobody holds.\<close>

definition lock_state :: "lock_table \<Rightarrow> string \<Rightarrow> rwlock" where
  "lock_state t p = (case lock_of t p of None \<Rightarrow> rwlock_init | Some l \<Rightarrow> l)"

lemma lock_hash_less: "hash_path_for_lock p < MAX_FILE_LOCKS"
  by (simp add: hash_path_for_lock_def MAX_FILE_LOCKS_def)

lemma locks_wf_get:
  "locks_wf t \<Longrightarrow> arr_get t (int (hash_path_for_lock p)) = Some (t ! hash_path_for_lock p)"
  using lock_hash_less [of p] by (simp add: locks_wf_def)

lemma locks_wf_set:
  "locks_wf t \<Longrightarrow> arr_set t (int (hash_path_for_lock p)) c = Some (t[hash_path_for_lock p := c])"
  using lock_hash_less [of p] by (simp add: locks_wf_def)

lemma find_lock_path: "find_lock ns p = Some n \<Longrightarrow> lock_path n = p \<and> n \<in> set ns"
  by (induction ns) (auto split: if_splits)

lemma find_lock_None: "find_lock ns p = None \<longleftrightarrow> p \<notin> lock_path ` set ns"
  by (induction ns) auto

lemma store_lock_paths [simp]: "map lock_path (store_lock ns p l) = map lock_path ns"
  by (induction ns) auto

lemma store_lock_hashes:
  "\<forall>n \<in> set ns. hash_path_for_lock (lock_path n) = i \<Longrightarrow>
     \<forall>n \<in> set (store_lock ns p l). hash_path_for_lock (lock_path n) = i"
  by (induction ns) auto

lemma find_store:
  "find_lock (store_lock ns p l) q =
     (if q = p then map_option (\<lambda>n. n\<lparr>lock_rw := l\<rparr>) (find_lock ns p) else find_lock ns q)"
  by (induction ns) auto

lemma lock_of_upd:
  assumes "locks_wf t"
  shows "lock_of (t[hash_path_for_lock p := c]) q =
    (if hash_path_for_lock q = hash_path_for_lock p then map_option lock_rw (find_lock c q) else lock_of t q)"
  using assms lock_hash_less [of p] by (simp add: lock_of_def locks_wf_def nth_list_update)

lemma locks_wf_upd:
  assumes "locks_wf t" and "distinct (map lock_path c)"
    and "\<forall>n \<in> set c. hash_path_for_lock (lock_path n) = hash_path_for_lock p"
  shows "locks_wf (t[hash_path_for_lock p := c])"
  using assms lock_hash_less [of p] by (auto simp: locks_wf_def nth_list_update)

lemma locks_wf_init: "locks_wf init_file_locks"
  by (simp add: locks_wf_def init_file_locks_def)

lemma lock_state_init: "lock_state init_file_locks p = rwlock_init"
  using lock_hash_less [of p] by (simp add: lock_state_def lock_of_def init_file_locks_def)

lemma get_or_create_run:
  assumes wf: "locks_wf t" and len: "length p < MAX_PATH_LEN"
  shows "\<exists>t'. get_or_create_file_lock_node m t p = Some (m \<or> lock_of t p \<noteq> None, t') \<and> locks_wf t' \<and>
    lock_of t' = (if m then (lock_of t)(p \<mapsto> lock_state t p) else lock_of t)"
proof (cases "find_lock (t ! hash_path_for_lock p) p")
  case (Some n)
  then have "lock_of t p = Some (lock_rw n)" by (simp add: lock_of_def)
  with Some wf locks_wf_get [OF wf, of p] show ?thesis
    by (simp add: get_or_create_file_lock_node_def lock_state_def fun_upd_idem)
next
  case None
  then have free: "lock_of t p = None" by (simp add: lock_of_def)
  show ?thesis
  proof (cases m)
    case False
    with None free wf locks_wf_get [OF wf, of p] show ?thesis by (simp add: get_or_create_file_lock_node_def)
  next
    case True
    let ?c = "t ! hash_path_for_lock p"
    let ?t = "t[hash_path_for_lock p := \<lparr>lock_path = p, lock_rw = rwlock_init\<rparr> # ?c]"
    have c: "distinct (map lock_path ?c)" "\<forall>n \<in> set ?c. hash_path_for_lock (lock_path n) = hash_path_for_lock p"
      using wf lock_hash_less [of p] by (simp_all add: locks_wf_def)
    then have "locks_wf ?t" using None by (intro locks_wf_upd [OF wf]) (simp_all add: find_lock_None)
    moreover have "lock_of ?t = (lock_of t)(p \<mapsto> lock_state t p)"
      using lock_of_upd [OF wf] free by (auto simp: fun_eq_iff lock_state_def lock_of_def)
    ultimately show ?thesis
      using True None free len locks_wf_get [OF wf, of p] locks_wf_set [OF wf, of p]
      by (simp add: get_or_create_file_lock_node_def)
  qed
qed

lemma on_node_run:
  assumes wf: "locks_wf t" and l: "lock_of t p = Some l"
  shows "on_node f t p = None \<longleftrightarrow> f l = None"
    and "f l = Some l' \<Longrightarrow> \<exists>t'. on_node f t p = Some t' \<and> locks_wf t' \<and> lock_of t' = (lock_of t)(p \<mapsto> l')"
proof -
  let ?i = "hash_path_for_lock p"
  obtain n where n: "find_lock (t ! ?i) p = Some n" "lock_rw n = l" using l by (auto simp: lock_of_def)
  have run: "on_node f t p = map_option (\<lambda>l'. t[?i := store_lock (t ! ?i) p l']) (f l)"
    using n locks_wf_get [OF wf, of p] locks_wf_set [OF wf, of p]
    by (cases "f l") (simp_all add: on_node_def)
  then show "on_node f t p = None \<longleftrightarrow> f l = None" by simp
  assume f: "f l = Some l'"
  have "locks_wf (t[?i := store_lock (t ! ?i) p l'])"
    using wf lock_hash_less [of p] store_lock_hashes [of "t ! ?i" ?i p l']
    by (intro locks_wf_upd [OF wf]) (simp_all add: locks_wf_def)
  moreover have "lock_of (t[?i := store_lock (t ! ?i) p l']) = (lock_of t)(p \<mapsto> l')"
    using lock_of_upd [OF wf, of p] n by (auto simp: fun_eq_iff find_store lock_of_def)
  ultimately show "\<exists>t'. on_node f t p = Some t' \<and> locks_wf t' \<and> lock_of t' = (lock_of t)(p \<mapsto> l')"
    using run f by simp
qed

lemma lock_state_upd:
  "lock_of t' = (lock_of t)(p \<mapsto> l) \<Longrightarrow> lock_state t' = (lock_state t)(p := l)"
  by (auto simp: lock_state_def fun_eq_iff)

lemma lock_of_state: "lock_of t p \<noteq> None \<Longrightarrow> lock_of t p = Some (lock_state t p)"
  by (auto simp: lock_state_def)

end
