(* ===== verification/Lock_Props.thy ===== *)
theory Lock_Props
  imports File_Locks
begin

text \<open>
  The contract of the file locks that the handlers of the storage server rely on, stated as
  a locale and discharged for the table; and the threads of the server as a step relation,
  one atomic step for each critical section and each locking call, with the exclusion of
  readers and writers of a path and the absence of deadlock.
\<close>

subsection \<open>The contract\<close>

locale file_lock_api =
  fixes ok :: "'t \<Rightarrow> bool" and state :: "'t \<Rightarrow> string \<Rightarrow> rwlock"
    and rd :: "'t \<Rightarrow> string \<Rightarrow> (int \<times> 't) c_run" and wr :: "'t \<Rightarrow> string \<Rightarrow> (int \<times> 't) c_run"
    and un :: "'t \<Rightarrow> string \<Rightarrow> 't c_run"
  assumes rd: "ok t \<Longrightarrow> length p < MAX_PATH_LEN \<Longrightarrow> rw_rdlock (state t p) = Some l \<Longrightarrow>
      \<exists>t'. rd t p = Some (0, t') \<and> ok t' \<and> state t' = (state t)(p := l)"
    and wr: "ok t \<Longrightarrow> length p < MAX_PATH_LEN \<Longrightarrow> rw_wrlock (state t p) = Some l \<Longrightarrow>
      \<exists>t'. wr t p = Some (0, t') \<and> ok t' \<and> state t' = (state t)(p := l)"
    and un: "ok t \<Longrightarrow> rw_unlock (state t p) = Some l \<Longrightarrow>
      \<exists>t'. un t p = Some t' \<and> ok t' \<and> state t' = (state t)(p := l)"
begin

text \<open>A section under the read lock, or under the write lock, leaves every lock as it was.\<close>

lemma read_section:
  assumes "ok t" and "length p < MAX_PATH_LEN" and "\<not> rw_writer (state t p)"
  shows "\<exists>t1 t2. rd t p = Some (0, t1) \<and> ok t1 \<and> un t1 p = Some t2 \<and> ok t2 \<and> state t2 = state t"
proof -
  let ?l = "state t p\<lparr>rw_readers := Suc (rw_readers (state t p))\<rparr>"
  have "rw_rdlock (state t p) = Some ?l" using assms(3) by (simp add: rw_rdlock_def)
  from rd [OF assms(1,2) this] obtain t1 where t1: "rd t p = Some (0, t1)" "ok t1" "state t1 = (state t)(p := ?l)"
    by blast
  then have "rw_unlock (state t1 p) = Some (state t p)" using assms(3) by (simp add: rw_unlock_def)
  from un [OF t1(2) this] t1 show ?thesis by auto
qed

lemma write_section:
  assumes "ok t" and "length p < MAX_PATH_LEN" and "state t p = rwlock_init"
  shows "\<exists>t1 t2. wr t p = Some (0, t1) \<and> ok t1 \<and> un t1 p = Some t2 \<and> ok t2 \<and> state t2 = state t"
proof -
  let ?l = "rwlock_init\<lparr>rw_writer := True\<rparr>"
  have "rw_wrlock (state t p) = Some ?l" using assms(3) by (simp add: rw_wrlock_def rwlock_init_def)
  from wr [OF assms(1,2) this] obtain t1 where t1: "wr t p = Some (0, t1)" "ok t1" "state t1 = (state t)(p := ?l)"
    by blast
  then have "rw_unlock (state t1 p) = Some (state t p)"
    using assms(3) by (simp add: rw_unlock_def rwlock_init_def)
  from un [OF t1(2) this] t1 show ?thesis by auto
qed

end

subsection \<open>The table keeps the contract\<close>

lemma acquire_run:
  assumes wf: "locks_wf t" and len: "length p < MAX_PATH_LEN" and f: "f (lock_state t p) = Some l"
  shows "\<exists>t1 t2. get_or_create_file_lock_node True t p = Some (True, t1) \<and> on_node f t1 p = Some t2 \<and>
    locks_wf t2 \<and> lock_state t2 = (lock_state t)(p := l)"
proof -
  from get_or_create_run [OF wf len, of True] obtain t1 where t1:
    "get_or_create_file_lock_node True t p = Some (True, t1)" "locks_wf t1"
    "lock_of t1 = (lock_of t)(p \<mapsto> lock_state t p)" by auto
  then have p: "lock_of t1 p = Some (lock_state t p)" by simp
  from on_node_run(2) [of t1 p "lock_state t p" f l, OF t1(2) p f] obtain t2 where t2:
    "on_node f t1 p = Some t2" "locks_wf t2" "lock_of t2 = (lock_of t1)(p \<mapsto> l)" by blast
  have "lock_of t2 = (lock_of t)(p \<mapsto> l)" using t1(3) t2(3) by simp
  with t1 t2 lock_state_upd show ?thesis by blast
qed

lemma release_run:
  assumes wf: "locks_wf t" and f: "rw_unlock (lock_state t p) = Some l"
  shows "\<exists>t'. on_node rw_unlock t p = Some t' \<and> locks_wf t' \<and> lock_of t' = (lock_of t)(p \<mapsto> l) \<and>
    lock_state t' = (lock_state t)(p := l)"
proof -
  have "lock_of t p \<noteq> None"
    using f by (auto simp: lock_state_def rw_unlock_def rwlock_init_def split: option.splits)
  then have "lock_of t p = Some (lock_state t p)" by (rule lock_of_state)
  from on_node_run(2) [of t p "lock_state t p" rw_unlock l, OF wf this f] lock_state_upd show ?thesis by blast
qed

interpretation flocks: file_lock_api locks_wf lock_state "acquire_read_lock True 0" "acquire_write_lock True 0"
  release_read_lock
proof unfold_locales
  show "\<exists>t'. acquire_read_lock True 0 t p = Some (0, t') \<and> locks_wf t' \<and> lock_state t' = (lock_state t)(p := l)"
    if "locks_wf t" "length p < MAX_PATH_LEN" "rw_rdlock (lock_state t p) = Some l" for t p l
    using acquire_run [of t p rw_rdlock l, OF that] by (auto simp: acquire_read_lock_def)
  show "\<exists>t'. acquire_write_lock True 0 t p = Some (0, t') \<and> locks_wf t' \<and> lock_state t' = (lock_state t)(p := l)"
    if "locks_wf t" "length p < MAX_PATH_LEN" "rw_wrlock (lock_state t p) = Some l" for t p l
    using acquire_run [of t p rw_wrlock l, OF that] by (auto simp: acquire_write_lock_def)
  show "\<exists>t'. release_read_lock t p = Some t' \<and> locks_wf t' \<and> lock_state t' = (lock_state t)(p := l)"
    if "locks_wf t" "rw_unlock (lock_state t p) = Some l" for t p l
    using release_run [OF that] by (auto simp: release_read_lock_def)
qed

lemma release_write_same: "release_write_lock = release_read_lock"
  by (simp add: fun_eq_iff release_read_lock_def release_write_lock_def)

subsection \<open>Threads\<close>

datatype thread_state = Idle | Wants_read string | Wants_write string | Reads string | Writes string

text \<open>
  The steps of the threads \<open>i\<close>: finding or creating the node of a path under the mutex
  (\<open>malloc_ok\<close> is whether there is memory for a new one), locking it when that does not
  block, and unlocking it under the mutex. Each section of \<open>file_locks_mutex\<close> is one step: the
  code calls nothing that blocks while it holds the mutex.
\<close>

inductive lock_step :: "lock_table \<times> (nat \<Rightarrow> thread_state) \<Rightarrow> lock_table \<times> (nat \<Rightarrow> thread_state) \<Rightarrow> bool" where
  want_read: "st i = Idle \<Longrightarrow> length p < MAX_PATH_LEN \<Longrightarrow>
    get_or_create_file_lock_node malloc_ok t p = Some (True, t') \<Longrightarrow> lock_step (t, st) (t', st(i := Wants_read p))"
| want_write: "st i = Idle \<Longrightarrow> length p < MAX_PATH_LEN \<Longrightarrow>
    get_or_create_file_lock_node malloc_ok t p = Some (True, t') \<Longrightarrow> lock_step (t, st) (t', st(i := Wants_write p))"
| get_read: "st i = Wants_read p \<Longrightarrow> on_node rw_rdlock t p = Some t' \<Longrightarrow> lock_step (t, st) (t', st(i := Reads p))"
| get_write: "st i = Wants_write p \<Longrightarrow> on_node rw_wrlock t p = Some t' \<Longrightarrow> lock_step (t, st) (t', st(i := Writes p))"
| end_read: "st i = Reads p \<Longrightarrow> release_read_lock t p = Some t' \<Longrightarrow> lock_step (t, st) (t', st(i := Idle))"
| end_write: "st i = Writes p \<Longrightarrow> release_write_lock t p = Some t' \<Longrightarrow> lock_step (t, st) (t', st(i := Idle))"

inductive_cases lock_stepE: "lock_step (t, st) c"

text \<open>
  The failed acquisitions, after which the caller has \<open>-1\<close> and goes on without a lock: there is
  no node and no memory for one, or the locking call returns an error.
\<close>

inductive lock_fail :: "lock_table \<times> (nat \<Rightarrow> thread_state) \<Rightarrow> lock_table \<times> (nat \<Rightarrow> thread_state) \<Rightarrow> bool" where
  no_node: "st i = Idle \<Longrightarrow> length p < MAX_PATH_LEN \<Longrightarrow>
    get_or_create_file_lock_node malloc_ok t p = Some (False, t') \<Longrightarrow> lock_fail (t, st) (t', st)"
| read_refused: "st i = Wants_read p \<Longrightarrow> lock_fail (t, st) (t, st(i := Idle))"
| write_refused: "st i = Wants_write p \<Longrightarrow> lock_fail (t, st) (t, st(i := Idle))"

inductive lock_reachable :: "lock_table \<times> (nat \<Rightarrow> thread_state) \<Rightarrow> bool" where
  lock_start: "lock_reachable (init_file_locks, \<lambda>_. Idle)"
| lock_more: "lock_reachable c \<Longrightarrow> lock_step c c' \<Longrightarrow> lock_reachable c'"
| lock_failed: "lock_reachable c \<Longrightarrow> lock_fail c c' \<Longrightarrow> lock_reachable c'"

text \<open>
  The invariant: each lock counts the threads that read its path, and is held for writing
  when a thread writes it, which is then the only one; threads past \<open>Idle\<close> have a node.
\<close>

definition readers :: "(nat \<Rightarrow> thread_state) \<Rightarrow> string \<Rightarrow> nat set" where
  "readers st p = {i. st i = Reads p}"

definition writers :: "(nat \<Rightarrow> thread_state) \<Rightarrow> string \<Rightarrow> nat set" where
  "writers st p = {i. st i = Writes p}"

fun path_of_state :: "thread_state \<Rightarrow> string option" where
  "path_of_state Idle = None"
| "path_of_state (Wants_read p) = Some p"
| "path_of_state (Wants_write p) = Some p"
| "path_of_state (Reads p) = Some p"
| "path_of_state (Writes p) = Some p"

definition lock_agrees :: "rwlock \<Rightarrow> nat set \<Rightarrow> nat set \<Rightarrow> bool" where
  "lock_agrees l R W \<longleftrightarrow> finite R \<and> rw_readers l = card R \<and>
     (if rw_writer l then R = {} \<and> (\<exists>i. W = {i}) else W = {})"

definition lock_inv :: "lock_table \<times> (nat \<Rightarrow> thread_state) \<Rightarrow> bool" where
  "lock_inv c \<longleftrightarrow> (case c of (t, st) \<Rightarrow> locks_wf t \<and>
     (\<forall>p. lock_agrees (lock_state t p) (readers st p) (writers st p)) \<and>
     (\<forall>i p. path_of_state (st i) = Some p \<longrightarrow> lock_of t p \<noteq> None))"

lemma readers_upd:
  "readers (st(i := s)) p = (if s = Reads p then insert i (readers st p) else readers st p - {i})"
  "writers (st(i := s)) p = (if s = Writes p then insert i (writers st p) else writers st p - {i})"
  by (auto simp: readers_def writers_def)

lemma lock_inv_start: "lock_inv (init_file_locks, \<lambda>_. Idle)"
  using locks_wf_init by (simp add: lock_inv_def lock_state_init lock_agrees_def readers_def writers_def rwlock_init_def)

lemma on_node_some:
  assumes "locks_wf t" and "lock_of t p \<noteq> None" and "on_node f t p = Some t'"
  shows "\<exists>l. f (lock_state t p) = Some l \<and> locks_wf t' \<and> lock_of t' = (lock_of t)(p \<mapsto> l) \<and>
    lock_state t' = (lock_state t)(p := l)"
proof -
  have p: "lock_of t p = Some (lock_state t p)" using assms(2) by (rule lock_of_state)
  with on_node_run(1) [OF assms(1) p, of f] assms(3) obtain l where l: "f (lock_state t p) = Some l" by fastforce
  from on_node_run(2) [of t p "lock_state t p" f l, OF assms(1) p l] assms(3) lock_state_upd [of t' t p l] l
  show ?thesis by auto
qed

text \<open>A step of thread \<open>i\<close> on the lock of \<open>p\<close> that keeps the count of that lock right keeps the invariant.\<close>

lemma lock_inv_step:
  assumes inv: "lock_inv (t, st)" and wf: "locks_wf t'"
    and dom: "\<forall>q. lock_of t q \<noteq> None \<longrightarrow> lock_of t' q \<noteq> None" and p: "lock_of t' p \<noteq> None"
    and state: "lock_state t' = (lock_state t)(p := l)"
    and paths: "path_of_state (st i) \<in> {None, Some p}" "path_of_state s \<in> {None, Some p}"
    and agrees: "lock_agrees (lock_state t p) (readers st p) (writers st p) \<Longrightarrow>
      lock_agrees l (readers (st(i := s)) p) (writers (st(i := s)) p)"
  shows "lock_inv (t', st(i := s))"
proof -
  have "lock_agrees (lock_state t' q) (readers (st(i := s)) q) (writers (st(i := s)) q)" for q
  proof (cases "q = p")
    case True
    with agrees state inv show ?thesis by (simp add: lock_inv_def)
  next
    case False
    have "st i \<noteq> Reads q" "st i \<noteq> Writes q" "s \<noteq> Reads q" "s \<noteq> Writes q" using paths False by auto
    then have "readers (st(i := s)) q = readers st q" "writers (st(i := s)) q = writers st q"
      by (auto simp: readers_def writers_def)
    with False state inv show ?thesis by (simp add: lock_inv_def)
  qed
  moreover have "lock_of t' q \<noteq> None" if "path_of_state ((st(i := s)) j) = Some q" for j q
    using that paths(2) p dom inv by (cases "j = i") (auto simp: lock_inv_def)
  ultimately show ?thesis using wf by (simp add: lock_inv_def)
qed

lemma get_or_create_inv:
  assumes inv: "lock_inv (t, st)" and len: "length p < MAX_PATH_LEN"
    and t': "get_or_create_file_lock_node m t p = Some (True, t')"
    and st: "st i = Idle" and s: "s \<in> {Wants_read p, Wants_write p}"
  shows "lock_inv (t', st(i := s))"
proof -
  have wf: "locks_wf t" using inv by (simp add: lock_inv_def)
  from get_or_create_run [OF wf len, of m] t' have "m \<or> lock_of t p \<noteq> None" and r: "locks_wf t'"
    "lock_of t' = (if m then (lock_of t)(p \<mapsto> lock_state t p) else lock_of t)" by auto
  then have r': "lock_of t' = (lock_of t)(p \<mapsto> lock_state t p)"
    using lock_of_state [of t p] by (auto simp: fun_upd_idem)
  have "readers (st(i := s)) p = readers st p" "writers (st(i := s)) p = writers st p"
    using st s by (auto simp: readers_def writers_def)
  then show ?thesis
    using r' st s lock_state_upd [OF r']
    by (intro lock_inv_step [OF inv r(1), of p "lock_state t p"]) auto
qed

lemma locking_inv:
  assumes inv: "lock_inv (t, st)" and t': "on_node f t p = Some t'" and st: "path_of_state (st i) = Some p"
    and s: "path_of_state s \<in> {None, Some p}"
    and agrees: "\<And>l. f (lock_state t p) = Some l \<Longrightarrow> lock_agrees (lock_state t p) (readers st p) (writers st p) \<Longrightarrow>
      lock_agrees l (readers (st(i := s)) p) (writers (st(i := s)) p)"
  shows "lock_inv (t', st(i := s))"
proof -
  have "locks_wf t" "lock_of t p \<noteq> None" using inv st by (auto simp: lock_inv_def)
  from on_node_some [OF this t'] obtain l where l: "f (lock_state t p) = Some l" "locks_wf t'"
    "lock_of t' = (lock_of t)(p \<mapsto> l)" "lock_state t' = (lock_state t)(p := l)" by blast
  then show ?thesis using st s by (intro lock_inv_step [OF inv l(2), of p l] agrees) auto
qed

lemma agrees_rd:
  "i \<notin> R \<Longrightarrow> rw_rdlock l = Some l' \<Longrightarrow> lock_agrees l R W \<Longrightarrow> lock_agrees l' (insert i R) W"
  by (auto simp: lock_agrees_def rw_rdlock_def split: if_splits)

lemma agrees_wr: "rw_wrlock l = Some l' \<Longrightarrow> lock_agrees l R W \<Longrightarrow> lock_agrees l' R (insert i W)"
  by (auto simp: lock_agrees_def rw_wrlock_def split: if_splits)

lemma agrees_un_rd: "i \<in> R \<Longrightarrow> rw_unlock l = Some l' \<Longrightarrow> lock_agrees l R W \<Longrightarrow> lock_agrees l' (R - {i}) W"
  by (auto simp: lock_agrees_def rw_unlock_def split: if_splits)

lemma agrees_un_wr:
  assumes "i \<in> W" and "rw_unlock l = Some l'" and "lock_agrees l R W"
  shows "lock_agrees l' R (W - {i})"
proof -
  have w: "rw_writer l" using assms(1,3) by (cases "rw_writer l") (simp_all add: lock_agrees_def)
  with assms(3) obtain k where "R = {}" "W = {k}" "rw_readers l = 0" by (auto simp: lock_agrees_def)
  moreover from this assms(1) have "W - {i} = {}" by simp
  moreover have "l' = l\<lparr>rw_writer := False\<rparr>" using assms(2) w by (simp add: rw_unlock_def)
  ultimately show ?thesis by (simp add: lock_agrees_def)
qed

lemma lock_step_inv: "lock_step c c' \<Longrightarrow> lock_inv c \<Longrightarrow> lock_inv c'"
proof (induction rule: lock_step.induct)
  case (want_read st i p m t t')
  then show ?case by (intro get_or_create_inv [of t st p m]) auto
next
  case (want_write st i p m t t')
  then show ?case by (intro get_or_create_inv [of t st p m]) auto
next
  case (get_read st i p t t')
  then have "i \<notin> readers st p" "i \<notin> writers st p" by (auto simp: readers_def writers_def)
  with get_read show ?case
    by (intro locking_inv [of t st rw_rdlock p]) (auto simp: readers_upd intro: agrees_rd)
next
  case (get_write st i p t t')
  then have "i \<notin> readers st p" by (auto simp: readers_def)
  with get_write show ?case
    by (intro locking_inv [of t st rw_wrlock p]) (auto simp: readers_upd intro: agrees_wr)
next
  case (end_read st i p t t')
  then have "i \<in> readers st p" "i \<notin> writers st p" by (auto simp: readers_def writers_def)
  with end_read show ?case
    by (intro locking_inv [of t st rw_unlock p]) (auto simp: readers_upd release_read_lock_def intro: agrees_un_rd)
next
  case (end_write st i p t t')
  then have "i \<in> writers st p" "i \<notin> readers st p" by (auto simp: readers_def writers_def)
  with end_write show ?case
    by (intro locking_inv [of t st rw_unlock p]) (auto simp: readers_upd release_write_lock_def intro: agrees_un_wr)
qed

lemma lock_fail_inv: "lock_fail c c' \<Longrightarrow> lock_inv c \<Longrightarrow> lock_inv c'"
proof (induction rule: lock_fail.induct)
  case (no_node st i p m t t')
  then have wf: "locks_wf t" by (simp add: lock_inv_def)
  from get_or_create_run [OF wf no_node(2), of m] no_node(3) have "locks_wf t'" "lock_of t' = lock_of t"
    by (auto split: if_splits)
  with no_node(4) show ?case by (simp add: lock_inv_def lock_state_def)
next
  case (read_refused st i p t)
  then have "readers (st(i := Idle)) q = readers st q" "writers (st(i := Idle)) q = writers st q" for q
    by (auto simp: readers_def writers_def)
  with read_refused(2) show ?case by (simp add: lock_inv_def)
next
  case (write_refused st i p t)
  then have "readers (st(i := Idle)) q = readers st q" "writers (st(i := Idle)) q = writers st q" for q
    by (auto simp: readers_def writers_def)
  with write_refused(2) show ?case by (simp add: lock_inv_def)
qed

lemma lock_reachable_inv: "lock_reachable c \<Longrightarrow> lock_inv c"
  by (induction rule: lock_reachable.induct) (auto intro: lock_inv_start lock_step_inv lock_fail_inv)

subsection \<open>Properties\<close>

text \<open>
  Property C13: the file locks exclude. However the threads of the storage server interleave
  and whichever of their acquisitions fail, while one of them holds the write lock of a path
  no other holds a lock of that path.
\<close>

theorem lock_exclusion:
  assumes "lock_reachable (t, st)" and "st i = Writes p" and "st j \<in> {Reads p, Writes p}"
  shows "i = j"
proof -
  have a: "lock_agrees (lock_state t p) (readers st p) (writers st p)"
    using lock_reachable_inv [OF assms(1)] by (simp add: lock_inv_def)
  have i: "i \<in> writers st p" using assms(2) by (simp add: writers_def)
  with a have R: "readers st p = {}" and W: "\<exists>k. writers st p = {k}"
    by (auto simp: lock_agrees_def split: if_splits)
  have "j \<in> writers st p" using assms(3) R by (auto simp: readers_def writers_def)
  with i W show ?thesis by auto
qed

theorem lock_exclusion_witness:
  "\<exists>t st. lock_reachable (t, st) \<and> st (0::nat) = Writes ''a'' \<and> (\<forall>j. st j \<in> {Reads ''a'', Writes ''a''} \<longrightarrow> 0 = j)"
proof -
  have len: "length ''a'' < MAX_PATH_LEN" by (simp add: MAX_PATH_LEN_def)
  have "rw_wrlock (lock_state init_file_locks ''a'') = Some (rwlock_init\<lparr>rw_writer := True\<rparr>)"
    by (simp add: lock_state_init rw_wrlock_def rwlock_init_def)
  from acquire_run [of init_file_locks "''a''" rw_wrlock, OF locks_wf_init len this] obtain t1 t2 where
    t: "get_or_create_file_lock_node True init_file_locks ''a'' = Some (True, t1)" "on_node rw_wrlock t1 ''a'' = Some t2"
    by blast
  let ?st = "(\<lambda>_. Idle)(0 := Wants_write ''a'', 0 := Writes ''a'')"
  have "lock_reachable (t1, (\<lambda>_. Idle)(0 := Wants_write ''a''))"
    using want_write [of "\<lambda>_. Idle" 0, OF _ len t(1)] lock_start lock_more by blast
  then have r: "lock_reachable (t2, ?st)"
    using get_write [of "(\<lambda>_. Idle)(0 := Wants_write ''a'')" 0, OF _ t(2)] lock_more by fastforce
  have "?st 0 = Writes ''a''" by simp
  with lock_exclusion [OF r this] r show ?thesis by blast
qed

text \<open>
  Property C14: the file locks do not deadlock. In every reachable state in which a thread
  is past its start, some thread can go on: it can lock or it can unlock.
\<close>

theorem lock_progress:
  assumes "lock_reachable (t, st)" and "st i \<noteq> Idle"
  shows "\<exists>j t' s. st j \<noteq> Idle \<and> lock_step (t, st) (t', st(j := s))"
proof -
  have inv: "lock_inv (t, st)" by (rule lock_reachable_inv [OF assms(1)])
  then have wf: "locks_wf t" by (simp add: lock_inv_def)
  obtain p where p: "path_of_state (st i) = Some p" using assms(2) by (cases "st i") auto
  then have node: "lock_of t p \<noteq> None" using inv by (auto simp: lock_inv_def)
  have a: "lock_agrees (lock_state t p) (readers st p) (writers st p)" using inv by (simp add: lock_inv_def)
  have act: "\<exists>t'. on_node f t p = Some t'" if "f (lock_state t p) \<noteq> None" for f
    using on_node_run(1) [OF wf lock_of_state [OF node], of f] that by auto
  show ?thesis
  proof (cases "readers st p = {} \<and> writers st p = {}")
    case True
    then have "rw_rdlock (lock_state t p) \<noteq> None" "rw_wrlock (lock_state t p) \<noteq> None"
      using a by (auto simp: lock_agrees_def rw_rdlock_def rw_wrlock_def split: if_splits)
    then obtain tr tw where "on_node rw_rdlock t p = Some tr" "on_node rw_wrlock t p = Some tw" using act by blast
    moreover have "st i \<in> {Wants_read p, Wants_write p}"
      using p True by (cases "st i") (auto simp: readers_def writers_def)
    ultimately show ?thesis using assms(2) by (blast intro: get_read get_write)
  next
    case False
    then have "rw_unlock (lock_state t p) \<noteq> None"
      using a by (auto simp: lock_agrees_def rw_unlock_def split: if_splits)
    then obtain t' where t': "on_node rw_unlock t p = Some t'" using act by blast
    from False obtain j where "st j = Reads p \<or> st j = Writes p" by (auto simp: readers_def writers_def)
    with t' show ?thesis
      by (metis end_read end_write release_read_lock_def release_write_lock_def thread_state.distinct(5,7))
  qed
qed

theorem lock_progress_witness:
  "\<exists>t st. lock_reachable (t, st) \<and> st 0 = Wants_read ''a'' \<and>
     (\<exists>j t' s. st j \<noteq> Idle \<and> lock_step (t, st) (t', st(j := s)))"
proof -
  have len: "length ''a'' < MAX_PATH_LEN" by (simp add: MAX_PATH_LEN_def)
  from get_or_create_run [OF locks_wf_init len, of True] obtain t where
    t: "get_or_create_file_lock_node True init_file_locks ''a'' = Some (True, t)" by auto
  let ?st = "(\<lambda>_. Idle)(0 := Wants_read ''a'')"
  have r: "lock_reachable (t, ?st)"
    using want_read [of "\<lambda>_. Idle" 0, OF _ len t] lock_start lock_more by blast
  have st: "?st 0 = Wants_read ''a''" by simp
  then have "?st 0 \<noteq> Idle" by simp
  from lock_progress [OF r this] r st show ?thesis by blast
qed

end
