(* ===== verification/Storage_Server.thy ===== *)
theory Storage_Server
  imports Net File_Props Lock_Props
begin

text \<open>
  \<open>src/storage_server.c\<close>: the handler of a client's connection, the handler of a connection
  of the naming server, and the start of the server. The state is the disk and the table
  of file locks; one handler runs to its end before the next one starts (the interleaving
  of their locks is in \<open>Lock_Props\<close>).
\<close>

record ss_state =
  ss_disk :: disk
  ss_locks :: lock_table

text \<open>
  What the system answers one request: the allocation of a lock node, the result of the
  locking call, and the storage server a copy is sent to.
\<close>

record ss_env =
  se_malloc :: bool
  se_lock_result :: int
  se_peer :: peer

subsection \<open>Requests of clients\<close>

definition ss_handle_read :: "ss_env \<Rightarrow> ss_state \<Rightarrow> Message \<Rightarrow> (ss_state \<times> Message) c_run" where
  "ss_handle_read env s msg = do {
     (rc, t) \<leftarrow> acquire_read_lock (se_malloc env) (se_lock_result env) (ss_locks s) (msg_path msg);
     if rc = 0 then do {
       let (code, dat, bytes_read) = ss_read (ss_disk s) (msg_path msg) (msg_data ack_message) 0;
       t \<leftarrow> release_read_lock t (msg_path msg);
       Some (s\<lparr>ss_locks := t\<rparr>,
             ack_message\<lparr>msg_data := dat, msg_error_code := code, msg_data_size := bytes_read\<rparr>)
     } else Some (s\<lparr>ss_locks := t\<rparr>, ack_message\<lparr>msg_error_code := FILE_IN_USE\<rparr>)
   }"

definition ss_handle_write :: "ss_env \<Rightarrow> ss_state \<Rightarrow> Message \<Rightarrow> (ss_state \<times> Message) c_run" where
  "ss_handle_write env s msg = do {
     (rc, t) \<leftarrow> acquire_write_lock (se_malloc env) (se_lock_result env) (ss_locks s) (msg_path msg);
     if rc = 0 then do {
       (code, d) \<leftarrow> ss_write (ss_disk s) (msg_path msg) (msg_data msg) (msg_data_size msg) (msg_write_mode msg);
       t \<leftarrow> release_write_lock t (msg_path msg);
       Some (s\<lparr>ss_disk := d, ss_locks := t\<rparr>, ack_message\<lparr>msg_error_code := code\<rparr>)
     } else Some (s\<lparr>ss_locks := t\<rparr>, ack_message\<lparr>msg_error_code := FILE_IN_USE\<rparr>)
   }"

definition ss_handle_info :: "ss_env \<Rightarrow> ss_state \<Rightarrow> Message \<Rightarrow> (ss_state \<times> Message) c_run" where
  "ss_handle_info env s msg = do {
     (rc, t) \<leftarrow> acquire_read_lock (se_malloc env) (se_lock_result env) (ss_locks s) (msg_path msg);
     if rc = 0 then do {
       (code, resp) \<leftarrow> ss_get_info (ss_disk s) (msg_path msg) ack_message;
       t \<leftarrow> release_read_lock t (msg_path msg);
       Some (s\<lparr>ss_locks := t\<rparr>, resp\<lparr>msg_error_code := code\<rparr>)
     } else Some (s\<lparr>ss_locks := t\<rparr>, ack_message\<lparr>msg_error_code := FILE_IN_USE\<rparr>)
   }"

definition ss_client_dispatch :: "ss_env \<Rightarrow> ss_state \<Rightarrow> Message \<Rightarrow> (ss_state \<times> Message) c_run" where
  "ss_client_dispatch env s msg = (case msg_operation msg of
       READ_FILE \<Rightarrow> ss_handle_read env s msg
     | WRITE_FILE \<Rightarrow> ss_handle_write env s msg
     | GET_FILE_INFO \<Rightarrow> ss_handle_info env s msg
     | _ \<Rightarrow> Some (s, nack_message INVALID_OPERATION))"

definition handle_client_connection ::
  "ss_env \<Rightarrow> ss_state \<Rightarrow> int \<times> Message \<Rightarrow> (ss_state \<times> Message option) c_run" where
  "handle_client_connection env s r = (case receive_message r of
     (code, msg) \<Rightarrow>
       if code \<noteq> 0 then Some (s, None)
       else do { (s, resp) \<leftarrow> ss_client_dispatch env s msg; Some (s, Some resp) })"

subsection \<open>Requests of the naming server\<close>

definition ss_handle_create :: "ss_env \<Rightarrow> ss_state \<Rightarrow> Message \<Rightarrow> (ss_state \<times> Message) c_run" where
  "ss_handle_create env s msg = do {
     (rc, t) \<leftarrow> acquire_write_lock (se_malloc env) (se_lock_result env) (ss_locks s) (msg_path msg);
     if rc = 0 then do {
       let (code, d) = ss_create (ss_disk s) (msg_path msg) (msg_file_type msg);
       t \<leftarrow> release_write_lock t (msg_path msg);
       Some (s\<lparr>ss_disk := d, ss_locks := t\<rparr>, ack_message\<lparr>msg_error_code := code\<rparr>)
     } else Some (s\<lparr>ss_locks := t\<rparr>, ack_message\<lparr>msg_error_code := FILE_IN_USE\<rparr>)
   }"

definition ss_handle_delete :: "ss_env \<Rightarrow> ss_state \<Rightarrow> Message \<Rightarrow> (ss_state \<times> Message) c_run" where
  "ss_handle_delete env s msg = do {
     (rc, t) \<leftarrow> acquire_write_lock (se_malloc env) (se_lock_result env) (ss_locks s) (msg_path msg);
     if rc = 0 then do {
       let (code, d) = ss_delete (ss_disk s) (msg_path msg);
       t \<leftarrow> release_write_lock t (msg_path msg);
       Some (s\<lparr>ss_disk := d, ss_locks := t\<rparr>, ack_message\<lparr>msg_error_code := code\<rparr>)
     } else Some (s\<lparr>ss_locks := t\<rparr>, ack_message\<lparr>msg_error_code := FILE_IN_USE\<rparr>)
   }"

text \<open>
  \<open>COPY_FILE\<close>: the first part reads the file under its lock into the message that the second
  part sends to the destination server as a \<open>WRITE_FILE\<close>.
\<close>

definition ss_copy_read :: "ss_env \<Rightarrow> ss_state \<Rightarrow> Message \<Rightarrow> (ss_state \<times> int \<times> Message) c_run" where
  "ss_copy_read env s msg = do {
     (rc, t) \<leftarrow> acquire_read_lock (se_malloc env) (se_lock_result env) (ss_locks s) (msg_path msg);
     if rc = 0 then do {
       let (code, dat, bytes_read) = ss_read (ss_disk s) (msg_path msg) (msg_data zero_message) 0;
       t \<leftarrow> release_read_lock t (msg_path msg);
       Some (s\<lparr>ss_locks := t\<rparr>, code, zero_message\<lparr>msg_data := dat, msg_data_size := bytes_read\<rparr>)
     } else Some (s\<lparr>ss_locks := t\<rparr>, FILE_IN_USE, zero_message)
   }"

definition ss_copy_send :: "peer \<Rightarrow> Message \<Rightarrow> Message \<Rightarrow> Message c_run" where
  "ss_copy_send w msg content =
     (case open_peer w (msg_dest_ss_ip msg) (msg_dest_ss_client_port msg) of
        Some e \<Rightarrow> Some (nack_message e)
      | None \<Rightarrow> do {
          p \<leftarrow> c_strcpy MAX_PATH_LEN (msg_path2 msg);
          Some (case exchange w (msg_dest_ss_ip msg) (msg_dest_ss_client_port msg)
                     (content\<lparr>msg_operation := WRITE_FILE, msg_path := p, msg_write_mode := WRITE_MODE_SYNC\<rparr>) of
                  Inl e \<Rightarrow> nack_message e
                | Inr reply \<Rightarrow> if is_success reply then ack_message else nack_message (msg_error_code reply))
        })"

definition ss_handle_copy :: "ss_env \<Rightarrow> ss_state \<Rightarrow> Message \<Rightarrow> (ss_state \<times> Message) c_run" where
  "ss_handle_copy env s msg = do {
     (s, code, content) \<leftarrow> ss_copy_read env s msg;
     if code \<noteq> SUCCESS then Some (s, nack_message code)
     else do { resp \<leftarrow> ss_copy_send (se_peer env) msg content; Some (s, resp) }
   }"

definition ss_nm_dispatch :: "ss_env \<Rightarrow> ss_state \<Rightarrow> Message \<Rightarrow> (ss_state \<times> Message) c_run" where
  "ss_nm_dispatch env s msg = (case msg_operation msg of
       CREATE_FILE \<Rightarrow> ss_handle_create env s msg
     | DELETE_FILE \<Rightarrow> ss_handle_delete env s msg
     | COPY_FILE \<Rightarrow> ss_handle_copy env s msg
     | _ \<Rightarrow> Some (s, nack_message INVALID_OPERATION))"

definition handle_nm_connection ::
  "ss_env \<Rightarrow> ss_state \<Rightarrow> int \<times> Message \<Rightarrow> (ss_state \<times> Message option) c_run" where
  "handle_nm_connection env s r = (case receive_message r of
     (code, msg) \<Rightarrow>
       if code \<noteq> 0 then Some (s, None)
       else do { (s, resp) \<leftarrow> ss_nm_dispatch env s msg; Some (s, Some resp) })"

text \<open>The two accept loops as one sequence of connections: \<open>Inl\<close> on the client port, \<open>Inr\<close> on the other.\<close>

fun ss_serve :: "ss_state \<Rightarrow> (ss_env \<times> ((int \<times> Message) + (int \<times> Message))) list \<Rightarrow>
    (ss_state \<times> Message option list) c_run" where
  "ss_serve s [] = Some (s, [])"
| "ss_serve s ((env, c) # rest) = do {
     (s, resp) \<leftarrow> (case c of Inl r \<Rightarrow> handle_client_connection env s r | Inr r \<Rightarrow> handle_nm_connection env s r);
     (s, resps) \<leftarrow> ss_serve s rest;
     Some (s, resp # resps)
   }"

end
