(* ===== verification/Storage_Correct.thy ===== *)
theory Storage_Correct
  imports Storage_Server
begin

text \<open>
  The storage server between two requests: no file lock is held and the disk is
  well-formed. Each handler starts and ends in such a state; what it answers is what the
  file operation returns, or \<open>FILE_IN_USE\<close> when the lock could not be taken.
\<close>

subsection \<open>Locked sections of a quiet table\<close>

definition locks_quiet :: "lock_table \<Rightarrow> bool" where
  "locks_quiet t \<longleftrightarrow> locks_wf t \<and> lock_state t = (\<lambda>_. rwlock_init)"

text \<open>Whether a lock of \<open>p\<close> can be taken: there is a node or memory for one, and the call succeeds.\<close>

definition lock_ok :: "ss_env \<Rightarrow> lock_table \<Rightarrow> string \<Rightarrow> bool" where
  "lock_ok env t p \<longleftrightarrow> (se_malloc env \<or> lock_of t p \<noteq> None) \<and> se_lock_result env = 0"

lemma get_or_create_existing:
  "locks_wf t \<Longrightarrow> length p < MAX_PATH_LEN \<Longrightarrow> m \<or> lock_of t p \<noteq> None \<Longrightarrow>
     get_or_create_file_lock_node m t p = get_or_create_file_lock_node True t p"
  by (auto simp: get_or_create_file_lock_node_def lock_of_def locks_wf_get split: option.splits)

lemma get_or_create_unable:
  "locks_wf t \<Longrightarrow> length p < MAX_PATH_LEN \<Longrightarrow> lock_of t p = None \<Longrightarrow>
     get_or_create_file_lock_node False t p = Some (False, t)"
  by (auto simp: get_or_create_file_lock_node_def lock_of_def locks_wf_get split: option.splits)

lemma acquire_fails:
  assumes q: "locks_quiet t" and p: "length p < MAX_PATH_LEN" and no: "\<not> lock_ok env t p"
  shows "\<exists>t'. acquire_read_lock (se_malloc env) (se_lock_result env) t p = Some (-1, t') \<and>
    acquire_write_lock (se_malloc env) (se_lock_result env) t p = Some (-1, t') \<and> locks_quiet t'"
proof -
  have wf: "locks_wf t" using q by (simp add: locks_quiet_def)
  from get_or_create_run [OF wf p, of "se_malloc env"] obtain t' where t':
    "get_or_create_file_lock_node (se_malloc env) t p = Some (se_malloc env \<or> lock_of t p \<noteq> None, t')"
    "locks_wf t'" "lock_of t' = (if se_malloc env then (lock_of t)(p \<mapsto> lock_state t p) else lock_of t)" by blast
  have "lock_state t' = lock_state t"
    using t'(3) by (auto simp: lock_state_def fun_eq_iff split: if_splits)
  then have "locks_quiet t'" using t'(2) q by (simp add: locks_quiet_def)
  with t'(1) no show ?thesis by (auto simp: acquire_read_lock_def acquire_write_lock_def lock_ok_def)
qed

lemma read_section_quiet:
  assumes q: "locks_quiet t" and p: "length p < MAX_PATH_LEN" and ok: "lock_ok env t p"
  shows "\<exists>t1 t2. acquire_read_lock (se_malloc env) (se_lock_result env) t p = Some (0, t1) \<and>
    release_read_lock t1 p = Some t2 \<and> locks_quiet t2"
proof -
  have wf: "locks_wf t" and st: "lock_state t p = rwlock_init" using q by (simp_all add: locks_quiet_def)
  have "get_or_create_file_lock_node (se_malloc env) t p = get_or_create_file_lock_node True t p"
    using ok by (intro get_or_create_existing [OF wf p]) (simp add: lock_ok_def)
  then have "acquire_read_lock (se_malloc env) (se_lock_result env) t p = acquire_read_lock True 0 t p"
    using ok by (simp add: acquire_read_lock_def lock_ok_def)
  moreover have "\<not> rw_writer (lock_state t p)" using st by (simp add: rwlock_init_def)
  from flocks.read_section [OF wf p this] obtain t1 t2 where "acquire_read_lock True 0 t p = Some (0, t1)"
    "release_read_lock t1 p = Some t2" "locks_wf t2" "lock_state t2 = lock_state t" by blast
  moreover have "locks_quiet t2" using \<open>locks_wf t2\<close> \<open>lock_state t2 = lock_state t\<close> q by (simp add: locks_quiet_def)
  ultimately show ?thesis by auto
qed

lemma write_section_quiet:
  assumes q: "locks_quiet t" and p: "length p < MAX_PATH_LEN" and ok: "lock_ok env t p"
  shows "\<exists>t1 t2. acquire_write_lock (se_malloc env) (se_lock_result env) t p = Some (0, t1) \<and>
    release_write_lock t1 p = Some t2 \<and> locks_quiet t2"
proof -
  have wf: "locks_wf t" and st: "lock_state t p = rwlock_init" using q by (simp_all add: locks_quiet_def)
  have "get_or_create_file_lock_node (se_malloc env) t p = get_or_create_file_lock_node True t p"
    using ok by (intro get_or_create_existing [OF wf p]) (simp add: lock_ok_def)
  then have "acquire_write_lock (se_malloc env) (se_lock_result env) t p = acquire_write_lock True 0 t p"
    using ok by (simp add: acquire_write_lock_def lock_ok_def)
  moreover from flocks.write_section [OF wf p st] obtain t1 t2 where
    "acquire_write_lock True 0 t p = Some (0, t1)" "release_read_lock t1 p = Some t2" "locks_wf t2"
    "lock_state t2 = lock_state t" by blast
  moreover have "locks_quiet t2" using \<open>locks_wf t2\<close> \<open>lock_state t2 = lock_state t\<close> q by (simp add: locks_quiet_def)
  ultimately show ?thesis by (auto simp: release_write_same)
qed

subsection \<open>The handlers\<close>

text \<open>The outcome of a handler whose operation answers \<open>resp\<close> and leaves the disk \<open>d\<close>.\<close>

definition section_outcome :: "ss_env \<Rightarrow> ss_state \<Rightarrow> string \<Rightarrow> disk \<Rightarrow> Message \<Rightarrow> ss_state \<times> Message \<Rightarrow> bool" where
  "section_outcome env s p d resp r \<longleftrightarrow> locks_quiet (ss_locks (fst r)) \<and>
     (if lock_ok env (ss_locks s) p then ss_disk (fst r) = d \<and> snd r = resp
      else ss_disk (fst r) = ss_disk s \<and> snd r = ack_message\<lparr>msg_error_code := FILE_IN_USE\<rparr>)"

lemma handle_read_run:
  assumes "locks_quiet (ss_locks s)" and "length (msg_path m) < MAX_PATH_LEN"
  shows "\<exists>r. ss_handle_read env s m = Some r \<and> section_outcome env s (msg_path m) (ss_disk s)
    (case ss_read (ss_disk s) (msg_path m) [] 0 of
       (code, dat, n) \<Rightarrow> ack_message\<lparr>msg_data := dat, msg_error_code := code, msg_data_size := n\<rparr>) r"
proof (cases "lock_ok env (ss_locks s) (msg_path m)")
  case True
  from read_section_quiet [OF assms True] True show ?thesis
    by (auto simp: ss_handle_read_def section_outcome_def ack_message_def zero_message_def split: prod.splits)
next
  case False
  from acquire_fails [OF assms False] False show ?thesis
    by (auto simp: ss_handle_read_def section_outcome_def)
qed

lemma handle_write_run:
  assumes "locks_quiet (ss_locks s)" and "length (msg_path m) < MAX_PATH_LEN"
    and "ss_write (ss_disk s) (msg_path m) (msg_data m) (msg_data_size m) (msg_write_mode m) = Some (code, d)"
  shows "\<exists>r. ss_handle_write env s m = Some r \<and>
    section_outcome env s (msg_path m) d (ack_message\<lparr>msg_error_code := code\<rparr>) r"
proof (cases "lock_ok env (ss_locks s) (msg_path m)")
  case True
  from write_section_quiet [OF assms(1,2) True] True assms(3) show ?thesis
    by (auto simp: ss_handle_write_def section_outcome_def)
next
  case False
  from acquire_fails [OF assms(1,2) False] False show ?thesis
    by (auto simp: ss_handle_write_def section_outcome_def)
qed

lemma handle_info_run:
  assumes "locks_quiet (ss_locks s)" and "length (msg_path m) < MAX_PATH_LEN"
    and "ss_get_info (ss_disk s) (msg_path m) ack_message = Some (code, resp)"
  shows "\<exists>r. ss_handle_info env s m = Some r \<and>
    section_outcome env s (msg_path m) (ss_disk s) (resp\<lparr>msg_error_code := code\<rparr>) r"
proof (cases "lock_ok env (ss_locks s) (msg_path m)")
  case True
  from read_section_quiet [OF assms(1,2) True] True assms(3) show ?thesis
    by (auto simp: ss_handle_info_def section_outcome_def)
next
  case False
  from acquire_fails [OF assms(1,2) False] False show ?thesis
    by (auto simp: ss_handle_info_def section_outcome_def)
qed

lemma handle_create_run:
  assumes "locks_quiet (ss_locks s)" and "length (msg_path m) < MAX_PATH_LEN"
  shows "\<exists>r. ss_handle_create env s m = Some r \<and>
    section_outcome env s (msg_path m) (snd (ss_create (ss_disk s) (msg_path m) (msg_file_type m)))
      (ack_message\<lparr>msg_error_code := fst (ss_create (ss_disk s) (msg_path m) (msg_file_type m))\<rparr>) r"
proof (cases "lock_ok env (ss_locks s) (msg_path m)")
  case True
  from write_section_quiet [OF assms True] True show ?thesis
    by (auto simp: ss_handle_create_def section_outcome_def split: prod.splits)
next
  case False
  from acquire_fails [OF assms False] False show ?thesis
    by (auto simp: ss_handle_create_def section_outcome_def)
qed

lemma handle_delete_run:
  assumes "locks_quiet (ss_locks s)" and "length (msg_path m) < MAX_PATH_LEN"
  shows "\<exists>r. ss_handle_delete env s m = Some r \<and>
    section_outcome env s (msg_path m) (snd (ss_delete (ss_disk s) (msg_path m)))
      (ack_message\<lparr>msg_error_code := fst (ss_delete (ss_disk s) (msg_path m))\<rparr>) r"
proof (cases "lock_ok env (ss_locks s) (msg_path m)")
  case True
  from write_section_quiet [OF assms True] True show ?thesis
    by (auto simp: ss_handle_delete_def section_outcome_def split: prod.splits)
next
  case False
  from acquire_fails [OF assms False] False show ?thesis
    by (auto simp: ss_handle_delete_def section_outcome_def)
qed

text \<open>What a copy sends: the first 8191 bytes of the file, as a write of the second path.\<close>

definition copied_message :: "Message \<Rightarrow> string \<Rightarrow> Message" where
  "copied_message m bytes = zero_message\<lparr>msg_operation := WRITE_FILE, msg_path := msg_path2 m,
     msg_data := bytes, msg_data_size := int (length bytes), msg_write_mode := WRITE_MODE_SYNC\<rparr>"

definition copy_outcome :: "peer \<Rightarrow> Message \<Rightarrow> string \<Rightarrow> Message" where
  "copy_outcome w m bytes =
     (case open_peer w (msg_dest_ss_ip m) (msg_dest_ss_client_port m) of
        Some e \<Rightarrow> nack_message e
      | None \<Rightarrow> (case exchange w (msg_dest_ss_ip m) (msg_dest_ss_client_port m) (copied_message m bytes) of
          Inl e \<Rightarrow> nack_message e
        | Inr reply \<Rightarrow> if is_success reply then ack_message else nack_message (msg_error_code reply)))"

lemma handle_copy_run:
  assumes "locks_quiet (ss_locks s)" and "length (msg_path m) < MAX_PATH_LEN" and "length (msg_path2 m) < MAX_PATH_LEN"
  shows "\<exists>t. locks_quiet t \<and> ss_handle_copy env s m = Some (s\<lparr>ss_locks := t\<rparr>,
    if \<not> lock_ok env (ss_locks s) (msg_path m) then nack_message FILE_IN_USE
    else case fopen_read (ss_disk s) (msg_path m) of
      None \<Rightarrow> nack_message FILE_NOT_FOUND
    | Some node \<Rightarrow> copy_outcome (se_peer env) m (fread_all (ss_disk s) 8191 node))"
proof (cases "lock_ok env (ss_locks s) (msg_path m)")
  case True
  from read_section_quiet [OF assms(1,2) True] obtain t1 t2 where
    t: "acquire_read_lock (se_malloc env) (se_lock_result env) (ss_locks s) (msg_path m) = Some (0, t1)"
    "release_read_lock t1 (msg_path m) = Some t2" "locks_quiet t2" by blast
  show ?thesis
  proof (cases "fopen_read (ss_disk s) (msg_path m)")
    case None
    with t True show ?thesis
      by (auto simp: ss_handle_copy_def ss_copy_read_def ss_read_def error_code_defs)
  next
    case (Some node)
    with t True assms(3) show ?thesis
      by (auto simp: ss_handle_copy_def ss_copy_read_def ss_read_def ss_copy_send_def size_defs Let_def
          copy_outcome_def copied_message_def zero_message_def split: option.splits sum.splits)
  qed
next
  case False
  from acquire_fails [OF assms(1,2) False] False show ?thesis
    by (auto simp: ss_handle_copy_def ss_copy_read_def error_code_defs)
qed

end
