(* ===== verification/Storage_Props.thy ===== *)
theory Storage_Props
  imports Storage_Correct
begin

text \<open>
  The properties of the storage server of \<open>src/storage_server.c\<close>: it answers every
  well-formed request and ends it with all its locks free, a write can be read back, and
  what a copy carries from one server to another.
\<close>

subsection \<open>Good states\<close>

text \<open>Sizes that \<open>stat\<close> can give: those of a 64-bit signed type.\<close>

definition disk_sizes :: "disk \<Rightarrow> bool" where
  "disk_sizes d \<longleftrightarrow> (\<forall>p. 0 \<le> disk_size d p \<and> disk_size d p < 2 ^ 63) \<and>
     (\<forall>p b. node_of d p = Some (Regular b) \<longrightarrow> int (length b) < 2 ^ 63)"

definition ss_good :: "ss_state \<Rightarrow> bool" where
  "ss_good s \<longleftrightarrow> locks_quiet (ss_locks s) \<and> disk_wf (ss_disk s) \<and> disk_sizes (ss_disk s)"

lemma put_sizes:
  "disk_sizes d \<Longrightarrow> (\<And>b. n = Regular b \<Longrightarrow> length b \<le> 8192) \<Longrightarrow> disk_sizes (put_node d p n)"
proof -
  assume d: "disk_sizes d" and n: "\<And>b. n = Regular b \<Longrightarrow> length b \<le> 8192"
  have "int (length b) < 2 ^ 63" if "n = Regular b" for b using n [OF that] by simp
  with d show ?thesis by (auto simp: disk_sizes_def)
qed

lemma drop_sizes: "disk_sizes d \<Longrightarrow> disk_sizes (drop_node d p)"
  by (auto simp: disk_sizes_def)

lemma fopen_write_sizes: "disk_sizes d \<Longrightarrow> fopen_write d p = Some d' \<Longrightarrow> disk_sizes d'"
  by (auto simp: fopen_write_def intro!: put_sizes split: if_splits option.splits fnode.splits)

lemma fwrite_close_sizes: "disk_sizes d \<Longrightarrow> length b \<le> 8192 \<Longrightarrow> disk_sizes (snd (fwrite_close d p b))"
  by (auto simp: fwrite_close_def intro!: put_sizes split: option.splits fnode.splits)

lemma create_good:
  assumes "disk_wf d" and "disk_sizes d"
  shows "disk_wf (snd (ss_create d p type)) \<and> disk_sizes (snd (ss_create d p type))"
proof (cases type)
  case FILE_TYPE_FILE
  with assms show ?thesis
    using fopen_write_wf [OF assms(1)] fopen_write_sizes [OF assms(2)] fwrite_close_wf
    by (auto simp: ss_create_def intro!: fwrite_close_sizes split: option.splits)
next
  case FILE_TYPE_DIR
  with assms show ?thesis
    by (auto simp: ss_create_def sys_mkdir_def intro!: put_sizes put_wf split: option.splits if_splits)
qed (use assms in \<open>simp add: ss_create_def\<close>)

lemma delete_good:
  assumes "disk_wf d" and "disk_sizes d"
  shows "disk_wf (snd (ss_delete d p)) \<and> disk_sizes (snd (ss_delete d p))"
proof -
  have "disk_sizes d'" if "sys_rmdir d p = Some d' \<or> sys_remove d p = Some d'" for d'
    using that drop_sizes [OF assms(2), of p] by (auto simp: sys_rmdir_def sys_remove_def split: if_splits)
  with assms sys_wf(2,3) [OF assms(1)] show ?thesis
    by (auto simp: ss_delete_def Let_def split: option.splits fnode.splits)
qed

lemma write_good:
  assumes "disk_wf d" and "disk_sizes d" and "0 \<le> n" and "n \<le> 8192"
  shows "\<exists>code d'. ss_write d p data n mode = Some (code, d') \<and> disk_wf d' \<and> disk_sizes d'"
proof -
  obtain b where b: "array_bytes data n = Some b" "length b \<le> 8192"
    using assms(3,4) array_bytes_length [of data n] by (auto simp: array_bytes_def size_defs)
  show ?thesis
  proof (cases "fopen_write d p")
    case None
    with assms show ?thesis by (simp add: ss_write_def)
  next
    case (Some d1)
    from fwrite_close_wf [OF fopen_write_wf [OF assms(1) Some], of p b]
      fwrite_close_sizes [OF fopen_write_sizes [OF assms(2) Some] b(2), of p]
    show ?thesis using Some b(1) by (auto simp: ss_write_def split_beta Let_def)
  qed
qed

lemma info_good:
  assumes "disk_sizes d"
  shows "\<exists>code resp. ss_get_info d p m = Some (code, resp)"
proof (cases "sys_stat d p")
  case None
  then show ?thesis by (simp add: ss_get_info_def)
next
  case (Some x)
  then obtain n sz where x: "x = (n, sz)" by (cases x)
  with Some assms have "0 \<le> sz" "sz < 2 ^ 63"
    by (auto simp: sys_stat_def disk_sizes_def split: if_splits fnode.splits)
  then have "length (dec_int sz) \<le> 21" by (intro dec_int_length) simp
  with Some x show ?thesis by (auto simp: ss_get_info_def size_defs split: fnode.splits)
qed

subsection \<open>Sequences of requests\<close>

text \<open>What arrives is a well-formed message, and a write states a size that its array has.\<close>

definition ss_request_ok :: "Message \<Rightarrow> bool" where
  "ss_request_ok m \<longleftrightarrow> wf_message m \<and>
     (msg_operation m = WRITE_FILE \<longrightarrow> 0 \<le> msg_data_size m \<and> msg_data_size m \<le> 8192)"

lemma section_good:
  assumes "section_outcome env s p d resp r" and "ss_good s" and "disk_wf d \<and> disk_sizes d"
  shows "ss_good (fst r)"
  using assms by (auto simp: section_outcome_def ss_good_def split: if_splits)

lemma ok_path: "ss_request_ok m \<Longrightarrow> length (msg_path m) < MAX_PATH_LEN \<and> length (msg_path2 m) < MAX_PATH_LEN"
  by (simp add: ss_request_ok_def wf_message_def)

lemma client_dispatch_good:
  assumes good: "ss_good s" and ok: "ss_request_ok m"
  shows "\<exists>s' resp. ss_client_dispatch env s m = Some (s', resp) \<and> ss_good s'"
proof -
  note p = ok_path [OF ok, THEN conjunct1]
  have q: "locks_quiet (ss_locks s)" and d: "disk_wf (ss_disk s) \<and> disk_sizes (ss_disk s)"
    using good by (simp_all add: ss_good_def)
  show ?thesis
  proof (cases "msg_operation m")
    case READ_FILE
    from handle_read_run [OF q p, of env] section_good [OF _ good d] READ_FILE show ?thesis
      by (fastforce simp: ss_client_dispatch_def)
  next
    case WRITE_FILE
    then have "0 \<le> msg_data_size m" "msg_data_size m \<le> 8192" using ok by (simp_all add: ss_request_ok_def)
    from write_good [OF d[THEN conjunct1] d[THEN conjunct2] this] obtain code d' where d':
      "ss_write (ss_disk s) (msg_path m) (msg_data m) (msg_data_size m) (msg_write_mode m) = Some (code, d')"
      "disk_wf d' \<and> disk_sizes d'" by blast
    from handle_write_run [OF q p d'(1), of env] section_good [OF _ good d'(2)] WRITE_FILE show ?thesis
      by (fastforce simp: ss_client_dispatch_def)
  next
    case GET_FILE_INFO
    from info_good [OF d[THEN conjunct2]] obtain code resp where
      i: "ss_get_info (ss_disk s) (msg_path m) ack_message = Some (code, resp)" by blast
    from handle_info_run [OF q p i, of env] section_good [OF _ good d] GET_FILE_INFO show ?thesis
      by (fastforce simp: ss_client_dispatch_def)
  qed (use good in \<open>simp_all add: ss_client_dispatch_def\<close>)
qed

lemma nm_dispatch_good:
  assumes good: "ss_good s" and ok: "ss_request_ok m"
  shows "\<exists>s' resp. ss_nm_dispatch env s m = Some (s', resp) \<and> ss_good s'"
proof -
  note p = ok_path [OF ok]
  have q: "locks_quiet (ss_locks s)" and d: "disk_wf (ss_disk s)" "disk_sizes (ss_disk s)"
    using good by (simp_all add: ss_good_def)
  show ?thesis
  proof (cases "msg_operation m")
    case CREATE_FILE
    from handle_create_run [OF q p[THEN conjunct1], of env] section_good [OF _ good create_good [OF d]] CREATE_FILE
    show ?thesis by (fastforce simp: ss_nm_dispatch_def)
  next
    case DELETE_FILE
    from handle_delete_run [OF q p[THEN conjunct1], of env] section_good [OF _ good delete_good [OF d]] DELETE_FILE
    show ?thesis by (fastforce simp: ss_nm_dispatch_def)
  next
    case COPY_FILE
    from handle_copy_run [OF q p[THEN conjunct1] p[THEN conjunct2], of env] COPY_FILE d show ?thesis
      by (auto simp: ss_nm_dispatch_def ss_good_def)
  qed (use good in \<open>simp_all add: ss_nm_dispatch_def\<close>)
qed

fun received :: "(int \<times> Message) + (int \<times> Message) \<Rightarrow> int \<times> Message" where
  "received (Inl r) = r"
| "received (Inr r) = r"

lemma connection_good:
  assumes "ss_good s" and "fst (received c) > 0 \<Longrightarrow> ss_request_ok (snd (received c))"
  shows "\<exists>s' resp. (case c of Inl r \<Rightarrow> handle_client_connection env s r | Inr r \<Rightarrow> handle_nm_connection env s r)
      = Some (s', resp) \<and> ss_good s' \<and> (resp \<noteq> None) = (fst (received c) > 0)"
proof (cases c)
  case (Inl r)
  obtain n m where r: "r = (n, m)" by (cases r)
  show ?thesis
  proof (cases "n > 0")
    case True
    with assms(2) Inl r have "ss_request_ok m" by simp
    from client_dispatch_good [OF assms(1) this, of env] True Inl r show ?thesis
      by (auto simp: handle_client_connection_def receive_message_def)
  qed (use assms(1) Inl r in \<open>auto simp: handle_client_connection_def receive_message_def\<close>)
next
  case (Inr r)
  obtain n m where r: "r = (n, m)" by (cases r)
  show ?thesis
  proof (cases "n > 0")
    case True
    with assms(2) Inr r have "ss_request_ok m" by simp
    from nm_dispatch_good [OF assms(1) this, of env] True Inr r show ?thesis
      by (auto simp: handle_nm_connection_def receive_message_def)
  qed (use assms(1) Inr r in \<open>auto simp: handle_nm_connection_def receive_message_def\<close>)
qed

text \<open>A server with an empty disk, and system calls that succeed, for the witnesses.\<close>

definition empty_server :: ss_state where
  "empty_server = \<lparr>ss_disk = empty_disk, ss_locks = init_file_locks\<rparr>"

definition good_ss_env :: ss_env where
  "good_ss_env = \<lparr>se_malloc = True, se_lock_result = 0, se_peer = answering (\<lambda>_ _ _. ack_message)\<rparr>"

lemma quiet_init: "locks_quiet init_file_locks"
  using locks_wf_init by (simp add: locks_quiet_def lock_state_init fun_eq_iff)

lemma empty_server_good: "ss_good empty_server"
  using quiet_init by (simp add: ss_good_def empty_server_def disk_sizes_def) (simp add: empty_disk_def)

lemma lock_ok_good: "lock_ok good_ss_env t p"
  by (simp add: lock_ok_def good_ss_env_def)

subsection \<open>A write and a read after it\<close>

lemma write_then_read:
  assumes q: "locks_quiet (ss_locks s)" and h: "disk_healthy (ss_disk s)" and p: "length (msg_path m) < MAX_PATH_LEN"
    and size: "msg_data_size m = int (length (msg_data m))" and len: "length (msg_data m) < 8192"
    and cw: "can_write (ss_disk s) (msg_path m)" and reg: "\<And>b. node_of (ss_disk s) (msg_path m) \<noteq> Some (Other b)"
    and ok: "lock_ok env1 (ss_locks s) (msg_path m)" "\<And>t. lock_ok env2 t (msg_path m)" and m': "msg_path m' = msg_path m"
  shows "\<exists>s1 s2. ss_handle_write env1 s m = Some (s1, ack_message) \<and>
    ss_handle_read env2 s1 m' =
      Some (s2, ack_message\<lparr>msg_data := msg_data m, msg_data_size := int (length (msg_data m))\<rparr>) \<and>
    node_of (ss_disk s2) = (node_of (ss_disk s))(msg_path m \<mapsto> Regular (msg_data m))"
proof -
  let ?p = "msg_path m" and ?b = "msg_data m"
  have "array_bytes ?b (msg_data_size m) = Some ?b"
    unfolding size using len by (intro array_bytes_full) (simp_all add: size_defs)
  from ss_write_run [OF cw this, of "msg_write_mode m"] obtain d' where d':
    "ss_write (ss_disk s) ?p ?b (msg_data_size m) (msg_write_mode m) = Some (SUCCESS, d')"
    "node_of d' = (node_of (ss_disk s))(?p := stored (node_of (ss_disk s) ?p) ?b)"
    using h size by (auto simp: disk_healthy_def)
  have st: "stored (node_of (ss_disk s) ?p) ?b = Some (Regular ?b)"
    using reg by (auto simp: stored_def split: option.splits fnode.splits)
  from handle_write_run [OF q p d'(1), of env1] obtain s1 where s1:
    "ss_handle_write env1 s m = Some (s1, ack_message)" "locks_quiet (ss_locks s1)" "ss_disk s1 = d'"
    using ok(1) by (auto simp: section_outcome_def ack_message_def)
  have "\<not> disk_deny d' Open_read ?p"
    using ss_write_healthy [OF d'(1)] h by (simp add: disk_healthy_def)
  then have rd: "ss_read (ss_disk s1) (msg_path m') [] 0 = (SUCCESS, ?b, int (length ?b))"
    using d'(2) st s1(3) len m' fread_healthy [of d'] ss_write_healthy [OF d'(1)] h
    by (simp add: ss_read_def fopen_read_def node_bytes_def size_defs Let_def)
  have "length (msg_path m') < MAX_PATH_LEN" using p m' by simp
  from handle_read_run [OF s1(2) this, of env2] rd obtain s2 where
    "ss_handle_read env2 s1 m' =
      Some (s2, ack_message\<lparr>msg_data := ?b, msg_data_size := int (length ?b)\<rparr>)" "ss_disk s2 = d'"
    using ok(2) s1(3) m' by (auto simp: section_outcome_def ack_message_def)
  with s1 d'(2) st show ?thesis by auto
qed

subsection \<open>Properties\<close>

text \<open>
  Property C9: from a state with no lock held and a well-formed disk, any sequence of
  well-formed requests of clients and of the naming server, whatever the system and the
  other servers answer, has a defined outcome: each connection on which a message arrives
  gets one response, and in the end no lock is held and the disk is well-formed.
\<close>

theorem ss_serves:
  assumes "ss_good s" and "\<forall>(env, c) \<in> set cs. fst (received c) > 0 \<longrightarrow> ss_request_ok (snd (received c))"
  shows "\<exists>s' resps. ss_serve s cs = Some (s', resps) \<and> ss_good s' \<and>
    map (\<lambda>r. r \<noteq> None) resps = map (\<lambda>(env, c). fst (received c) > 0) cs"
  using assms
proof (induction cs arbitrary: s)
  case Nil
  then show ?case by simp
next
  case (Cons x cs)
  obtain env c where x: "x = (env, c)" by (cases x)
  with Cons.prems(2) have "fst (received c) > 0 \<Longrightarrow> ss_request_ok (snd (received c))" by auto
  from connection_good [OF Cons.prems(1) this, of env] obtain s1 resp where s1:
    "(case c of Inl r \<Rightarrow> handle_client_connection env s r | Inr r \<Rightarrow> handle_nm_connection env s r) = Some (s1, resp)"
    "ss_good s1" "(resp \<noteq> None) = (fst (received c) > 0)" by blast
  from Cons.IH [OF s1(2)] Cons.prems(2) obtain s' resps where
    "ss_serve s1 cs = Some (s', resps)" "ss_good s'"
    "map (\<lambda>r. r \<noteq> None) resps = map (\<lambda>(env, c). fst (received c) > 0) cs" by auto
  with s1 x show ?case by simp
qed

theorem ss_serves_witness:
  "\<exists>s' resp. ss_serve empty_server [(good_ss_env, Inr (1, zero_message\<lparr>msg_operation := CREATE_FILE, msg_path := ''a''\<rparr>))]
     = Some (s', [Some resp]) \<and> ss_good s'"
proof -
  let ?m = "zero_message\<lparr>msg_operation := CREATE_FILE, msg_path := ''a''\<rparr>"
  let ?cs = "[(good_ss_env, Inr (1, ?m))]"
  have "ss_request_ok ?m" using wf_zero_message by (simp add: ss_request_ok_def wf_message_def size_defs)
  then have "\<forall>(env, c) \<in> set ?cs. fst (received c) > 0 \<longrightarrow> ss_request_ok (snd (received c))" by simp
  from ss_serves [OF empty_server_good this] obtain s' resps where
    "ss_serve empty_server ?cs = Some (s', resps)" "ss_good s'" "map (\<lambda>r. r \<noteq> None) resps = [True]" by auto
  then show ?thesis by (auto simp: map_eq_Cons_conv)
qed

text \<open>
  Property C17: what a client writes it reads back. On a disk that refuses and loses nothing,
  a write of up to 8191 bytes to a file name, then a read of it, both succeed, the read
  returns the same bytes and their number, and no other name changes.
\<close>

theorem ss_read_after_write:
  assumes "ss_good s" and "disk_healthy (ss_disk s)" and "wf_message m" and "msg_operation m = WRITE_FILE"
    and "msg_data_size m = int (length (msg_data m))" and "length (msg_data m) < 8192"
    and "can_write (ss_disk s) (msg_path m)" and "\<And>b. node_of (ss_disk s) (msg_path m) \<noteq> Some (Other b)"
    and "\<And>t. lock_ok env1 t (msg_path m)" and "\<And>t. lock_ok env2 t (msg_path m)"
  shows "\<exists>s1 s2. ss_client_dispatch env1 s m = Some (s1, ack_message) \<and>
    ss_client_dispatch env2 s1 (m\<lparr>msg_operation := READ_FILE\<rparr>) =
      Some (s2, ack_message\<lparr>msg_data := msg_data m, msg_data_size := int (length (msg_data m))\<rparr>) \<and>
    (\<forall>q. q \<noteq> msg_path m \<longrightarrow> node_of (ss_disk s2) q = node_of (ss_disk s) q)"
proof -
  have "locks_quiet (ss_locks s)" "length (msg_path m) < MAX_PATH_LEN"
    using assms(1,3) by (simp_all add: ss_good_def wf_message_def)
  moreover have "msg_path (m\<lparr>msg_operation := READ_FILE\<rparr>) = msg_path m" by simp
  ultimately obtain s1 s2 where "ss_handle_write env1 s m = Some (s1, ack_message)"
    "ss_handle_read env2 s1 (m\<lparr>msg_operation := READ_FILE\<rparr>) =
      Some (s2, ack_message\<lparr>msg_data := msg_data m, msg_data_size := int (length (msg_data m))\<rparr>)"
    "node_of (ss_disk s2) = (node_of (ss_disk s))(msg_path m \<mapsto> Regular (msg_data m))"
    using write_then_read [OF _ assms(2) _ assms(5,6,7,8,9,10)] by blast
  with assms(4) show ?thesis by (auto simp: ss_client_dispatch_def)
qed

lemma write_message_wf:
  "length p < 1024 \<Longrightarrow> length b \<le> 8192 \<Longrightarrow>
     wf_message (zero_message\<lparr>msg_operation := op, msg_path := p, msg_data := b, msg_data_size := n\<rparr>)"
  using wf_zero_message by (simp add: wf_message_def size_defs)

theorem ss_read_after_write_witness:
  "let m = zero_message\<lparr>msg_operation := WRITE_FILE, msg_path := ''a'', msg_data := ''hi'', msg_data_size := 2\<rparr>
   in \<exists>s1 s2. ss_client_dispatch good_ss_env empty_server m = Some (s1, ack_message) \<and>
     ss_client_dispatch good_ss_env s1 (m\<lparr>msg_operation := READ_FILE\<rparr>) =
       Some (s2, ack_message\<lparr>msg_data := ''hi'', msg_data_size := 2\<rparr>)"
proof -
  let ?m = "zero_message\<lparr>msg_operation := WRITE_FILE, msg_path := ''a'', msg_data := ''hi'', msg_data_size := 2\<rparr>"
  have "wf_message ?m" by (rule write_message_wf) simp_all
  moreover have "disk_healthy (ss_disk empty_server)" "can_write (ss_disk empty_server) (msg_path ?m)"
    "\<And>b. node_of (ss_disk empty_server) (msg_path ?m) \<noteq> Some (Other b)"
    using can_write_empty by (simp_all add: empty_server_def)
  ultimately have "\<exists>s1 s2. ss_client_dispatch good_ss_env empty_server ?m = Some (s1, ack_message) \<and>
     ss_client_dispatch good_ss_env s1 (?m\<lparr>msg_operation := READ_FILE\<rparr>) =
       Some (s2, ack_message\<lparr>msg_data := msg_data ?m, msg_data_size := int (length (msg_data ?m))\<rparr>) \<and>
     (\<forall>q. q \<noteq> msg_path ?m \<longrightarrow> node_of (ss_disk s2) q = node_of (ss_disk empty_server) q)"
    by (intro ss_read_after_write [OF empty_server_good]) (simp_all add: lock_ok_good)
  then show ?thesis by (auto simp: Let_def)
qed

text \<open>
  Property C19: what a copy answers. It never changes the disk of the source server and ends
  with its locks free. It is refused with \<open>FILE_IN_USE\<close> when the lock cannot be taken and
  with \<open>FILE_NOT_FOUND\<close> when the file cannot be opened; otherwise the first 8191 bytes go to
  the destination server as one synchronous write of the second path, and the answer is
  that server's outcome.
\<close>

theorem ss_copy_correct:
  assumes "locks_quiet (ss_locks s)" and "wf_message m" and "msg_operation m = COPY_FILE"
  shows "\<exists>t. locks_quiet t \<and> ss_nm_dispatch env s m = Some (s\<lparr>ss_locks := t\<rparr>,
    if \<not> lock_ok env (ss_locks s) (msg_path m) then nack_message FILE_IN_USE
    else case fopen_read (ss_disk s) (msg_path m) of
      None \<Rightarrow> nack_message FILE_NOT_FOUND
    | Some node \<Rightarrow>
        (case open_peer (se_peer env) (msg_dest_ss_ip m) (msg_dest_ss_client_port m) of
           Some e \<Rightarrow> nack_message e
         | None \<Rightarrow>
             (case exchange (se_peer env) (msg_dest_ss_ip m) (msg_dest_ss_client_port m)
                     (copied_message m (fread_all (ss_disk s) 8191 node)) of
                Inl e \<Rightarrow> nack_message e
              | Inr reply \<Rightarrow> if is_success reply then ack_message else nack_message (msg_error_code reply))))"
proof -
  have "length (msg_path m) < MAX_PATH_LEN" "length (msg_path2 m) < MAX_PATH_LEN"
    using assms(2) by (simp_all add: wf_message_def)
  from handle_copy_run [OF assms(1) this, of env, unfolded copy_outcome_def] assms(3)
  show ?thesis by (simp only: ss_nm_dispatch_def OperationType.case)
qed

theorem ss_copy_correct_witness:
  "\<exists>t. ss_nm_dispatch good_ss_env empty_server (zero_message\<lparr>msg_operation := COPY_FILE, msg_path := ''a'', msg_path2 := ''b''\<rparr>)
     = Some (empty_server\<lparr>ss_locks := t\<rparr>, nack_message FILE_NOT_FOUND)"
proof -
  let ?m = "zero_message\<lparr>msg_operation := COPY_FILE, msg_path := ''a'', msg_path2 := ''b''\<rparr>"
  have "wf_message ?m" using wf_zero_message by (simp add: wf_message_def size_defs)
  moreover have "locks_quiet (ss_locks empty_server)" using empty_server_good by (simp add: ss_good_def)
  moreover have "fopen_read (ss_disk empty_server) ''a'' = None" by (simp add: fopen_read_def empty_server_def)
  ultimately show ?thesis using ss_copy_correct [of empty_server ?m good_ss_env] lock_ok_good by auto
qed

text \<open>
  Property C18: a copy between two servers. If the source opens and the destination can be
  written and is reached, the copy succeeds and the destination's file holds what one read
  gives: the whole file exactly when it has at most 8191 bytes and no error cuts the read
  short. A longer file is cut, and a copied directory becomes an empty file, with the same
  answer.
\<close>

theorem ss_copy_transfers:
  assumes src: "locks_quiet (ss_locks s1)" "wf_message m" "msg_operation m = COPY_FILE"
      "fopen_read (ss_disk s1) (msg_path m) = Some node" "lock_ok env1 (ss_locks s1) (msg_path m)"
    and dst: "locks_quiet (ss_locks s2)" "disk_healthy (ss_disk s2)" "can_write (ss_disk s2) (msg_path2 m)"
      "\<And>b. node_of (ss_disk s2) (msg_path2 m) \<noteq> Some (Other b)" "lock_ok env2 (ss_locks s2) (msg_path2 m)"
    and wire: "ss_client_dispatch env2 s2 (copied_message m (fread_all (ss_disk s1) 8191 node)) = Some (s2', reply)"
      "reaches (se_peer env1) (msg_dest_ss_ip m) (msg_dest_ss_client_port m) (copied_message m (fread_all (ss_disk s1) 8191 node)) reply"
  shows "(\<exists>t. ss_nm_dispatch env1 s1 m = Some (s1\<lparr>ss_locks := t\<rparr>, ack_message)) \<and>
    node_of (ss_disk s2') = (node_of (ss_disk s2))(msg_path2 m \<mapsto> Regular (fread_all (ss_disk s1) 8191 node)) \<and>
    (node_of (ss_disk s2') (msg_path2 m) = Some node \<longleftrightarrow> (\<exists>b. node = Regular b \<and> length b \<le> 8191 \<and> length b \<le> disk_read (ss_disk s1) (length b)))"
proof -
  let ?b = "fread_all (ss_disk s1) 8191 node" and ?d2 = "ss_disk s2" and ?p2 = "msg_path2 m"
  have len: "length ?b \<le> 8191" by (rule fread_all_length)
  have p: "length (msg_path m) < MAX_PATH_LEN" "length ?p2 < MAX_PATH_LEN" using src(2) by (simp_all add: wf_message_def)
  let ?w = "copied_message m ?b"
  have w: "msg_operation ?w = WRITE_FILE" "msg_path ?w = ?p2" "msg_data ?w = ?b" "msg_data_size ?w = int (length ?b)"
    by (simp_all add: copied_message_def)
  have "array_bytes ?b (int (length ?b)) = Some ?b" using len by (intro array_bytes_full) (simp_all add: size_defs)
  from ss_write_run [OF dst(3) this, of "msg_write_mode ?w"] obtain d' where d':
    "ss_write ?d2 ?p2 ?b (int (length ?b)) (msg_write_mode ?w) = Some (SUCCESS, d')"
    "node_of d' = (node_of ?d2)(?p2 := stored (node_of ?d2 ?p2) ?b)"
    using dst(2) by (auto simp: disk_healthy_def)
  have st: "stored (node_of ?d2 ?p2) ?b = Some (Regular ?b)"
    using dst(4) by (auto simp: stored_def split: option.splits fnode.splits)
  have "length (msg_path ?w) < MAX_PATH_LEN" using p(2) w by simp
  from handle_write_run [OF dst(1) this, of SUCCESS d' env2] d'(1) w obtain r where
    "ss_handle_write env2 s2 ?w = Some r" "section_outcome env2 s2 ?p2 d' (ack_message\<lparr>msg_error_code := SUCCESS\<rparr>) r"
    by auto
  then have s2': "ss_disk s2' = d'" "reply = ack_message"
    using wire(1) w dst(5) by (auto simp: ss_client_dispatch_def section_outcome_def ack_message_def)
  have "copy_outcome (se_peer env1) m ?b = ack_message"
    using wire(2) s2'(2) by (simp add: copy_outcome_def reaches_def)
  with handle_copy_run [OF src(1) p, of env1] src(3,4,5)
  have "\<exists>t. ss_nm_dispatch env1 s1 m = Some (s1\<lparr>ss_locks := t\<rparr>, ack_message)"
    by (auto simp: ss_nm_dispatch_def)
  moreover have "(Regular ?b = node) \<longleftrightarrow>
      (\<exists>b. node = Regular b \<and> length b \<le> 8191 \<and> length b \<le> disk_read (ss_disk s1) (length b))"
    by (cases node) (auto simp: fread_all_def node_bytes_def Let_def take_take take_all_iff min_def split: if_splits)
  ultimately show ?thesis using s2'(1) d'(2) st by simp
qed

theorem ss_copy_transfers_witness:
  "let m = zero_message\<lparr>msg_operation := COPY_FILE, msg_path := ''a'', msg_path2 := ''b''\<rparr>;
       s1 = empty_server\<lparr>ss_disk := put_node empty_disk ''a'' (Regular ''xyz'')\<rparr>
   in \<exists>s2'. ss_client_dispatch good_ss_env empty_server (copied_message m ''xyz'') = Some (s2', ack_message) \<and>
     (\<exists>t. ss_nm_dispatch good_ss_env s1 m = Some (s1\<lparr>ss_locks := t\<rparr>, ack_message)) \<and>
     node_of (ss_disk s2') ''b'' = Some (Regular ''xyz'')"
proof -
  let ?m = "zero_message\<lparr>msg_operation := COPY_FILE, msg_path := ''a'', msg_path2 := ''b''\<rparr>"
  let ?s1 = "empty_server\<lparr>ss_disk := put_node empty_disk ''a'' (Regular ''xyz'')\<rparr>"
  let ?w = "copied_message ?m ''xyz''"
  have q: "locks_quiet (ss_locks ?s1)" "locks_quiet (ss_locks empty_server)"
    using empty_server_good by (simp_all add: ss_good_def)
  have wf: "wf_message ?m" using wf_zero_message by (simp add: wf_message_def size_defs)
  have rd: "fopen_read (ss_disk ?s1) (msg_path ?m) = Some (Regular ''xyz'')" "fread_all (ss_disk ?s1) 8191 (Regular ''xyz'') = ''xyz''"
    by (simp add: fopen_read_def, simp add: empty_disk_def) (simp add: fread_healthy node_bytes_def)
  have "parent_dir ''b'' = None" by code_simp
  then have cw: "can_write (ss_disk empty_server) (msg_path2 ?m)"
    by (simp add: can_write_def parent_ok_def empty_server_def) (simp add: empty_disk_def)
  have h: "disk_healthy (ss_disk empty_server)" "\<And>b. node_of (ss_disk empty_server) (msg_path2 ?m) \<noteq> Some (Other b)"
    by (simp_all add: empty_server_def)
  have "array_bytes ''xyz'' 3 = Some ''xyz''" by (simp add: array_bytes_def size_defs)
  from ss_write_run [OF cw this, of WRITE_MODE_SYNC] h(1) obtain d' where
    d': "ss_write (ss_disk empty_server) ''b'' ''xyz'' 3 WRITE_MODE_SYNC = Some (SUCCESS, d')"
    by (auto simp: disk_healthy_def)
  have "length (msg_path ?w) < MAX_PATH_LEN" by (simp add: copied_message_def size_defs)
  from handle_write_run [OF q(2) this, of SUCCESS d' good_ss_env] d' obtain r where
    r: "ss_handle_write good_ss_env empty_server ?w = Some r" "snd r = ack_message"
    using lock_ok_good by (auto simp: copied_message_def section_outcome_def ack_message_def zero_message_def)
  then have w1: "ss_client_dispatch good_ss_env empty_server (copied_message ?m (fread_all (ss_disk ?s1) 8191 (Regular ''xyz''))) =
      Some (fst r, ack_message)"
    unfolding rd(2) by (cases r) (simp add: ss_client_dispatch_def copied_message_def)
  have w2: "reaches (se_peer good_ss_env) (msg_dest_ss_ip ?m) (msg_dest_ss_client_port ?m)
      (copied_message ?m (fread_all (ss_disk ?s1) 8191 (Regular ''xyz''))) ack_message"
    by (simp add: good_ss_env_def answering_reaches)
  from ss_copy_transfers [OF q(1) wf _ rd(1) lock_ok_good q(2) h(1) cw h(2) lock_ok_good w1 w2] w1 rd(2)
  show ?thesis by (auto simp: Let_def)
qed
end
