(* ===== verification/Startup.thy ===== *)
theory Startup
  imports Storage_Server Naming_Server
begin

text \<open>
  The command lines and the start of the two servers: \<open>main\<close> of \<open>src/naming_server.c\<close> and of
  \<open>src/storage_server.c\<close> up to their accept loops, and \<open>get_local_ip\<close>. The answers of the
  system calls are arguments. A start ends with \<open>EXIT_FAILURE\<close> or with the state in which the
  accept loop begins.
\<close>

text \<open>\<open>atoi\<close>: blanks, a sign, digits; a value that is no \<open>int\<close> has no defined result.\<close>

definition is_blank :: "char \<Rightarrow> bool" where
  "is_blank c \<longleftrightarrow> c = CHR 0x20 \<or> (9 \<le> (of_char c :: nat) \<and> (of_char c :: nat) \<le> 13)"

definition is_digit :: "char \<Rightarrow> bool" where
  "is_digit c \<longleftrightarrow> 48 \<le> (of_char c :: nat) \<and> (of_char c :: nat) \<le> 57"

definition c_atoi :: "string \<Rightarrow> int c_run" where
  "c_atoi s =
     (let r = dropWhile is_blank s;
          (sgn, r) = (case r of [] \<Rightarrow> (1, r)
             | c # cs \<Rightarrow> if c = CHR 0x2D then (-1, cs) else if c = CHR 0x2B then (1, cs) else (1, r));
          v = sgn * foldl (\<lambda>v c. 10 * v + (of_char c - 48)) 0 (takeWhile is_digit r)
      in if - (2 ^ 31) \<le> v \<and> v < 2 ^ 31 then Some v else None)"

subsection \<open>The naming server\<close>

record listen_env =
  le_socket :: int
  le_bind :: "16 word \<Rightarrow> int"
  le_listen :: int

text \<open>The listening socket both servers set up: whether one of the three calls fails.\<close>

definition open_listener :: "listen_env \<Rightarrow> int \<Rightarrow> bool" where
  "open_listener e port \<longleftrightarrow>
     (if create_socket (le_socket e) < 0 then False
      else if bind_socket (le_bind e) port < 0 then False
      else if listen_socket (le_listen e) < 0 then False
      else True)"

text \<open>
  How the start ends: with \<open>EXIT_FAILURE\<close>, or in the accept loop. A trie root that \<open>malloc\<close>
  does not give is not noticed: the loop is entered with a NULL root, which the first
  request that needs the index will dereference.
\<close>

datatype nm_start = Nm_failed | Nm_serving nm_state | Nm_null_root

definition nm_main :: "listen_env \<Rightarrow> bool \<Rightarrow> string list \<Rightarrow> nm_start c_run" where
  "nm_main e malloc_ok argv =
     (if length argv \<noteq> 2 then Some Nm_failed
      else do {
        a \<leftarrow> arr_get argv 1;
        port \<leftarrow> c_atoi a;
        if \<not> open_listener e port then Some Nm_failed
        else Some (case create_trie_node malloc_ok of
            None \<Rightarrow> Nm_null_root
          | Some root \<Rightarrow> Nm_serving \<lparr>registered_ss = replicate MAX_SS zero_ss_info, num_registered_ss = 0,
              current_ss_index = 0, path_trie_root = root, path_lru_cache = lru_init\<rparr>)
      })"

lemma nm_main_serving: "nm_main e m argv = Some (Nm_serving s) \<Longrightarrow> s = nm_init"
  by (auto simp: nm_main_def nm_init_def create_trie_node_def split: if_splits Option.bind_splits)

subsection \<open>The storage server\<close>

text \<open>\<open>get_local_ip\<close>: the results of its three calls, and the text of \<open>inet_ntop\<close>.\<close>

definition get_local_ip :: "int \<Rightarrow> int \<Rightarrow> int \<Rightarrow> string \<Rightarrow> string" where
  "get_local_ip sock connect_result getsockname_result ntop =
     (if sock < 0 then ''127.0.0.1''
      else if connect_result < 0 then ''127.0.0.1''
      else if getsockname_result < 0 then ''127.0.0.1''
      else ntop)"

text \<open>\<open>for (i = 5; i < argc && num_accessible_paths < MAX_ACCESSIBLE_PATHS; i++)\<close>\<close>

fun parse_paths :: "string list \<Rightarrow> string list \<Rightarrow> string list c_run" where
  "parse_paths [] paths = Some paths"
| "parse_paths (a # args) paths =
     (if length paths < MAX_ACCESSIBLE_PATHS then do {
        p \<leftarrow> c_strcpy MAX_PATH_LEN a;
        parse_paths args (paths @ [p])
      } else Some paths)"

definition register_msg :: "string \<Rightarrow> int \<Rightarrow> int \<Rightarrow> string list \<Rightarrow> Message" where
  "register_msg ip nm_port client_port paths = zero_message\<lparr>msg_operation := REGISTER_SS,
     msg_ss_ip := ip, msg_ss_nm_port := nm_port, msg_ss_client_port := client_port,
     msg_num_accessible_paths := int (length paths),
     msg_accessible_paths := paths @ drop (length paths) (msg_accessible_paths zero_message)\<rparr>"

record ss_start_env =
  st_ip :: string
  st_nm :: peer
  st_nm_listen :: listen_env
  st_client_listen :: listen_env
  st_disk :: disk

text \<open>The result \<open>Some None\<close> is \<open>EXIT_FAILURE\<close>; \<open>st_ip\<close> is what \<open>get_local_ip\<close> left.\<close>

definition ss_main :: "ss_start_env \<Rightarrow> string list \<Rightarrow> ss_state option c_run" where
  "ss_main e argv =
     (if length argv < 6 then Some None
      else do {
        nm_ip \<leftarrow> arr_get argv 1;
        a2 \<leftarrow> arr_get argv 2;
        nm_port \<leftarrow> c_atoi a2;
        a3 \<leftarrow> arr_get argv 3;
        ss_client_port \<leftarrow> c_atoi a3;
        a4 \<leftarrow> arr_get argv 4;
        ss_nm_port \<leftarrow> c_atoi a4;
        paths \<leftarrow> parse_paths (drop 5 argv) [];
        (case open_peer (st_nm e) nm_ip nm_port of
           Some _ \<Rightarrow> Some None
         | None \<Rightarrow> do {
             ip \<leftarrow> c_strcpy INET_ADDRSTRLEN (st_ip e);
             (case exchange (st_nm e) nm_ip nm_port (register_msg ip ss_nm_port ss_client_port paths) of
                Inl _ \<Rightarrow> Some None
              | Inr reply \<Rightarrow>
                  if \<not> is_success reply then Some None
                  else if \<not> open_listener (st_nm_listen e) ss_nm_port then Some None
                  else if \<not> open_listener (st_client_listen e) ss_client_port then Some None
                  else Some (Some \<lparr>ss_disk = st_disk e, ss_locks = init_file_locks\<rparr>))
           })
      })"

end
