(* ===== verification/Client.thy ===== *)
theory Client
  imports Startup
begin

text \<open>
  \<open>src/client.c\<close>: the request a command line stands for, and the run of the client against
  a naming server and the storage server it is directed to. What the client prints is a
  list of events; \<open>0\<close> and \<open>1\<close> are \<open>EXIT_SUCCESS\<close> and \<open>EXIT_FAILURE\<close>.
\<close>

datatype client_event =
    Listing string
  | Acknowledged
  | Read_data string
  | Wrote
  | Info string
  | Ss_refused int
  | Nm_refused int
  | Unexpected OperationType int

text \<open>\<open>Some None\<close>: the usage is printed and the client fails.\<close>

definition client_request :: "string list \<Rightarrow> Message option c_run" where
  "client_request argv = do {
     command \<leftarrow> arr_get argv 3;
     let argc = length argv;
     if command = ''LIST'' then Some (Some (zero_message\<lparr>msg_operation := LIST_PATHS\<rparr>))
     else if command = ''READ'' then
       (if argc \<noteq> 5 then Some None
        else do {
          p \<leftarrow> arr_get argv 4 \<bind> c_strcpy MAX_PATH_LEN;
          Some (Some (zero_message\<lparr>msg_operation := READ_FILE, msg_path := p\<rparr>))
        })
     else if command = ''WRITE'' then
       (if argc < 6 then Some None
        else do {
          p \<leftarrow> arr_get argv 4 \<bind> c_strcpy MAX_PATH_LEN;
          d \<leftarrow> arr_get argv 5 \<bind> c_strcpy MAX_DATA_SIZE;
          Some (Some (zero_message\<lparr>msg_operation := WRITE_FILE, msg_path := p, msg_data := d,
            msg_data_size := int (length d),
            msg_write_mode := (if argc = 7 \<and> argv ! 6 = ''--SYNC'' then WRITE_MODE_SYNC else WRITE_MODE_ASYNC)\<rparr>))
        })
     else if command = ''CREATE'' then
       (if argc < 5 then Some None
        else do {
          p \<leftarrow> arr_get argv 4 \<bind> c_strcpy MAX_PATH_LEN;
          Some (Some (zero_message\<lparr>msg_operation := CREATE_FILE, msg_path := p,
            msg_file_type := (if argc = 6 \<and> argv ! 5 = ''--DIR'' then FILE_TYPE_DIR else FILE_TYPE_FILE)\<rparr>))
        })
     else if command = ''DELETE'' then
       (if argc \<noteq> 5 then Some None
        else do {
          p \<leftarrow> arr_get argv 4 \<bind> c_strcpy MAX_PATH_LEN;
          Some (Some (zero_message\<lparr>msg_operation := DELETE_FILE, msg_path := p\<rparr>))
        })
     else if command = ''INFO'' then
       (if argc \<noteq> 5 then Some None
        else do {
          p \<leftarrow> arr_get argv 4 \<bind> c_strcpy MAX_PATH_LEN;
          Some (Some (zero_message\<lparr>msg_operation := GET_FILE_INFO, msg_path := p\<rparr>))
        })
     else if command = ''COPY'' then
       (if argc \<noteq> 6 then Some None
        else do {
          p \<leftarrow> arr_get argv 4 \<bind> c_strcpy MAX_PATH_LEN;
          q \<leftarrow> arr_get argv 5 \<bind> c_strcpy MAX_PATH_LEN;
          Some (Some (zero_message\<lparr>msg_operation := COPY_FILE, msg_path := p, msg_path2 := q\<rparr>))
        })
     else Some None
   }"

text \<open>\<open>%s\<close> of a data array: up to its first zero byte, which must be inside the array.\<close>

definition printed :: "string \<Rightarrow> string c_run" where
  "printed dat = (if CHR 0x00 \<in> set dat \<or> length dat < MAX_DATA_SIZE
     then Some (takeWhile (\<lambda>c. c \<noteq> CHR 0x00) dat) else None)"

text \<open>The exchange with the storage server the naming server's response names.\<close>

definition client_storage :: "peer \<Rightarrow> Message \<Rightarrow> Message \<Rightarrow> (int \<times> client_event list) c_run" where
  "client_storage ss req nm_resp =
     (case open_peer ss (msg_ss_ip nm_resp) (msg_ss_client_port nm_resp) of
        Some _ \<Rightarrow> Some (1, [])
      | None \<Rightarrow>
          (case exchange ss (msg_ss_ip nm_resp) (msg_ss_client_port nm_resp) req of
             Inl _ \<Rightarrow> Some (1, [])
           | Inr resp \<Rightarrow>
               if is_success resp then
                 (if msg_operation req = READ_FILE then do { t \<leftarrow> printed (msg_data resp); Some (0, [Read_data t]) }
                  else if msg_operation req = WRITE_FILE then Some (0, [Wrote])
                  else if msg_operation req = GET_FILE_INFO then do { t \<leftarrow> printed (msg_data resp); Some (0, [Info t]) }
                  else Some (0, []))
               else Some (0, [Ss_refused (msg_error_code resp)])))"

definition client_main :: "peer \<Rightarrow> peer \<Rightarrow> string list \<Rightarrow> (int \<times> client_event list) c_run" where
  "client_main nm ss argv =
     (if length argv < 4 then Some (1, [])
      else do {
        nm_ip \<leftarrow> arr_get argv 1;
        nm_port \<leftarrow> arr_get argv 2 \<bind> c_atoi;
        (case open_peer nm nm_ip nm_port of
           Some _ \<Rightarrow> Some (1, [])
         | None \<Rightarrow> do {
             request \<leftarrow> client_request argv;
             (case request of
                None \<Rightarrow> Some (1, [])
              | Some req \<Rightarrow>
                  (case exchange nm nm_ip nm_port req of
                     Inl _ \<Rightarrow> Some (1, [])
                   | Inr resp \<Rightarrow>
                       if is_success resp then
                         (if msg_operation req = LIST_PATHS then do {
                            t \<leftarrow> printed (msg_data resp); Some (0, [Listing t]) }
                          else if msg_operation req \<in> {CREATE_FILE, DELETE_FILE, COPY_FILE} then Some (0, [Acknowledged])
                          else client_storage ss req resp)
                       else if msg_operation resp = NACK then Some (0, [Nm_refused (msg_error_code resp)])
                       else Some (0, [Unexpected (msg_operation resp) (msg_error_code resp)])))
           })
      })"

end
