(* ===== verification/Client_Props.thy ===== *)
theory Client_Props
  imports Client
begin

text \<open>
  The properties of the client of \<open>src/client.c\<close>: the request it makes of its arguments.
\<close>

subsection \<open>Command lines\<close>

text \<open>The arguments a command takes, and the operation it asks for.\<close>

definition arity_ok :: "string \<Rightarrow> nat \<Rightarrow> bool" where
  "arity_ok command argc \<longleftrightarrow> command = ''LIST'' \<or> (command \<in> {''READ'', ''DELETE'', ''INFO''} \<and> argc = 5) \<or>
     (command = ''WRITE'' \<and> argc \<ge> 6) \<or> (command = ''CREATE'' \<and> argc \<ge> 5) \<or> (command = ''COPY'' \<and> argc = 6)"

definition command_operation :: "string \<Rightarrow> OperationType" where
  "command_operation command =
     (if command = ''LIST'' then LIST_PATHS else if command = ''READ'' then READ_FILE
      else if command = ''WRITE'' then WRITE_FILE else if command = ''CREATE'' then CREATE_FILE
      else if command = ''DELETE'' then DELETE_FILE else if command = ''INFO'' then GET_FILE_INFO
      else COPY_FILE)"

lemma request_wf:
  assumes "length p < MAX_PATH_LEN"
  shows "wf_message (zero_message\<lparr>msg_operation := op, msg_path := p\<rparr>)"
    and "wf_message (zero_message\<lparr>msg_operation := op, msg_path := p, msg_file_type := ft\<rparr>)"
    and "length q < MAX_PATH_LEN \<Longrightarrow> wf_message (zero_message\<lparr>msg_operation := op, msg_path := p, msg_path2 := q\<rparr>)"
    and "length d < MAX_DATA_SIZE \<Longrightarrow> wf_message (zero_message\<lparr>msg_operation := op, msg_path := p, msg_data := d,
      msg_data_size := n, msg_write_mode := wm\<rparr>)"
  using assms wf_zero_message by (simp_all add: wf_message_def)

lemma list_wf: "wf_message (zero_message\<lparr>msg_operation := op\<rparr>)"
  using wf_zero_message by (simp add: wf_message_def)

text \<open>
  The message of a command line, field by field: the operation, the paths, the data of a
  write with its length, the mode of a write (\<open>--SYNC\<close> as the sixth and last argument), the
  type of a created node (\<open>--DIR\<close> as the fifth and last one), and zeros elsewhere.
\<close>

definition request_of :: "string list \<Rightarrow> Message \<Rightarrow> bool" where
  "request_of argv m \<longleftrightarrow> (let command = argv ! 3; argc = length argv in
     wf_message m \<and> msg_operation m = command_operation command \<and>
     msg_path m = (if command = ''LIST'' then [] else argv ! 4) \<and>
     msg_path2 m = (if command = ''COPY'' then argv ! 5 else []) \<and>
     msg_data m = (if command = ''WRITE'' then argv ! 5 else []) \<and>
     msg_data_size m = int (length (msg_data m)) \<and>
     msg_write_mode m = (if command = ''WRITE'' \<and> \<not> (argc = 7 \<and> argv ! 6 = ''--SYNC'')
                         then WRITE_MODE_ASYNC else WRITE_MODE_SYNC) \<and>
     msg_file_type m = (if command = ''CREATE'' \<and> argc = 6 \<and> argv ! 5 = ''--DIR''
                        then FILE_TYPE_DIR else FILE_TYPE_FILE) \<and>
     msg_error_code m = 0 \<and> msg_ss_ip m = [] \<and> msg_ss_nm_port m = 0 \<and> msg_ss_client_port m = 0 \<and>
     msg_dest_ss_ip m = [] \<and> msg_dest_ss_client_port m = 0 \<and>
     msg_accessible_paths m = replicate 10 [] \<and> msg_num_accessible_paths m = 0)"

text \<open>An argument that does not fit its array: a path of 1024 bytes or more, data of 8192 or more.\<close>

definition overruns :: "string list \<Rightarrow> bool" where
  "overruns argv \<longleftrightarrow> (argv ! 3 \<noteq> ''LIST'' \<and> 1024 \<le> length (argv ! 4)) \<or>
     (argv ! 3 = ''COPY'' \<and> 1024 \<le> length (argv ! 5)) \<or> (argv ! 3 = ''WRITE'' \<and> 8192 \<le> length (argv ! 5))"

definition request_result :: "string list \<Rightarrow> Message option c_run \<Rightarrow> bool" where
  "request_result argv r \<longleftrightarrow> (case r of
       None \<Rightarrow> arity_ok (argv ! 3) (length argv) \<and> overruns argv
     | Some None \<Rightarrow> \<not> arity_ok (argv ! 3) (length argv)
     | Some (Some m) \<Rightarrow> arity_ok (argv ! 3) (length argv) \<and> \<not> overruns argv \<and> request_of argv m)"

lemmas request_defs = request_result_def request_of_def overruns_def arity_ok_def command_operation_def Let_def

lemma zero_message_fields:
  "msg_path zero_message = []" "msg_path2 zero_message = []" "msg_data zero_message = []" "msg_data_size zero_message = 0"
  "msg_write_mode zero_message = WRITE_MODE_SYNC" "msg_file_type zero_message = FILE_TYPE_FILE"
  "msg_error_code zero_message = 0" "msg_ss_ip zero_message = []" "msg_ss_nm_port zero_message = 0"
  "msg_ss_client_port zero_message = 0" "msg_dest_ss_ip zero_message = []" "msg_dest_ss_client_port zero_message = 0"
  "msg_accessible_paths zero_message = replicate 10 []" "msg_num_accessible_paths zero_message = 0"
  by (simp_all add: zero_message_def MAX_ACCESSIBLE_PATHS_def)

lemma request_one_path:
  assumes "length argv = 5" and "argv ! 3 \<in> {''READ'', ''DELETE'', ''INFO''}"
  shows "request_result argv (do { p \<leftarrow> arr_get argv 4 \<bind> c_strcpy MAX_PATH_LEN;
    Some (Some (zero_message\<lparr>msg_operation := command_operation (argv ! 3), msg_path := p\<rparr>)) })"
proof (cases "length (argv ! 4) < MAX_PATH_LEN")
  case True
  with assms request_wf(1) [OF True] show ?thesis
    by (auto simp: request_defs zero_message_fields MAX_PATH_LEN_def)
next
  case False
  with assms show ?thesis by (auto simp: request_defs c_strcpy_def MAX_PATH_LEN_def)
qed

lemma request_write:
  assumes "6 \<le> length argv" and "argv ! 3 = ''WRITE''"
  shows "request_result argv (do { p \<leftarrow> arr_get argv 4 \<bind> c_strcpy MAX_PATH_LEN;
    d \<leftarrow> arr_get argv 5 \<bind> c_strcpy MAX_DATA_SIZE;
    Some (Some (zero_message\<lparr>msg_operation := WRITE_FILE, msg_path := p, msg_data := d,
            msg_data_size := int (length d),
            msg_write_mode := (if length argv = 7 \<and> argv ! 6 = ''--SYNC'' then WRITE_MODE_SYNC else WRITE_MODE_ASYNC)\<rparr>)) })"
proof (cases "length (argv ! 4) < MAX_PATH_LEN \<and> length (argv ! 5) < MAX_DATA_SIZE")
  case True
  with assms request_wf(4) [of "argv ! 4" "argv ! 5"] show ?thesis
    by (simp add: request_defs zero_message_fields size_defs)
next
  case False
  with assms show ?thesis by (auto simp: request_defs c_strcpy_def size_defs)
qed

lemma request_create:
  assumes "5 \<le> length argv" and "argv ! 3 = ''CREATE''"
  shows "request_result argv (do { p \<leftarrow> arr_get argv 4 \<bind> c_strcpy MAX_PATH_LEN;
    Some (Some (zero_message\<lparr>msg_operation := CREATE_FILE, msg_path := p,
      msg_file_type := (if length argv = 6 \<and> argv ! 5 = ''--DIR'' then FILE_TYPE_DIR else FILE_TYPE_FILE)\<rparr>)) })"
proof (cases "length (argv ! 4) < MAX_PATH_LEN")
  case True
  with assms request_wf(2) [OF True] show ?thesis
    by (simp add: request_defs zero_message_fields size_defs)
next
  case False
  with assms show ?thesis by (auto simp: request_defs c_strcpy_def size_defs)
qed

lemma request_copy:
  assumes "length argv = 6" and "argv ! 3 = ''COPY''"
  shows "request_result argv (do { p \<leftarrow> arr_get argv 4 \<bind> c_strcpy MAX_PATH_LEN;
    q \<leftarrow> arr_get argv 5 \<bind> c_strcpy MAX_PATH_LEN;
    Some (Some (zero_message\<lparr>msg_operation := COPY_FILE, msg_path := p, msg_path2 := q\<rparr>)) })"
proof (cases "length (argv ! 4) < MAX_PATH_LEN \<and> length (argv ! 5) < MAX_PATH_LEN")
  case True
  with assms request_wf(3) [of "argv ! 4" "argv ! 5"] show ?thesis
    by (simp add: request_defs zero_message_fields size_defs)
next
  case False
  with assms show ?thesis by (auto simp: request_defs c_strcpy_def size_defs)
qed

lemma request_usage: "\<not> arity_ok (argv ! 3) (length argv) \<Longrightarrow> request_result argv (Some None)"
  by (simp add: request_result_def)

lemma client_request_run:
  assumes "4 \<le> length argv"
  shows "request_result argv (client_request argv)"
proof -
  have cmd: "arr_get argv 3 = Some (argv ! 3)" using assms by simp
  consider "argv ! 3 = ''LIST''" | "argv ! 3 = ''READ''" | "argv ! 3 = ''WRITE''" | "argv ! 3 = ''CREATE''"
    | "argv ! 3 = ''DELETE''" | "argv ! 3 = ''INFO''" | "argv ! 3 = ''COPY''"
    | (other) "argv ! 3 \<noteq> ''LIST''" "argv ! 3 \<noteq> ''READ''" "argv ! 3 \<noteq> ''WRITE''" "argv ! 3 \<noteq> ''CREATE''"
        "argv ! 3 \<noteq> ''DELETE''" "argv ! 3 \<noteq> ''INFO''" "argv ! 3 \<noteq> ''COPY''" by argo
  then show ?thesis
  proof cases
    case 1
    with cmd list_wf show ?thesis by (simp add: client_request_def request_defs zero_message_fields)
  next
    case 2
    with cmd request_one_path [of argv] request_usage [of argv] show ?thesis
      by (cases "length argv = 5") (simp_all add: client_request_def command_operation_def arity_ok_def)
  next
    case 3
    with cmd request_write [of argv] request_usage [of argv] show ?thesis
      by (cases "6 \<le> length argv") (simp_all add: client_request_def Let_def arity_ok_def)
  next
    case 4
    with cmd request_create [of argv] request_usage [of argv] show ?thesis
      by (cases "5 \<le> length argv") (simp_all add: client_request_def Let_def arity_ok_def)
  next
    case 5
    with cmd request_one_path [of argv] request_usage [of argv] show ?thesis
      by (cases "length argv = 5") (simp_all add: client_request_def command_operation_def arity_ok_def)
  next
    case 6
    with cmd request_one_path [of argv] request_usage [of argv] show ?thesis
      by (cases "length argv = 5") (simp_all add: client_request_def command_operation_def arity_ok_def)
  next
    case 7
    with cmd request_copy [of argv] request_usage [of argv] show ?thesis
      by (cases "length argv = 6") (simp_all add: client_request_def Let_def arity_ok_def)
  next
    case other
    with cmd request_usage [of argv] show ?thesis by (simp add: client_request_def arity_ok_def)
  qed
qed

subsection \<open>Properties\<close>

text \<open>
  Property C26: the command line. With at least a command, the client fails with its usage
  exactly when the number of arguments is not the command's; it copies an argument beyond
  its array exactly when a path has 1024 bytes or more or the data of a write 8192 or more;
  otherwise it makes the message of the command, every field of which is determined: its
  operation, paths and data, \<open>WRITE_MODE_SYNC\<close> for a write with \<open>--SYNC\<close> in its place and
  \<open>WRITE_MODE_ASYNC\<close> for any other, a directory for a creation with \<open>--DIR\<close> in its place and a
  file for any other.
\<close>

theorem client_request_correct:
  assumes "4 \<le> length argv"
  shows "case client_request argv of
      None \<Rightarrow> arity_ok (argv ! 3) (length argv) \<and> overruns argv
    | Some None \<Rightarrow> \<not> arity_ok (argv ! 3) (length argv)
    | Some (Some m) \<Rightarrow> arity_ok (argv ! 3) (length argv) \<and> \<not> overruns argv \<and> request_of argv m"
  using client_request_run [OF assms] by (simp only: request_result_def)

theorem client_request_correct_witness:
  "\<exists>m. client_request [''client'', ''10.0.0.1'', ''8000'', ''WRITE'', ''a'', ''hi'', ''--SYNC''] = Some (Some m) \<and>
     msg_data m = ''hi'' \<and> msg_data_size m = 2 \<and> msg_write_mode m = WRITE_MODE_SYNC"
proof -
  let ?argv = "[''client'', ''10.0.0.1'', ''8000'', ''WRITE'', ''a'', ''hi'', ''--SYNC'']"
  have "arity_ok (?argv ! 3) (length ?argv)" "\<not> overruns ?argv" by (simp_all add: arity_ok_def overruns_def)
  with client_request_correct [of ?argv] obtain m where "client_request ?argv = Some (Some m)" "request_of ?argv m"
    by (auto split: option.splits)
  then show ?thesis by (intro exI [of _ m]) (simp add: request_of_def Let_def)
qed

end
