(* ===== verification/System.thy ===== *)
theory System
  imports Naming_Cache Storage_Props Client_Props
begin

text \<open>
  The naming server and a storage server together: a request that the naming server
  forwards is handled by the storage server's handler, and its answer is what comes back.
  The naming server's index then changes exactly as the disk does.
\<close>

subsection \<open>Forwarded requests\<close>

lemma forward_reached:
  assumes "reaches w (ssi_ip ss) (ssi_nm_port ss) req reply"
  shows "outcome (forward w ss req) = (if is_success reply then None else Some (msg_error_code reply))"
  using assms by (simp add: reaches_def forward_def outcome_def)

text \<open>The code of a handler of the storage server, and the disk it leaves: the lock may not be given.\<close>

definition create_result :: "ss_env \<Rightarrow> ss_state \<Rightarrow> Message \<Rightarrow> int \<times> disk" where
  "create_result env g m = (if lock_ok env (ss_locks g) (msg_path m)
     then ss_create (ss_disk g) (msg_path m) (msg_file_type m) else (FILE_IN_USE, ss_disk g))"

definition delete_result :: "ss_env \<Rightarrow> ss_state \<Rightarrow> Message \<Rightarrow> int \<times> disk" where
  "delete_result env g m = (if lock_ok env (ss_locks g) (msg_path m)
     then ss_delete (ss_disk g) (msg_path m) else (FILE_IN_USE, ss_disk g))"

lemma storage_create_reply:
  assumes "locks_quiet (ss_locks g)" and "wf_message m" and "msg_operation m = CREATE_FILE"
    and "ss_nm_dispatch env' g m = Some (g', reply)"
  shows "ss_disk g' = snd (create_result env' g m)" and "reply = ack_message\<lparr>msg_error_code := fst (create_result env' g m)\<rparr>"
proof -
  have "length (msg_path m) < MAX_PATH_LEN" using assms(2) by (simp add: wf_message_def)
  from handle_create_run [OF assms(1) this, of env'] assms(3,4)
  show "ss_disk g' = snd (create_result env' g m)" "reply = ack_message\<lparr>msg_error_code := fst (create_result env' g m)\<rparr>"
    by (auto simp: ss_nm_dispatch_def section_outcome_def create_result_def split: if_splits)
qed

lemma storage_delete_reply:
  assumes "locks_quiet (ss_locks g)" and "wf_message m" and "msg_operation m = DELETE_FILE"
    and "ss_nm_dispatch env' g m = Some (g', reply)"
  shows "ss_disk g' = snd (delete_result env' g m)" and "reply = ack_message\<lparr>msg_error_code := fst (delete_result env' g m)\<rparr>"
proof -
  have "length (msg_path m) < MAX_PATH_LEN" using assms(2) by (simp add: wf_message_def)
  from handle_delete_run [OF assms(1) this, of env'] assms(3,4)
  show "ss_disk g' = snd (delete_result env' g m)" "reply = ack_message\<lparr>msg_error_code := fst (delete_result env' g m)\<rparr>"
    by (auto simp: ss_nm_dispatch_def section_outcome_def delete_result_def split: if_splits)
qed

text \<open>A forwarded request over a connection that may fail.\<close>

lemma forward_served:
  assumes "served w (ssi_ip ss) (ssi_nm_port ss) m handled reply"
  shows "forward w ss m = Inr r \<Longrightarrow> handled \<and> r = reply"
    and "forward w ss m = Inl e \<Longrightarrow> e \<in> {NETWORK_ERROR, SS_UNAVAILABLE}"
    and "\<not> delivers w (ssi_ip ss) (ssi_nm_port ss) m \<Longrightarrow> \<not> handled"
  using assms open_peer_code exchange_code
  by (auto simp: served_def forward_def split: option.splits)

lemma is_success_code [simp]: "is_success (ack_message\<lparr>msg_error_code := c\<rparr>) = (c = SUCCESS)"
  by (simp add: is_success_def ack_message_def)

lemma nack_code [simp]: "nack_message (msg_error_code (ack_message\<lparr>msg_error_code := c\<rparr>)) = nack_message c"
  by simp

lemma create_result_fails: "fst (create_result env g m) \<noteq> SUCCESS \<Longrightarrow> snd (create_result env g m) = ss_disk g"
  by (auto simp: create_result_def ss_create_def split: FileType.splits option.splits)

lemma create_result_exists:
  "fst (create_result env g m) = SUCCESS \<Longrightarrow> node_of (snd (create_result env g m)) (msg_path m) \<noteq> None"
  by (auto simp: create_result_def ss_create_def fopen_write_def fwrite_close_def sys_mkdir_def error_code_defs
      split: FileType.splits option.splits if_splits fnode.splits)

lemma delete_result_fails: "fst (delete_result env g m) \<noteq> SUCCESS \<Longrightarrow> snd (delete_result env g m) = ss_disk g"
  by (auto simp: delete_result_def ss_delete_def Let_def split: option.splits fnode.splits)

lemma delete_result_gone:
  "fst (delete_result env g m) = SUCCESS \<Longrightarrow> node_of (snd (delete_result env g m)) (msg_path m) = None"
  by (auto simp: delete_result_def ss_delete_def Let_def sys_rmdir_def sys_remove_def error_code_defs
      split: option.splits fnode.splits if_splits)

subsection \<open>Starting a storage server\<close>

lemma parse_paths_take:
  "length paths \<le> 10 \<Longrightarrow> \<forall>a \<in> set (take (10 - length paths) args). length a < 1024 \<Longrightarrow>
     parse_paths args paths = Some (paths @ take (10 - length paths) args)"
proof (induction args paths rule: parse_paths.induct)
  case (2 a args paths)
  show ?case
  proof (cases "length paths < 10")
    case True
    then obtain k where k: "10 - length paths = Suc k" "10 - length (paths @ [a]) = k"
      by (cases "10 - length paths") auto
    with "2.prems"(2) have a: "length a < 1024" "\<forall>b \<in> set (take k args). length b < 1024" by auto
    from "2.IH" [of a] True a k have "parse_paths args (paths @ [a]) = Some ((paths @ [a]) @ take k args)"
      by (simp add: size_defs)
    with True a(1) k(1) show ?thesis by (simp add: size_defs)
  qed (use "2.prems" in \<open>simp add: size_defs\<close>)
qed simp

lemma register_msg_wf:
  assumes "length ip < INET_ADDRSTRLEN" and "length ps \<le> 10" and "\<forall>p \<in> set ps. length p < MAX_PATH_LEN"
  shows "wf_message (register_msg ip np cp ps)"
    and "take (length ps) (msg_accessible_paths (register_msg ip np cp ps)) = ps"
  using assms wf_zero_message
  by (auto simp: register_msg_def wf_message_def size_defs dest: in_set_dropD)

lemma register_msg_fields:
  "msg_operation (register_msg ip np cp ps) = REGISTER_SS" "msg_ss_ip (register_msg ip np cp ps) = ip"
  "msg_ss_nm_port (register_msg ip np cp ps) = np" "msg_ss_client_port (register_msg ip np cp ps) = cp"
  "msg_num_accessible_paths (register_msg ip np cp ps) = int (length ps)"
  by (simp_all add: register_msg_def)

subsection \<open>Properties\<close>

text \<open>
  Property C10: a creation, end to end, over a connection that may fail at any point. The
  client always gets a response. When the storage server's reply arrives, the index and the
  disk change together: either the file is created, the client is acknowledged and the
  index maps the name to that server, or the client gets the server's error and neither
  changes. When it does not arrive, the client gets an error and the index is unchanged, but
  the disk is changed if the request was handled: a lost reply leaves a file without an
  index entry.
\<close>

theorem create_end_to_end:
  assumes nm: "nm_inv s" "all_malloc env" "wf_message m" "msg_operation m = CREATE_FILE"
      "nm_dir s (msg_path m) = None" "num_registered_ss s > 0"
    and ss: "locks_quiet (ss_locks g)" "ss_nm_dispatch env' g m = Some (g1, reply)"
    and wire: "served (env_peer env) (ssi_ip (registered_ss s ! nat (current_ss_index s)))
      (ssi_nm_port (registered_ss s ! nat (current_ss_index s))) m handled reply"
  defines "g' \<equiv> (if handled then g1 else g)"
  shows "\<exists>s' resp. nm_dispatch env s m = Some (s', resp) \<and> nm_inv s' \<and>
    (case create_result env' g m of (code, d) \<Rightarrow>
       (case forward (env_peer env) (registered_ss s ! nat (current_ss_index s)) m of
          Inr _ \<Rightarrow>
            if code = SUCCESS
            then resp = ack_message \<and> nm_dir s' = (nm_dir s)(msg_path m \<mapsto> current_ss_index s) \<and>
              ss_disk g' = d \<and> node_of d (msg_path m) \<noteq> None
            else resp = nack_message code \<and> nm_dir s' = nm_dir s \<and> ss_disk g' = ss_disk g
        | Inl e \<Rightarrow> resp = nack_message e \<and> e \<in> {NETWORK_ERROR, SS_UNAVAILABLE} \<and> nm_dir s' = nm_dir s \<and>
            ss_disk g' = (if handled then d else ss_disk g)))"
proof -
  let ?k = "current_ss_index s" and ?c = "create_result env' g m"
  let ?f = "forward (env_peer env) (registered_ss s ! nat ?k) m"
  note rep = storage_create_reply [OF ss(1) nm(3,4) ss(2)] and srv = forward_served [OF wire]
  note fwd = create_forward [OF nm(1,5,6), of env, unfolded Let_def]
  note adv = nm_inv_advance' [OF nm(1,6)]
  have k: "0 \<le> ?k" "?k < num_registered_ss (advance s)" using nm_inv_current [OF nm(1,6)] by auto
  show ?thesis
  proof (cases ?f)
    case (Inl e)
    then have "outcome ?f = Some e" by (simp add: outcome_def)
    with fwd nm(4) rep(1) adv srv(2) [OF Inl] Inl show ?thesis by (simp add: nm_dispatch_def split_beta g'_def)
  next
    case (Inr r)
    have r: "handled" "r = reply" using srv(1) [OF Inr] by auto
    then have out: "outcome ?f = (if fst ?c = SUCCESS then None else Some (fst ?c))"
      using Inr rep(2) by (simp add: outcome_def)
    show ?thesis
    proof (cases "fst ?c = SUCCESS")
      case True
      have "length (msg_path m) < MAX_PATH_LEN" using nm(3) by (simp add: wf_message_def)
      from add_path_env [OF adv nm(2) k this] obtain s' where
        "add_path (env_trie_malloc env 0) (advance s) ?k (msg_path m) = Some s'" "nm_inv s'"
        "nm_dir s' = (nm_dir s)(msg_path m \<mapsto> ?k)" by auto
      with fwd out True nm(4) rep(1) create_result_exists [OF True] Inr r(1) show ?thesis
        by (simp add: nm_dispatch_def split_beta g'_def)
    next
      case False
      with fwd out nm(4) rep(1) create_result_fails [OF False] adv Inr r(1) show ?thesis
        by (simp add: nm_dispatch_def split_beta g'_def)
    qed
  qed
qed

text \<open>A connection whose request is delivered and whose reply is lost.\<close>

definition losing_reply :: peer where
  "losing_reply = (answering (\<lambda>_ _ m. m))\<lparr>peer_recv := (\<lambda>_ _ m. (-1, m))\<rparr>"

lemma losing_served: "served losing_reply ip port m True reply" "forward losing_reply ss m = Inl NETWORK_ERROR"
  by (simp_all add: served_def delivers_def forward_def losing_reply_def answering_def open_peer_def exchange_def
      create_socket_def connect_to_server_def send_message_def receive_message_def)

theorem create_end_to_end_witness:
  "\<exists>s env (g1 :: ss_state) s'. nm_dispatch env s (zero_message\<lparr>msg_operation := CREATE_FILE, msg_path := ''b''\<rparr>) =
     Some (s', nack_message NETWORK_ERROR) \<and> nm_dir s' = [''a'' \<mapsto> 0] \<and> node_of (ss_disk g1) ''b'' \<noteq> None"
proof -
  let ?m = "zero_message\<lparr>msg_operation := CREATE_FILE, msg_path := ''b''\<rparr>" and ?env = "good_env\<lparr>env_peer := losing_reply\<rparr>"
  obtain s where s: "nm_inv s" "nm_dir s = [''a'' \<mapsto> 0]" "num_registered_ss s = 1" "current_ss_index s = 0"
    using one_server by blast
  have wf: "wf_message ?m" using wf_zero_message by (simp add: wf_message_def size_defs)
  have mal: "all_malloc ?env" using good_env_malloc by (simp add: all_malloc_def)
  have q: "locks_quiet (ss_locks empty_server)" using empty_server_good by (simp add: ss_good_def)
  have "ss_request_ok ?m" using wf by (simp add: ss_request_ok_def)
  from nm_dispatch_good [OF empty_server_good this, of good_ss_env] obtain g1 reply where
    g1: "ss_nm_dispatch good_ss_env empty_server ?m = Some (g1, reply)" by blast
  have "fst (ss_create (ss_disk empty_server) ''b'' FILE_TYPE_FILE) = SUCCESS" by code_simp
  then have "fst (create_result good_ss_env empty_server ?m) = SUCCESS"
    using lock_ok_good by (simp add: zero_message_def create_result_def)
  then have d: "node_of (snd (create_result good_ss_env empty_server ?m)) ''b'' \<noteq> None"
    using create_result_exists [of good_ss_env empty_server ?m] by simp
  have w: "served (env_peer ?env) ip port ?m True reply" "forward (env_peer ?env) ss ?m = Inl NETWORK_ERROR" for ip port ss
    using losing_served by simp_all
  from create_end_to_end [OF s(1) mal wf _ _ _ q g1 w(1), unfolded w(2)] s d
    storage_create_reply(1) [OF q wf _ g1] obtain s' where
    "nm_dispatch ?env s ?m = Some (s', nack_message NETWORK_ERROR)" "nm_dir s' = [''a'' \<mapsto> 0]"
    "node_of (ss_disk g1) ''b'' \<noteq> None" by (auto simp: split_beta)
  then show ?thesis by (intro exI [of _ s] exI [of _ ?env] exI [of _ g1] exI [of _ s'] conjI)
qed

text \<open>
  Property C11: a deletion, end to end, over a connection that may fail at any point, from
  any state with an intact cache without dangling slots. When the reply of the server that
  the index gives arrives, either the name leaves both the disk and the index, or the client
  gets that server's error and neither changes. When it does not arrive, the client gets an
  error and the naming server's state is unchanged, but the name is gone from the disk if
  the request was handled.
\<close>

theorem delete_end_to_end:
  assumes nm: "nm_inv s" "wf_message m" "msg_operation m = DELETE_FILE" "nm_dir s (msg_path m) = Some k"
      "lru_rep (path_lru_cache s) xs" "lru_live (path_lru_cache s) xs"
    and ss: "locks_quiet (ss_locks g)" "ss_nm_dispatch env' g m = Some (g1, reply)"
    and wire: "served (env_peer env) (ssi_ip (registered_ss s ! nat k)) (ssi_nm_port (registered_ss s ! nat k)) m handled reply"
  defines "g' \<equiv> (if handled then g1 else g)"
  shows "\<exists>s' resp. nm_dispatch env s m = Some (s', resp) \<and> nm_inv s' \<and>
    (case delete_result env' g m of (code, d) \<Rightarrow>
       (case forward (env_peer env) (registered_ss s ! nat k) m of
          Inr _ \<Rightarrow>
            if code = SUCCESS
            then resp = ack_message \<and> nm_dir s' = (nm_dir s)(msg_path m := None) \<and>
              ss_disk g' = d \<and> node_of d (msg_path m) = None
            else resp = nack_message code \<and> s' = s \<and> ss_disk g' = ss_disk g
        | Inl e \<Rightarrow> resp = nack_message e \<and> e \<in> {NETWORK_ERROR, SS_UNAVAILABLE} \<and> s' = s \<and>
            ss_disk g' = (if handled then d else ss_disk g)))"
proof -
  let ?c = "delete_result env' g m" and ?f = "forward (env_peer env) (registered_ss s ! nat k) m"
  note rep = storage_delete_reply [OF ss(1) nm(2,3) ss(2)] and srv = forward_served [OF wire]
  show ?thesis
  proof (cases ?f)
    case (Inl e)
    then have "outcome ?f = Some e" by (simp add: outcome_def)
    from delete_refused [OF nm(1,4) this] nm(1,3) rep(1) srv(2) [OF Inl] Inl show ?thesis
      by (simp add: nm_dispatch_def split_beta g'_def)
  next
    case (Inr r)
    have r: "handled" "r = reply" using srv(1) [OF Inr] by auto
    then have out: "outcome ?f = (if fst ?c = SUCCESS then None else Some (fst ?c))"
      using Inr rep(2) by (simp add: outcome_def)
    show ?thesis
    proof (cases "fst ?c = SUCCESS")
      case True
      with out have none: "outcome ?f = None" by simp
      obtain c where c: "lru_remove (path_lru_cache s) (msg_path m) = Some c" using lru_remove_total [OF nm(5,6)] by blast
      from delete_run [OF nm(1,4) none c] obtain s' where "handle_delete env s m = Some (s', ack_message)" "nm_inv s'"
        "nm_dir s' = (nm_dir s)(msg_path m := None)" by blast
      with True nm(3) rep(1) delete_result_gone [OF True] Inr r(1) show ?thesis
        by (simp add: nm_dispatch_def split_beta g'_def)
    next
      case False
      with out have "outcome ?f = Some (fst ?c)" by simp
      from delete_refused [OF nm(1,4) this] False nm(1,3) rep(1) delete_result_fails [OF False] Inr r(1) show ?thesis
        by (simp add: nm_dispatch_def split_beta g'_def)
    qed
  qed
qed

theorem delete_end_to_end_witness:
  "\<exists>s env (g :: ss_state) s' code. nm_dispatch env s (zero_message\<lparr>msg_operation := DELETE_FILE, msg_path := ''a''\<rparr>) =
     Some (s', nack_message FILE_NOT_FOUND) \<and> nm_dir s' ''a'' = Some 0 \<and> ss_delete (ss_disk g) ''a'' = (FILE_NOT_FOUND, code)"
proof -
  let ?m = "zero_message\<lparr>msg_operation := DELETE_FILE, msg_path := ''a''\<rparr>"
  obtain s where s: "nm_inv s" "nm_dir s = [''a'' \<mapsto> 0]" "path_lru_cache s = lru_init" using one_server by blast
  have cache: "lru_rep (path_lru_cache s) []" "lru_live (path_lru_cache s) []" using s(3) init_cache by simp_all
  have wf: "wf_message ?m" using wf_zero_message by (simp add: wf_message_def size_defs)
  have q: "locks_quiet (ss_locks empty_server)" using empty_server_good by (simp add: ss_good_def)
  have "ss_request_ok ?m" using wf by (simp add: ss_request_ok_def)
  from nm_dispatch_good [OF empty_server_good this, of good_ss_env] obtain g' reply where
    g': "ss_nm_dispatch good_ss_env empty_server ?m = Some (g', reply)" by blast
  have c: "ss_delete (ss_disk empty_server) ''a'' = (FILE_NOT_FOUND, ss_disk empty_server)"
    by (simp add: ss_delete_def sys_stat_def empty_server_def)
  then have c': "delete_result good_ss_env empty_server ?m = (FILE_NOT_FOUND, ss_disk empty_server)"
    using lock_ok_good by (simp add: delete_result_def)
  let ?env = "good_env\<lparr>env_peer := answering (\<lambda>_ _ _. reply)\<rparr>"
  have re: "reaches (env_peer ?env) ip port ?m reply" for ip port by (simp add: answering_reaches)
  then have w: "served (env_peer ?env) ip port ?m True reply" "forward (env_peer ?env) ss ?m = Inr reply" for ip port ss
    using answering_served [of "\<lambda>_ _ _. reply"] by (simp_all add: reaches_def forward_def)
  have dir: "nm_dir s (msg_path ?m) = Some 0" using s(2) by simp
  from delete_end_to_end [OF s(1) wf _ dir cache q g' w(1), unfolded w(2)] c' have
    "nm_dispatch ?env s ?m = Some (s, nack_message FILE_NOT_FOUND)" by (auto simp: error_code_defs)
  with c s(2) show ?thesis
    by (intro exI [of _ s] exI [of _ ?env] exI [of _ empty_server] exI [of _ "ss_disk empty_server"]) simp
qed

text \<open>
  Property C20: the start of a storage server. Given its ports and at least one path, it
  registers the first ten of its paths. A naming server with room acknowledges; the
  storage server then serves, and the index maps exactly these paths, besides what it had,
  to a new record with the address and the ports that were sent.
\<close>

theorem register_end_to_end:
  fixes argv :: "string list"
  defines "ps \<equiv> take 10 (drop 5 argv)"
  assumes args: "6 \<le> length argv" "c_atoi (argv ! 2) = Some port" "c_atoi (argv ! 3) = Some cp"
      "c_atoi (argv ! 4) = Some np" "\<forall>p \<in> set ps. length p < 1024" "length (st_ip e) < 16"
    and listeners: "open_listener (st_nm_listen e) np" "open_listener (st_client_listen e) cp"
    and nm: "nm_inv s" "all_malloc env" "num_registered_ss s < 100"
      "nm_dispatch env s (register_msg (st_ip e) np cp ps) = Some (s', reply)"
    and wire: "reaches (st_nm e) (argv ! 1) port (register_msg (st_ip e) np cp ps) reply"
  shows "ss_main e argv = Some (Some \<lparr>ss_disk = st_disk e, ss_locks = init_file_locks\<rparr>) \<and>
    reply = ack_message \<and> nm_inv s' \<and>
    nm_dir s' = (\<lambda>q. if q \<in> set ps then Some (num_registered_ss s) else nm_dir s q) \<and>
    (\<exists>ss. registered_ss s' = (registered_ss s)[nat (num_registered_ss s) := ss] \<and> ssi_ip ss = st_ip e \<and>
      ssi_nm_port ss = np \<and> ssi_client_port ss = cp \<and> listed ss = ps)"
proof -
  let ?m = "register_msg (st_ip e) np cp ps"
  have n: "length ps \<le> 10" by (simp add: ps_def)
  have ip: "length (st_ip e) < INET_ADDRSTRLEN" and len: "\<forall>p \<in> set ps. length p < MAX_PATH_LEN"
    using args(5,6) by (simp_all add: size_defs)
  note wf = register_msg_wf [OF ip n len, of np cp]
  have "0 \<le> msg_num_accessible_paths ?m" "msg_num_accessible_paths ?m \<le> int MAX_ACCESSIBLE_PATHS"
    "num_registered_ss s < int MAX_SS" using n nm(3) by (simp_all add: register_msg_fields size_defs)
  from register_run [OF nm(1,2) wf(1) this] obtain s1 ss where
    reg: "handle_register env s ?m = Some (s1, ack_message)" "nm_inv s1"
    "nm_dir s1 = (\<lambda>q. if q \<in> set ps then Some (num_registered_ss s) else nm_dir s q)"
    "registered_ss s1 = (registered_ss s)[nat (num_registered_ss s) := ss]"
    "ssi_ip ss = st_ip e" "ssi_nm_port ss = np" "ssi_client_port ss = cp" "listed ss = ps"
    by (auto simp: register_msg_fields wf(2))
  have s1: "s' = s1" "reply = ack_message"
    using nm(4) reg(1) by (simp_all add: nm_dispatch_def register_msg_fields)
  have "parse_paths (drop 5 argv) [] = Some ps"
    using parse_paths_take [of "[]" "drop 5 argv"] args(5) by (simp add: ps_def)
  then have "ss_main e argv = Some (Some \<lparr>ss_disk = st_disk e, ss_locks = init_file_locks\<rparr>)"
    using args(1-4) ip listeners wire s1(2) by (simp add: ss_main_def reaches_def)
  with reg s1 show ?thesis by blast
qed

theorem register_end_to_end_witness:
  "\<exists>e s'. ss_main e [''ss'', ''10.0.0.1'', ''8000'', ''9002'', ''9001'', ''a''] =
       Some (Some \<lparr>ss_disk = empty_disk, ss_locks = init_file_locks\<rparr>) \<and> nm_dir s' = [''a'' \<mapsto> 0]"
proof -
  let ?argv = "[''ss'', ''10.0.0.1'', ''8000'', ''9002'', ''9001'', ''a'']"
  let ?l = "\<lparr>le_socket = 3, le_bind = (\<lambda>_. 0), le_listen = 0\<rparr>"
  let ?e = "\<lparr>st_ip = ''10.0.0.2'', st_nm = answering (\<lambda>_ _ _. ack_message), st_nm_listen = ?l,
      st_client_listen = ?l, st_disk = empty_disk\<rparr>"
  have ports: "c_atoi ''8000'' = Some 8000" "c_atoi ''9002'' = Some 9002" "c_atoi ''9001'' = Some 9001" by code_simp+
  have ps: "take 10 (drop 5 ?argv) = [''a'']" by simp
  have opn: "open_listener ?l p" for p
    by (simp add: open_listener_def create_socket_def bind_socket_def listen_socket_def)
  have m: "msg_operation (register_msg ''10.0.0.2'' 9001 9002 [''a'']) = REGISTER_SS" by (simp add: register_msg_def)
  have wf: "wf_message (register_msg ''10.0.0.2'' 9001 9002 [''a''])"
    by (rule register_msg_wf) (simp_all add: size_defs)
  have "nm_safe nm_init (register_msg ''10.0.0.2'' 9001 9002 [''a''])"
    using wf by (simp add: nm_safe_def register_msg_fields nm_init_def cached_paths_def path_of_def lru_init_def)
  from dispatch_good [OF nm_good_init good_env_malloc this] obtain s' reply where
    d: "nm_dispatch good_env nm_init (register_msg ''10.0.0.2'' 9001 9002 [''a'']) = Some (s', reply)" by blast
  have "num_registered_ss nm_init < int MAX_SS" by (simp add: nm_init_def size_defs)
  then have r: "reply = ack_message"
    using register_run [OF nm_inv_init good_env_malloc wf] d m
    by (auto simp: nm_dispatch_def register_msg_fields size_defs)
  have init: "nm_dir nm_init = Map.empty" "num_registered_ss nm_init = 0" by (simp_all add: nm_init_def fun_eq_iff)
  from register_end_to_end [of ?argv 8000 9002 9001 ?e nm_init good_env s' reply] ports opn nm_inv_init
    good_env_malloc d r answering_reaches init(2)
  have main: "ss_main ?e ?argv = Some (Some \<lparr>ss_disk = empty_disk, ss_locks = init_file_locks\<rparr>)"
    and dir: "nm_dir s' = (\<lambda>q. if q \<in> set [''a''] then Some (num_registered_ss nm_init) else nm_dir nm_init q)"
    unfolding ps by simp_all
  have "nm_dir s' = [''a'' \<mapsto> 0]" unfolding dir init by (simp add: fun_eq_iff)
  with main show ?thesis by (intro exI [of _ ?e] exI [of _ s'] conjI)
qed

subsection \<open>A client, the naming server and a storage server\<close>

lemma lookup_ack:
  assumes "nm_safely_reachable s" and "nm_safe s m" and "msg_operation m \<in> {READ_FILE, WRITE_FILE, GET_FILE_INFO}"
    and "nm_dir s (msg_path m) = Some k" and "nm_dispatch env s m = Some (s', a)"
  shows "\<exists>c. s' = s\<lparr>path_lru_cache := c\<rparr> \<and> a = ack_message\<lparr>msg_ss_ip := ssi_ip (registered_ss s ! nat k),
    msg_ss_client_port := ssi_client_port (registered_ss s ! nat k)\<rparr>"
proof -
  obtain xs where inv: "nm_inv s" and coh: "coherent s xs"
    using reachable_good [OF assms(1)] by (auto simp: nm_good_def)
  from lookup_preserves [OF inv coh assms(2,3), of env] assms(3-5) show ?thesis
    by (auto simp: nm_dispatch_def lookup_response_def)
qed

lemma nm_step_reachable:
  "nm_safely_reachable s \<Longrightarrow> all_malloc env \<Longrightarrow> nm_safe s m \<Longrightarrow> nm_dispatch env s m = Some (s', a) \<Longrightarrow>
     nm_safely_reachable s'"
  by (blast intro: nm_more nm_step.intros)

text \<open>The requests of \<open>WRITE p t\<close> and of \<open>READ p\<close>.\<close>

definition write_request :: "string \<Rightarrow> string \<Rightarrow> Message" where
  "write_request p t = zero_message\<lparr>msg_operation := WRITE_FILE, msg_path := p, msg_data := t,
     msg_data_size := int (length t), msg_write_mode := WRITE_MODE_ASYNC\<rparr>"

definition read_request :: "string \<Rightarrow> Message" where
  "read_request p = zero_message\<lparr>msg_operation := READ_FILE, msg_path := p\<rparr>"

lemma request_fields:
  "msg_operation (write_request p t) = WRITE_FILE" "msg_path (write_request p t) = p" "msg_data (write_request p t) = t"
  "msg_data_size (write_request p t) = int (length t)" "msg_operation (read_request p) = READ_FILE"
  "msg_path (read_request p) = p"
  by (simp_all add: write_request_def read_request_def)

lemma client_requests:
  assumes "length p < 1024" and "length t < 8192"
  shows "client_request [prog, ip, port, ''WRITE'', p, t] = Some (Some (write_request p t))"
    and "client_request [prog, ip, port, ''READ'', p] = Some (Some (read_request p))"
  using assms by (simp_all add: client_request_def size_defs write_request_def read_request_def)

text \<open>A client run that the naming server directs to a storage server.\<close>

lemma client_directed:
  assumes argv: "4 \<le> length argv" "argv ! 1 = ip" "c_atoi (argv ! 2) = Some n" "client_request argv = Some (Some req)"
    and op: "msg_operation req \<in> {READ_FILE, WRITE_FILE, GET_FILE_INFO}"
    and nm: "reaches nm ip n req (ack_message\<lparr>msg_ss_ip := sip, msg_ss_client_port := sport\<rparr>)"
    and ss: "reaches ss sip sport req reply" and ok: "is_success reply"
  shows "client_main nm ss argv = (if msg_operation req = WRITE_FILE then Some (0, [Wrote])
    else do { t \<leftarrow> printed (msg_data reply);
              Some (0, [if msg_operation req = READ_FILE then Read_data t else Info t]) })"
proof -
  let ?a = "ack_message\<lparr>msg_ss_ip := sip, msg_ss_client_port := sport\<rparr>"
  have a: "is_success ?a" by (simp add: is_success_def ack_message_def)
  have st: "client_storage ss req ?a = (if msg_operation req = WRITE_FILE then Some (0, [Wrote])
    else do { t \<leftarrow> printed (msg_data reply);
              Some (0, [if msg_operation req = READ_FILE then Read_data t else Info t]) })"
    using ss ok op by (auto simp: client_storage_def reaches_def)
  have get: "arr_get argv 1 = Some ip" "arr_get argv 2 = Some (argv ! 2)" using argv(1,2) by simp_all
  have "client_main nm ss argv = client_storage ss req ?a"
    using argv(1,3,4) get nm a op by (auto simp: client_main_def reaches_def)
  with st show ?thesis by simp
qed

text \<open>
  Property C12: a client's write is read back by a client, through both servers. Let the
  naming server be in a state that safe requests lead to and its index give a server for
  \<open>p\<close>, and let both requests be safe. Then the naming server directs both clients to that
  server, and if they reach it, its disk refuses and loses nothing and its lock of \<open>p\<close> can
  be taken, \<open>WRITE p t\<close> succeeds, and \<open>READ p\<close> after it prints \<open>t\<close>, for any text of up to 8191
  bytes without a zero byte.
\<close>

theorem client_write_read:
  assumes args: "w = [prog, ip, port, ''WRITE'', p, t]" "r = [prog, ip, port, ''READ'', p]" "c_atoi port = Some n"
      "length p < 1024" "length t < 8192" "CHR 0x00 \<notin> set t"
    and nm: "nm_safely_reachable s" "nm_dir s p = Some k" "all_malloc env"
      "nm_safe s (write_request p t)" "nm_dispatch env s (write_request p t) = Some (s1, a1)"
      "nm_safe s1 (read_request p)" "nm_dispatch env' s1 (read_request p) = Some (s2, a2)"
    and server: "locks_quiet (ss_locks g)" "disk_healthy (ss_disk g)" "can_write (ss_disk g) p"
      "\<And>b. node_of (ss_disk g) p \<noteq> Some (Other b)" "\<And>l. lock_ok env1 l p" "\<And>l. lock_ok env2 l p"
      "ss_client_dispatch env1 g (write_request p t) = Some (g1, reply1)"
      "ss_client_dispatch env2 g1 (read_request p) = Some (g2, reply2)"
    and wire: "reaches nm1 ip n (write_request p t) a1" "reaches nm2 ip n (read_request p) a2"
      "reaches ss1 (ssi_ip (registered_ss s ! nat k)) (ssi_client_port (registered_ss s ! nat k)) (write_request p t) reply1"
      "reaches ss2 (ssi_ip (registered_ss s ! nat k)) (ssi_client_port (registered_ss s ! nat k)) (read_request p) reply2"
  shows "client_main nm1 ss1 w = Some (0, [Wrote]) \<and> client_main nm2 ss2 r = Some (0, [Read_data t])"
proof -
  let ?w = "write_request p t" and ?r = "read_request p"
  let ?dir = "ack_message\<lparr>msg_ss_ip := ssi_ip (registered_ss s ! nat k), msg_ss_client_port := ssi_client_port (registered_ss s ! nat k)\<rparr>"
  obtain c where c: "s1 = s\<lparr>path_lru_cache := c\<rparr>" "a1 = ?dir"
    using lookup_ack [OF nm(1,4) _ _ nm(5)] nm(2) by (auto simp: request_fields)
  have s1: "nm_safely_reachable s1" by (rule nm_step_reachable [OF nm(1,3,4,5)])
  have a2: "a2 = ?dir" using lookup_ack [OF s1 nm(6) _ _ nm(7)] nm(2) c(1) by (auto simp: request_fields)
  have p: "length (msg_path ?w) < MAX_PATH_LEN" using args(4) by (simp add: request_fields size_defs)
  from write_then_read [OF server(1,2) p, of env1 env2 ?r] server(3-6) args(5) obtain g1' g2' where
    run: "ss_handle_write env1 g ?w = Some (g1', ack_message)"
    "ss_handle_read env2 g1' ?r = Some (g2', ack_message\<lparr>msg_data := t, msg_data_size := int (length t)\<rparr>)"
    by (auto simp: request_fields)
  have g1: "g1' = g1" "reply1 = ack_message" using run(1) server(7) by (simp_all add: ss_client_dispatch_def request_fields)
  have g2: "reply2 = ack_message\<lparr>msg_data := t, msg_data_size := int (length t)\<rparr>"
    using run(2) g1(1) server(8) by (simp add: ss_client_dispatch_def request_fields)
  then have ok: "is_success reply2" "msg_data reply2 = t" by (simp_all add: is_success_def ack_message_def)
  have pr: "printed t = Some t"
    using args(5,6) by (simp add: printed_def size_defs takeWhile_eq_all_conv) (metis takeWhile_eq_all_conv)
  note req = client_requests [OF args(4,5)]
  have "client_main nm1 ss1 w = Some (0, [Wrote])"
    using client_directed [of w ip n ?w nm1 _ _ ss1 reply1] args(1,3) req(1) wire(1,3) c(2) g1(2) by (simp add: request_fields)
  moreover have "client_main nm2 ss2 r = Some (0, [Read_data t])"
    using client_directed [of r ip n ?r nm2 _ _ ss2 reply2] args(2,3) req(2) wire(2,4) a2 ok pr by (simp add: request_fields)
  ultimately show ?thesis by blast
qed

text \<open>The naming server's part of the witness: two lookups in the state with one server.\<close>

lemma two_lookups:
  "\<exists>s s1 s2 a1 a2. nm_safely_reachable s \<and> nm_dir s ''a'' = Some 0 \<and>
     nm_safe s (write_request ''a'' ''hi'') \<and> nm_dispatch good_env s (write_request ''a'' ''hi'') = Some (s1, a1) \<and>
     nm_safe s1 (read_request ''a'') \<and> nm_dispatch good_env s1 (read_request ''a'') = Some (s2, a2)"
proof -
  let ?w = "write_request ''a'' ''hi''" and ?r = "read_request ''a''"
  obtain s where s: "nm_safely_reachable s" "nm_inv s" "nm_dir s = [''a'' \<mapsto> 0]" "path_lru_cache s = lru_init"
    using one_server by blast
  obtain xs where coh: "coherent s xs" using reachable_good [OF s(1)] by (auto simp: nm_good_def)
  have wf: "wf_message ?w" "wf_message ?r" using wf_zero_message
    by (simp_all add: write_request_def read_request_def wf_message_def size_defs)
  have ex: "lru_exact (path_lru_cache s)" using s(4) lru_sim_init by simp
  have p: "length (msg_path ?w) < MAX_PATH_LEN" using wf(1) by (simp add: wf_message_def)
  have safe: "nm_safe s ?w" using wf(1) lru_exact_tail [OF ex] by (simp add: nm_safe_def request_fields)
  obtain c where c: "handle_lookup good_env s ?w = Some (s\<lparr>path_lru_cache := c\<rparr>, lookup_response s (msg_path ?w))" "lru_exact c"
    using lookup_run [OF s(2) coh p lru_exact_tail [OF ex], of good_env] ex by blast
  have d: "nm_dispatch good_env s ?w = Some (s\<lparr>path_lru_cache := c\<rparr>, lookup_response s (msg_path ?w))"
    using c(1) by (simp add: nm_dispatch_def request_fields)
  have safe1: "nm_safe (s\<lparr>path_lru_cache := c\<rparr>) ?r"
    using wf(2) lru_exact_tail [OF c(2)] by (simp add: nm_safe_def request_fields)
  from dispatch_good [OF reachable_good [OF nm_step_reachable [OF s(1) good_env_malloc safe d]] good_env_malloc this]
  obtain s2 a2 where "nm_dispatch good_env (s\<lparr>path_lru_cache := c\<rparr>) ?r = Some (s2, a2)" by blast
  with s safe d safe1 show ?thesis by (metis fun_upd_same)
qed

theorem client_write_read_witness:
  "\<exists>nm1 nm2 ss1 ss2. client_main nm1 ss1 [''client'', ''10.0.0.1'', ''8000'', ''WRITE'', ''a'', ''hi''] = Some (0, [Wrote]) \<and>
     client_main nm2 ss2 [''client'', ''10.0.0.1'', ''8000'', ''READ'', ''a''] = Some (0, [Read_data ''hi''])"
proof -
  let ?w = "write_request ''a'' ''hi''" and ?r = "read_request ''a''"
  obtain s s1 s2 a1 a2 where nm: "nm_safely_reachable s" "nm_dir s ''a'' = Some 0" "nm_safe s ?w"
    "nm_dispatch good_env s ?w = Some (s1, a1)" "nm_safe s1 ?r" "nm_dispatch good_env s1 ?r = Some (s2, a2)"
    using two_lookups by blast
  have port: "c_atoi ''8000'' = Some 8000" by code_simp
  have q: "locks_quiet (ss_locks empty_server)" using empty_server_good by (simp add: ss_good_def)
  have h: "disk_healthy (ss_disk empty_server)" "can_write (ss_disk empty_server) ''a''"
    "\<And>b. node_of (ss_disk empty_server) ''a'' \<noteq> Some (Other b)"
    using can_write_empty by (simp_all add: empty_server_def)
  have "ss_request_ok ?w" "ss_request_ok ?r" using wf_zero_message
    by (simp_all add: ss_request_ok_def write_request_def read_request_def wf_message_def size_defs)
  then obtain g1 r1 g2 r2 where g: "ss_client_dispatch good_ss_env empty_server ?w = Some (g1, r1)"
    "ss_client_dispatch good_ss_env g1 ?r = Some (g2, r2)"
    using client_dispatch_good [OF empty_server_good] client_dispatch_good by metis
  have w: "reaches (answering (\<lambda>_ _ _. x)) ip n m x" for x ip n m by (simp add: answering_reaches)
  from client_write_read [OF refl refl port _ _ _ nm(1,2) good_env_malloc nm(3-6) q h lock_ok_good lock_ok_good g w w w w]
  have "client_main (answering (\<lambda>_ _ _. a1)) (answering (\<lambda>_ _ _. r1)) [''client'', ''10.0.0.1'', ''8000'', ''WRITE'', ''a'', ''hi''] =
      Some (0, [Wrote]) \<and>
    client_main (answering (\<lambda>_ _ _. a2)) (answering (\<lambda>_ _ _. r2)) [''client'', ''10.0.0.1'', ''8000'', ''READ'', ''a''] =
      Some (0, [Read_data ''hi''])" by simp
  then show ?thesis by blast
qed

end
