(* ===== verification/Spec2Isabelle.thy ===== *)
theory Spec2Isabelle
  imports Prelude Common Net Trie Lru_Cache Lru_Refine Lru_Spec Lru_Props Naming_Server Naming_Correct
    Naming_Props Naming_Cache Naming_Race Posix Ss_File_Operations File_Props File_Locks Lock_Props Storage_Server Storage_Correct
    Storage_Props Startup Client Client_Props System
begin

text \<open>
  A verification development for the network file system of \<open>src/\<close>: a naming server that maps
  paths to storage servers, storage servers that keep the files, and a command line client.
  They exchange one message type over TCP connections, one request and one response each.

  \<^bold>\<open>The program and the theories.\<close>

  \<^item> \<open>Prelude\<close>: the reading of C. A run has type \<open>'a c_run\<close> and is \<open>None\<close> when it has no defined
    result: a NULL or dangling pointer, an index outside its array, a \<open>strcpy\<close> beyond its
    buffer, a locking call that blocks the only thread. NULL pointers that the code returns
    and tests are options inside. Loops over counters are \<open>c_for\<close>.
  \<^item> \<open>Common\<close>: \<open>common.h\<close> and \<open>StorageServerInfo\<close> of \<open>trie.h\<close>. \<open>Net\<close>: the wrappers of \<open>utils.c\<close>, with the
    answers of the socket calls as arguments (\<open>peer\<close>); a port is the 16 bits of \<open>htons\<close> by the
    time the system sees it.
  \<^item> \<open>Trie\<close>: \<open>trie.c\<close>, with its properties and the interface \<open>path_index\<close> that it implements.
  \<^item> \<open>Lru_Cache\<close>: \<open>lru_cache.c\<close> at the level of its pointers, over a store of nodes in which a freed
    address is gone for good. \<open>Lru_Refine\<close> says what each operation does to the doubly linked
    list and when no slot dangles, \<open>Lru_Spec\<close> has the ideal cache, the simulation and the
    interface \<open>lru_interface\<close>, \<open>Lru_Props\<close> the properties.
  \<^item> \<open>Naming_Server\<close>: \<open>naming_server.c\<close>; the globals are \<open>nm_state\<close>, each case of
    \<open>handle_connection\<close> is a definition (\<open>handle_register\<close>, \<open>handle_list\<close>, \<open>handle_create\<close>,
    \<open>handle_delete\<close>, \<open>handle_copy\<close>, \<open>handle_lookup\<close>), and a pointer into \<open>registered_ss\<close> is its index.
    \<open>Naming_Correct\<close> has the invariant \<open>nm_inv\<close>, the coherence of the cache and what each case
    does; \<open>Naming_Props\<close> the safe requests, the state machine of the server and the
    properties of each operation; \<open>Naming_Cache\<close> the equivalence with a server without a cache,
    and what breaks it; \<open>Naming_Race\<close> two creations that overlap.
  \<^item> \<open>Posix\<close>: the file system calls that are used, on a disk with what the system may refuse or
    cut short. \<open>Ss_File_Operations\<close>: the file operations of \<open>ss_file_operations.c\<close>; \<open>File_Props\<close>
    their properties.
  \<^item> \<open>File_Locks\<close>: the lock table of \<open>ss_file_operations.c\<close>. \<open>Lock_Props\<close>: its interface
    \<open>file_lock_api\<close>, the threads as a step relation (with acquisitions that fail), exclusion and
    progress.
  \<^item> \<open>Storage_Server\<close>: both handlers of \<open>storage_server.c\<close>. \<open>Storage_Correct\<close>: what each does between
    two states with no lock held. \<open>Storage_Props\<close>: the properties.
  \<^item> \<open>Startup\<close>: \<open>main\<close> of the two servers up to their accept loops. \<open>Client\<close>: \<open>client.c\<close>; \<open>Client_Props\<close>:
    the request of a command line. \<open>System\<close>: requests that pass through both servers.

  \<^bold>\<open>How the parts interact.\<close> A handler of the naming server that forwards a request does so
  through \<open>env_peer\<close>, whose answers are arbitrary in the properties of the naming server
  alone. In \<open>System\<close> the answer, if it arrives, is the response of the storage server's handler,
  and the connection may fail before or after that handler ran (\<open>served\<close>). The naming
  server relies on its index through \<open>path_index\<close> and on its cache through the simulation of
  the ideal cache; the storage server relies on its locks through \<open>file_lock_api\<close>.

  \<^bold>\<open>What is shown.\<close> From its start and through any sequence of safe requests (\<open>nm_safe\<close>) the
  naming server answers the next safe request, keeps its invariant, and directs every lookup
  where its index does. Safety is a condition on the request and the state: a registration
  brings no cached path, a listing fits the message, a deletion or an eviction frees no node
  that the slot of another path points to, and a deleted path has no second node. For clients
  that neither delete nor register a path that was looked up, no condition on the state
  is left: the server behaves as one without a cache, whatever the collisions of the hash
  and however full the cache. The conditions are needed: general theorems describe the
  states in which two deletions make the naming server follow a dangling pointer, a
  registration leaves lookups with the former server, and two colliding paths make the cache
  answer for a removed path. On paths that do not collide the cache refines the ideal one.

  Each operation does what it promises on every branch. The storage server answers every
  well-formed request and holds no lock afterwards; the locks exclude writers under every
  interleaving and do not deadlock; a written file is read back, up to the 8191 bytes that
  one read takes, also by the clients' commands through both servers. Creation and deletion
  change the index and the disk together when the storage server's reply arrives; when it is
  lost the disk may have changed and the index has not, as the theorems state. Two creations
  of one path that overlap both succeed, on two servers, one of which the index forgets.

  \<^bold>\<open>Termination.\<close> There is no fuel. The loops of the code are structural recursions, bounded
  counters, or for the pointer loops of the cache partial functions whose results are
  proved to exist on intact lists; a run that does not return would be \<open>None\<close>, which the
  theorems of the form \<open>\<exists>r. f x = Some r\<close> exclude.

  \<^bold>\<open>What is not modelled.\<close> \<open>log_message\<close> and \<open>perror\<close>, which print. The interleaving of two handlers
  of the naming server, whose index and cache are guarded by locks per operation only, but
  for the two halves of a creation; and that of the hand-over-hand locks inside the trie. A
  message arrives whole: \<open>recv\<close> may return a part of it, which the code takes for the message.
  Paths are names: no links, and two spellings of a name are two names. An operation code
  outside the enumeration behaves as the codes no handler has. The endless accept loops are
  sequences of connections, and what the servers do after them is never reached.
\<close>

end
